(* ===== verification/Kernel_Prelude.thy ===== *)
theory Kernel_Prelude
  imports Main "HOL-Library.Word"
begin

text \<open>
  The prelude of the development: the machine types of \<^verbatim>\<open>kernel/types.h\<close>, the result type of a
  kernel function, the table scan that the kernel writes as a counted \<^verbatim>\<open>for\<close> loop, and the
  little-endian loads and stores by which the kernel reads a \<^verbatim>\<open>struct\<close> out of a byte array.

  A kernel function that cannot fail is a HOL function. One that can reach \<^verbatim>\<open>panic()\<close>, that can
  go to sleep, or whose loop is given fuel returns a value of type \<open>'a res\<close>: \<open>Inr v\<close> when it
  returns \<open>v\<close>, and \<open>Inl\<close> of a \<open>fail\<close> otherwise. \<open>Panic msg\<close> is \<^verbatim>\<open>panic(msg)\<close> (the kernel stops),
  \<open>Asleep chan\<close> is a call that gives up the processor in \<^verbatim>\<open>sleep(chan, ...)\<close>, \<open>NoFuel\<close> is a
  loop that has not ended within its fuel, and \<open>Undef what\<close> is an access outside the array \<open>what\<close>,
  which C leaves undefined.
\<close>

unbundle bit_operations_syntax

named_theorems layout_simps \<open>sizes and offsets of the on-disk and in-memory structures\<close>
named_theorems res_simps \<open>inversion of results\<close>

section \<open>Machine types\<close>

type_synonym byte = "8 word"
type_synonym u16 = "16 word"
type_synonym u32 = "32 word"
type_synonym u64 = "64 word"

text \<open>An array of bytes is the function from an offset to the byte there.\<close>

type_synonym bytes = "nat \<Rightarrow> byte"

section \<open>Results\<close>

datatype fail = Panic string | Asleep string | NoFuel | Undef string

type_synonym 'a res = "fail + 'a"

text \<open>Sequencing: the statements after a call run only when the call returns.\<close>

definition ebind :: "'a res \<Rightarrow> ('a \<Rightarrow> 'b res) \<Rightarrow> 'b res" where
  "ebind m f = (case m of Inl e \<Rightarrow> Inl e | Inr x \<Rightarrow> f x)"

text \<open>A guard that panics.\<close>

definition guard :: "bool \<Rightarrow> string \<Rightarrow> unit res" where
  "guard b msg = (if b then Inr () else Inl (Panic msg))"

lemma ebind_Inr [simp]: "ebind (Inr x) f = f x"
  by (simp add: ebind_def)

lemma ebind_Inl [simp]: "ebind (Inl e) f = Inl e"
  by (simp add: ebind_def)

lemma ebind_eq_Inr [res_simps]: "ebind m f = Inr y \<longleftrightarrow> (\<exists>x. m = Inr x \<and> f x = Inr y)"
  by (cases m) auto

lemma ebind_eq_Inl [res_simps]:
  "ebind m f = Inl e \<longleftrightarrow> m = Inl e \<or> (\<exists>x. m = Inr x \<and> f x = Inl e)"
  by (cases m) auto

lemma ebind_cong [fundef_cong]:
  "m = m' \<Longrightarrow> (\<And>x. m' = Inr x \<Longrightarrow> f x = f' x) \<Longrightarrow> ebind m f = ebind m' f'"
  by (cases m') auto

lemma guard_eq_Inr [res_simps]: "guard b msg = Inr u \<longleftrightarrow> b"
  by (simp add: guard_def)

lemma guard_eq_Inl [res_simps]: "guard b msg = Inl e \<longleftrightarrow> \<not> b \<and> e = Panic msg"
  by (auto simp: guard_def)

lemma guard_True [simp]: "guard True msg = Inr ()"
  by (simp add: guard_def)

lemma guard_False [simp]: "guard False msg = Inl (Panic msg)"
  by (simp add: guard_def)

text \<open>\<^verbatim>\<open>for(x = ...; ...; ...) body\<close>: the body runs for each element until one run fails.\<close>

fun efold :: "('b \<Rightarrow> 's \<Rightarrow> 's res) \<Rightarrow> 'b list \<Rightarrow> 's \<Rightarrow> 's res" where
  "efold f [] s = Inr s"
| "efold f (x # xs) s = ebind (f x s) (efold f xs)"

lemma efold_append: "efold f (xs @ ys) s = ebind (efold f xs s) (efold f ys)"
  by (induction xs arbitrary: s) (auto simp: ebind_def split: sum.splits)

lemma efold_Suc: "efold f [0..<Suc n] s = ebind (efold f [0..<n] s) (f n)"
proof -
  have "efold f [n] = f n" by (rule ext) (auto simp: ebind_def split: sum.splits)
  then show ?thesis by (simp add: efold_append del: efold.simps)
qed

text \<open>Invariant rule for a counted loop that always returns.\<close>

lemma efold_inv:
  assumes "P 0 s" and "\<And>i s. i < n \<Longrightarrow> P i s \<Longrightarrow> \<exists>s'. f i s = Inr s' \<and> P (Suc i) s'"
  shows "\<exists>s'. efold f [0..<n] s = Inr s' \<and> P n s'"
proof -
  have "m \<le> n \<Longrightarrow> \<exists>s'. efold f [0..<m] s = Inr s' \<and> P m s'" for m
  proof (induction m)
    case (Suc m)
    then obtain s1 where "efold f [0..<m] s = Inr s1" "P m s1" by auto
    moreover from this Suc.prems assms(2) [of m s1] obtain s2 where "f m s1 = Inr s2" "P (Suc m) s2" by auto
    ultimately show ?case unfolding efold_Suc by auto
  qed (use assms(1) in simp)
  then show ?thesis by simp
qed

section \<open>Counted scans\<close>

text \<open>
  \<^verbatim>\<open>for(i = lo; i < hi; i++) if(P(i)) ...\<close>: the first index in the range that satisfies
  \<open>P\<close>.
\<close>

function scan :: "(nat \<Rightarrow> bool) \<Rightarrow> nat \<Rightarrow> nat \<Rightarrow> nat option" where
  "scan P lo hi = (if lo < hi then (if P lo then Some lo else scan P (Suc lo) hi) else None)"
  by pat_completeness auto
termination
  by (relation "measure (\<lambda>(P, lo, hi). hi - lo)") auto

declare scan.simps [simp del]

lemma scan_step:
  "scan P lo hi = (if lo < hi then (if P lo then Some lo else scan P (Suc lo) hi) else None)"
  by (rule scan.simps)

lemma ex_from_Suc: "(\<forall>j. lo \<le> j \<and> j < hi \<longrightarrow> \<not> P j) \<longleftrightarrow>
    (lo < hi \<longrightarrow> \<not> P lo) \<and> (\<forall>j. Suc lo \<le> j \<and> j < hi \<longrightarrow> \<not> P j)"
  by (auto simp: Suc_le_eq) (metis le_neq_implies_less)

lemma scan_Some_iff:
  "scan P lo hi = Some i \<longleftrightarrow> lo \<le> i \<and> i < hi \<and> P i \<and> (\<forall>j. lo \<le> j \<and> j < i \<longrightarrow> \<not> P j)"
proof (induction P lo hi rule: scan.induct)
  case (1 P lo hi)
  consider "\<not> lo < hi" | "lo < hi" "P lo" | "lo < hi" "\<not> P lo" by blast
  then show ?case
  proof cases
    case 1
    then show ?thesis by (simp add: scan_step [of P lo hi])
  next
    case 2
    then show ?thesis by (auto simp: scan_step [of P lo hi])
  next
    case 3
    then have "scan P lo hi = Some i \<longleftrightarrow>
        Suc lo \<le> i \<and> i < hi \<and> P i \<and> (\<forall>j. Suc lo \<le> j \<and> j < i \<longrightarrow> \<not> P j)"
      using "1.IH" by (simp add: scan_step [of P lo hi])
    also have "\<dots> \<longleftrightarrow> lo \<le> i \<and> i < hi \<and> P i \<and> (\<forall>j. lo \<le> j \<and> j < i \<longrightarrow> \<not> P j)"
      using 3 ex_from_Suc [of lo i P] by (auto simp: Suc_le_eq order.order_iff_strict)
    finally show ?thesis .
  qed
qed

lemma scan_None_iff: "scan P lo hi = None \<longleftrightarrow> (\<forall>j. lo \<le> j \<and> j < hi \<longrightarrow> \<not> P j)"
proof (induction P lo hi rule: scan.induct)
  case (1 P lo hi)
  then show ?case
    by (subst scan_step, subst ex_from_Suc) auto
qed

lemma find_filter: "find P xs = (case filter P xs of [] \<Rightarrow> None | x # _ \<Rightarrow> Some x)"
  by (induction xs) auto

lemma find_rev_filter: "find P (rev xs) = (if filter P xs = [] then None else Some (last (filter P xs)))"
  by (induction xs rule: rev_induct) auto

lemma find_SomeD: "find P xs = Some x \<Longrightarrow> P x \<and> x \<in> set xs"
  by (induction xs) (auto split: if_splits)

lemma scan_SomeD:
  assumes "scan P lo hi = Some i"
  shows "lo \<le> i" "i < hi" "P i" "\<And>j. lo \<le> j \<Longrightarrow> j < i \<Longrightarrow> \<not> P j"
  using assms by (auto simp: scan_Some_iff)

lemma scan_exists: "lo \<le> i \<Longrightarrow> i < hi \<Longrightarrow> P i \<Longrightarrow> \<exists>j. scan P lo hi = Some j"
  using scan_None_iff [of P lo hi] by (cases "scan P lo hi") auto

lemma scan_cong:
  assumes "\<And>j. lo \<le> j \<Longrightarrow> j < hi \<Longrightarrow> P j = Q j"
  shows "scan P lo hi = scan Q lo hi"
proof (cases "scan Q lo hi")
  case None
  then have "scan P lo hi = None" using assms by (simp add: scan_None_iff)
  with None show ?thesis by simp
next
  case (Some i)
  then have "scan P lo hi = Some i" using assms by (auto simp: scan_Some_iff)
  with Some show ?thesis by simp
qed

section \<open>Sequences of updates\<close>

text \<open>\<open>upds dst v n f\<close>: \<open>f\<close> after \<open>f[dst 0] := v 0, ..., f[dst (n-1)] := v (n-1)\<close>.\<close>

fun upds :: "(nat \<Rightarrow> 'k) \<Rightarrow> (nat \<Rightarrow> 'v) \<Rightarrow> nat \<Rightarrow> ('k \<Rightarrow> 'v) \<Rightarrow> 'k \<Rightarrow> 'v" where
  "upds dst v 0 f = f"
| "upds dst v (Suc n) f = (upds dst v n f)(dst n := v n)"

lemma upds_other: "(\<And>k. k < n \<Longrightarrow> dst k \<noteq> x) \<Longrightarrow> upds dst v n f x = f x"
  by (induction n) auto

lemma upds_at:
  assumes "inj_on dst {..<n}" "k < n"
  shows "upds dst v n f (dst k) = v k"
  using assms
proof (induction n)
  case (Suc n)
  then show ?case
    by (cases "k = n") (auto simp: inj_on_def less_Suc_eq)
qed simp

lemma upds_cong: "(\<And>k. k < n \<Longrightarrow> dst k = dst' k) \<Longrightarrow> (\<And>k. k < n \<Longrightarrow> v k = v' k) \<Longrightarrow>
    upds dst v n f = upds dst' v' n f"
  by (induction n) auto

lemma upds_cases:
  assumes "inj_on dst {..<n}"
  obtains k where "k < n" "x = dst k" "upds dst v n f x = v k"
    | "\<forall>k < n. dst k \<noteq> x" "upds dst v n f x = f x"
proof (cases "\<exists>k < n. x = dst k")
  case True
  then obtain k where k: "k < n" "x = dst k" by blast
  then have "upds dst v n f x = v k" using upds_at [OF assms] by simp
  with k show thesis by (rule that(1))
next
  case False
  then have "\<forall>k < n. dst k \<noteq> x" by blast
  then show thesis using that(2) upds_other [of n dst x v f] by simp
qed

section \<open>Little-endian loads and stores\<close>

text \<open>
  \<open>getle k d p\<close> is the value of the \<open>k\<close> bytes of \<open>d\<close> from offset \<open>p\<close>, low byte first;
  \<open>putle k p v d\<close> stores \<open>v\<close> there. RISC-V is little-endian, so these are the reads and the
  writes of an integer field of \<open>k\<close> bytes.
\<close>

fun getle :: "nat \<Rightarrow> bytes \<Rightarrow> nat \<Rightarrow> 'w::len word" where
  "getle 0 d p = 0"
| "getle (Suc k) d p = ucast (d p) OR push_bit 8 (getle k d (Suc p))"

fun putle :: "nat \<Rightarrow> nat \<Rightarrow> 'w::len word \<Rightarrow> bytes \<Rightarrow> bytes" where
  "putle 0 p v d = d"
| "putle (Suc k) p v d = (putle k (Suc p) (drop_bit 8 v) d)(p := ucast v)"

abbreviation get16 :: "bytes \<Rightarrow> nat \<Rightarrow> u16" where "get16 \<equiv> getle 2"
abbreviation get32 :: "bytes \<Rightarrow> nat \<Rightarrow> u32" where "get32 \<equiv> getle 4"
abbreviation get64 :: "bytes \<Rightarrow> nat \<Rightarrow> u64" where "get64 \<equiv> getle 8"
abbreviation put16 :: "nat \<Rightarrow> u16 \<Rightarrow> bytes \<Rightarrow> bytes" where "put16 \<equiv> putle 2"
abbreviation put32 :: "nat \<Rightarrow> u32 \<Rightarrow> bytes \<Rightarrow> bytes" where "put32 \<equiv> putle 4"
abbreviation put64 :: "nat \<Rightarrow> u64 \<Rightarrow> bytes \<Rightarrow> bytes" where "put64 \<equiv> putle 8"

lemma putle_other: "q < p \<or> p + k \<le> q \<Longrightarrow> putle k p v d q = d q"
  by (induction k arbitrary: p v) auto

lemma getle_cong:
  "(\<And>i. p \<le> i \<Longrightarrow> i < p + k \<Longrightarrow> d i = e i) \<Longrightarrow> getle k d p = getle k e p"
  by (induction k arbitrary: p) auto

lemma getle_putle_other:
  "p + k \<le> q \<or> q + j \<le> p \<Longrightarrow> getle j (putle k p v d) q = getle j d q"
  by (rule getle_cong) (auto simp: putle_other)

lemma getle_putle:
  fixes v :: "'w::len word"
  shows "getle k (putle k p v d) p = take_bit (8 * k) v"
proof (induction k arbitrary: p v d)
  case 0
  then show ?case by simp
next
  case (Suc k)
  have "(getle k (putle (Suc k) p v d) (Suc p) :: 'w word)
      = getle k (putle k (Suc p) (drop_bit 8 v) d) (Suc p)"
    by (rule getle_cong) auto
  then have "getle k (putle (Suc k) p v d) (Suc p) = take_bit (8 * k) (drop_bit 8 v)"
    by (simp only: Suc.IH)
  moreover have "putle (Suc k) p v d p = ucast v" by simp
  ultimately have "getle (Suc k) (putle (Suc k) p v d) p
      = ucast (ucast v :: byte) OR push_bit 8 (take_bit (8 * k) (drop_bit 8 v))"
    by (simp only: getle.simps)
  also have "\<dots> = take_bit (8 * Suc k) v"
    by (rule bit_eqI) (auto simp: bit_simps)
  finally show ?case .
qed

lemma take_bit_full: "LENGTH('w) \<le> n \<Longrightarrow> take_bit n (v :: 'w::len word) = v"
  by (rule bit_eqI) (auto simp: bit_simps dest: bit_imp_le_length)

lemma get_put_same [simp]:
  "get16 (put16 p v16 d) p = v16"
  "get32 (put32 p v32 d) p = v32"
  "get64 (put64 p v64 d) p = v64"
  by (simp_all add: getle_putle take_bit_full)

lemma getle_zero [simp]: "getle k (\<lambda>_. 0) p = 0"
  by (induction k arbitrary: p) auto

text \<open>Entry \<open>j\<close> of an array of 32-bit words that starts at offset 0.\<close>

lemma get32_put32_array: "get32 (put32 (4 * i) v d) (4 * j) = (if i = j then v else get32 d (4 * j))"
proof (cases "i = j")
  case False
  then have "4 * i + 4 \<le> 4 * j \<or> 4 * j + 4 \<le> 4 * i" by arith
  with False show ?thesis by (simp add: getle_putle_other)
qed simp

text \<open>\<open>splice p n src d\<close>: the \<open>n\<close> bytes of \<open>src\<close> copied over \<open>d\<close> at offset \<open>p\<close>.\<close>

definition splice :: "nat \<Rightarrow> nat \<Rightarrow> bytes \<Rightarrow> bytes \<Rightarrow> bytes" where
  "splice p n src d = (\<lambda>i. if p \<le> i \<and> i < p + n then src (i - p) else d i)"

lemma splice_apply: "splice p n src d i = (if p \<le> i \<and> i < p + n then src (i - p) else d i)"
  by (simp add: splice_def)

section \<open>Reachable states\<close>

text \<open>
  The components that several processors or processes run at once are step relations. Their
  safety properties are invariants, and the contract of an invariant is the locale below: it
  holds initially and every step keeps it.
\<close>

inductive reach :: "('s \<Rightarrow> bool) \<Rightarrow> ('s \<Rightarrow> 's \<Rightarrow> bool) \<Rightarrow> 's \<Rightarrow> bool"
  for start :: "'s \<Rightarrow> bool" and step :: "'s \<Rightarrow> 's \<Rightarrow> bool" where
  reach_start: "start s \<Longrightarrow> reach start step s"
| reach_step: "reach start step s \<Longrightarrow> step s t \<Longrightarrow> reach start step t"

locale invariant_system =
  fixes start :: "'s \<Rightarrow> bool" and step :: "'s \<Rightarrow> 's \<Rightarrow> bool" and inv :: "'s \<Rightarrow> bool"
  assumes inv_start: "start s \<Longrightarrow> inv s"
    and inv_step: "step s t \<Longrightarrow> inv s \<Longrightarrow> inv t"
begin

lemma reach_inv: "reach start step s \<Longrightarrow> inv s"
  by (induction rule: reach.induct) (auto intro: inv_start inv_step)

lemma steps_inv: "step\<^sup>*\<^sup>* s t \<Longrightarrow> inv s \<Longrightarrow> inv t"
  by (induction rule: rtranclp_induct) (auto intro: inv_step)

end

end
