(* ===== verification/Kernel_Locks.thy ===== *)
theory Kernel_Locks
  imports Kernel_Prelude
begin

text \<open>
  Spin locks (\<^verbatim>\<open>kernel/spinlock.c\<close>) and sleep locks (\<^verbatim>\<open>kernel/sleeplock.c\<close>).

  A hart is the \<^verbatim>\<open>struct cpu\<close> of one processor together with the interrupt-enable bit of its
  \<^verbatim>\<open>sstatus\<close> register. \<open>acquire\<close> and \<open>release\<close> are split at their atomic instructions, so that
  the step relation \<open>spin_step\<close> lets any number of processors interleave between the check, the
  atomic swap and the bookkeeping; mutual exclusion is an invariant of it.
\<close>

section \<open>Interrupt nesting\<close>

text \<open>\<^verbatim>\<open>struct cpu\<close> without the saved context; \<open>sie\<close> is \<^verbatim>\<open>SSTATUS_SIE\<close> of the hart.\<close>

record cpu =
  cproc :: "nat option"
  noff :: int
  intena :: bool
  sie :: bool

definition push_off :: "cpu \<Rightarrow> cpu" where
  "push_off c =
     (let old = sie c;
          c = c\<lparr>sie := False\<rparr>;
          c = (if noff c = 0 then c\<lparr>intena := old\<rparr> else c)
      in c\<lparr>noff := noff c + 1\<rparr>)"

definition pop_off :: "cpu \<Rightarrow> cpu res" where
  "pop_off c =
     (if sie c then Inl (Panic ''pop_off - interruptible'')
      else if noff c < 1 then Inl (Panic ''pop_off'')
      else let c = c\<lparr>noff := noff c - 1\<rparr>
           in Inr (if noff c = 0 \<and> intena c then c\<lparr>sie := True\<rparr> else c))"

text \<open>The states of a hart between kernel operations: while the nesting depth is positive,
  interrupts are off.\<close>

definition cpu_ok :: "cpu \<Rightarrow> bool" where
  "cpu_ok c \<longleftrightarrow> 0 \<le> noff c \<and> (0 < noff c \<longrightarrow> \<not> sie c)"

lemma push_off_ok: "cpu_ok c \<Longrightarrow> cpu_ok (push_off c)"
  by (auto simp: cpu_ok_def push_off_def Let_def)

lemma push_off_off [simp]: "\<not> sie (push_off c)"
  by (simp add: push_off_def Let_def)

lemma noff_push_off [simp]: "noff (push_off c) = noff c + 1"
  by (simp add: push_off_def Let_def)

lemma pop_off_ok:
  assumes "cpu_ok c" "0 < noff c"
  obtains c' where "pop_off c = Inr c'" "cpu_ok c'" "noff c' = noff c - 1" "cproc c' = cproc c"
proof -
  have "\<exists>c'. pop_off c = Inr c' \<and> cpu_ok c' \<and> noff c' = noff c - 1 \<and> cproc c' = cproc c"
    using assms by (auto simp: pop_off_def cpu_ok_def Let_def)
  then show thesis using that by blast
qed

text \<open>\<open>n\<close> nested \<^verbatim>\<open>push_off()\<close>s, or \<^verbatim>\<open>pop_off()\<close>s.\<close>

definition push_offs :: "nat \<Rightarrow> cpu \<Rightarrow> cpu" where
  "push_offs n = (push_off ^^ n)"

fun pop_offs :: "nat \<Rightarrow> cpu \<Rightarrow> cpu res" where
  "pop_offs 0 c = Inr c"
| "pop_offs (Suc n) c = ebind (pop_off c) (pop_offs n)"

lemma push_offs_nested:
  assumes "noff c = 0"
  shows "push_offs (Suc n) c = c\<lparr>sie := False, intena := sie c, noff := int n + 1\<rparr>"
  using assms
  by (induction n) (auto simp: push_offs_def push_off_def Let_def)

lemma pop_offs_nested:
  "\<not> sie c \<Longrightarrow> noff c = int n + 1 \<Longrightarrow>
     pop_offs (Suc n) c = Inr (c\<lparr>noff := 0, sie := intena c\<rparr>)"
proof (induction n arbitrary: c)
  case 0
  then show ?case by (auto simp: pop_off_def Let_def)
next
  case (Suc n)
  have "pop_off c = Inr (c\<lparr>noff := int n + 1\<rparr>)"
    using Suc.prems by (simp add: pop_off_def Let_def)
  moreover have "pop_offs (Suc n) (c\<lparr>noff := int n + 1\<rparr>)
      = Inr (c\<lparr>noff := int n + 1\<rparr>\<lparr>noff := 0, sie := intena c\<rparr>)"
    using Suc.IH [of "c\<lparr>noff := int n + 1\<rparr>"] Suc.prems by simp
  ultimately show ?case by simp
qed

section \<open>Spin locks\<close>

text \<open>\<open>sp_cpu\<close> is the \<^verbatim>\<open>cpu\<close> pointer as an index into \<^verbatim>\<open>cpus[]\<close>, \<open>None\<close> for the null pointer.\<close>

record spinlock =
  sp_locked :: bool
  sp_name :: string
  sp_cpu :: "nat option"

definition initlock :: "string \<Rightarrow> spinlock" where
  "initlock nm = \<lparr>sp_locked = False, sp_name = nm, sp_cpu = None\<rparr>"

definition holding :: "nat \<Rightarrow> spinlock \<Rightarrow> bool" where
  "holding me lk \<longleftrightarrow> sp_locked lk \<and> sp_cpu lk = Some me"

text \<open>\<^verbatim>\<open>acquire\<close> up to its loop: interrupts off, then the self-deadlock check.\<close>

definition acquire_enter :: "nat \<Rightarrow> spinlock \<Rightarrow> cpu \<Rightarrow> cpu res" where
  "acquire_enter me lk c =
     (let c = push_off c in
      if holding me lk then Inl (Panic ''acquire'') else Inr c)"

text \<open>\<^verbatim>\<open>__sync_lock_test_and_set(&lk->locked, 1)\<close>: the old value, and the lock afterwards.\<close>

definition test_and_set :: "spinlock \<Rightarrow> bool \<times> spinlock" where
  "test_and_set lk = (sp_locked lk, lk\<lparr>sp_locked := True\<rparr>)"

definition acquire_record :: "nat \<Rightarrow> spinlock \<Rightarrow> spinlock" where
  "acquire_record me lk = lk\<lparr>sp_cpu := Some me\<rparr>"

text \<open>\<^verbatim>\<open>release\<close> up to the atomic store: the ownership check, then \<^verbatim>\<open>lk->cpu = 0\<close>.\<close>

definition release_enter :: "nat \<Rightarrow> spinlock \<Rightarrow> spinlock res" where
  "release_enter me lk =
     (if \<not> holding me lk then Inl (Panic ''release'') else Inr (lk\<lparr>sp_cpu := None\<rparr>))"

definition lock_release :: "spinlock \<Rightarrow> spinlock" where
  "lock_release lk = lk\<lparr>sp_locked := False\<rparr>"

text \<open>
  The whole functions, for a caller that no other processor races with: a lock that is taken
  makes \<^verbatim>\<open>acquire\<close> spin.
\<close>

definition acquire :: "nat \<Rightarrow> spinlock \<Rightarrow> cpu \<Rightarrow> (spinlock \<times> cpu) res" where
  "acquire me lk c =
     ebind (acquire_enter me lk c) (\<lambda>c.
     let (old, lk) = test_and_set lk in
     if old then Inl NoFuel else Inr (acquire_record me lk, c))"

definition release :: "nat \<Rightarrow> spinlock \<Rightarrow> cpu \<Rightarrow> (spinlock \<times> cpu) res" where
  "release me lk c =
     ebind (release_enter me lk) (\<lambda>lk.
     let lk = lock_release lk in
     ebind (pop_off c) (\<lambda>c. Inr (lk, c)))"

section \<open>Processors that share one spin lock\<close>

text \<open>
  Where a processor is in \<^verbatim>\<open>acquire(); ...; release();\<close>: outside; in the swap loop; past the
  swap but before \<^verbatim>\<open>lk->cpu = mycpu()\<close>; in the critical section; between \<^verbatim>\<open>lk->cpu = 0\<close> and the
  atomic store; between the store and \<^verbatim>\<open>pop_off()\<close>. \<open>Dead\<close> is a processor that has panicked.
\<close>

datatype spin_pc = Outside | Spinning | Won | Critical | Clearing | Popping | Dead

record spin_sys =
  the_lock :: spinlock
  pc :: "nat \<Rightarrow> spin_pc"
  harts :: "nat \<Rightarrow> cpu"

definition spin_start :: "spin_sys \<Rightarrow> bool" where
  "spin_start s \<longleftrightarrow> (\<exists>nm. the_lock s = initlock nm) \<and> (\<forall>i. pc s i = Outside \<and> cpu_ok (harts s i))"

definition move :: "nat \<Rightarrow> spin_pc \<Rightarrow> spin_sys \<Rightarrow> spin_sys" where
  "move i p s = s\<lparr>pc := (pc s)(i := p)\<rparr>"

definition set_hart :: "nat \<Rightarrow> cpu \<Rightarrow> spin_sys \<Rightarrow> spin_sys" where
  "set_hart i c s = s\<lparr>harts := (harts s)(i := c)\<rparr>"

inductive spin_step :: "spin_sys \<Rightarrow> spin_sys \<Rightarrow> bool" where
  enter: "pc s i = Outside \<Longrightarrow> acquire_enter i (the_lock s) (harts s i) = Inr c \<Longrightarrow>
    spin_step s (move i Spinning (set_hart i c s))"
| enter_panic: "pc s i = Outside \<Longrightarrow> acquire_enter i (the_lock s) (harts s i) = Inl e \<Longrightarrow>
    spin_step s (move i Dead s)"
| spin: "pc s i = Spinning \<Longrightarrow> test_and_set (the_lock s) = (True, lk) \<Longrightarrow>
    spin_step s (s\<lparr>the_lock := lk\<rparr>)"
| win: "pc s i = Spinning \<Longrightarrow> test_and_set (the_lock s) = (False, lk) \<Longrightarrow>
    spin_step s (move i Won (s\<lparr>the_lock := lk\<rparr>))"
| note_owner: "pc s i = Won \<Longrightarrow>
    spin_step s (move i Critical (s\<lparr>the_lock := acquire_record i (the_lock s)\<rparr>))"
| leave: "pc s i = Critical \<Longrightarrow> release_enter i (the_lock s) = Inr lk \<Longrightarrow>
    spin_step s (move i Clearing (s\<lparr>the_lock := lk\<rparr>))"
| leave_panic: "pc s i = Critical \<Longrightarrow> release_enter i (the_lock s) = Inl e \<Longrightarrow>
    spin_step s (move i Dead s)"
| clear: "pc s i = Clearing \<Longrightarrow>
    spin_step s (move i Popping (s\<lparr>the_lock := lock_release (the_lock s)\<rparr>))"
| pop: "pc s i = Popping \<Longrightarrow> pop_off (harts s i) = Inr c \<Longrightarrow>
    spin_step s (move i Outside (set_hart i c s))"
| pop_panic: "pc s i = Popping \<Longrightarrow> pop_off (harts s i) = Inl e \<Longrightarrow>
    spin_step s (move i Dead s)"

definition owns :: "spin_pc \<Rightarrow> bool" where
  "owns p \<longleftrightarrow> p \<in> {Won, Critical, Clearing}"

text \<open>
  The lock word is set exactly while some processor is between the winning swap and the clearing
  store; there is at most one such processor; the owner field names the processor in the
  critical section; a processor inside \<^verbatim>\<open>acquire\<close> or \<^verbatim>\<open>release\<close> has interrupts off.
\<close>

definition spin_inv :: "spin_sys \<Rightarrow> bool" where
  "spin_inv s \<longleftrightarrow>
     (sp_locked (the_lock s) \<longleftrightarrow> (\<exists>i. owns (pc s i))) \<and>
     (\<forall>i j. owns (pc s i) \<longrightarrow> owns (pc s j) \<longrightarrow> i = j) \<and>
     (\<forall>i. sp_cpu (the_lock s) = Some i \<longleftrightarrow> pc s i = Critical) \<and>
     (\<forall>i. pc s i \<noteq> Dead) \<and>
     (\<forall>i. cpu_ok (harts s i) \<and> (pc s i \<noteq> Outside \<longrightarrow> 0 < noff (harts s i)))"

lemmas spin_defs = move_def set_hart_def holding_def test_and_set_def
  acquire_record_def lock_release_def

lemma owns_simps [simp]:
  "\<not> owns Outside" "\<not> owns Spinning" "owns Won" "owns Critical" "owns Clearing"
  "\<not> owns Popping" "\<not> owns Dead"
  by (simp_all add: owns_def)

text \<open>The four parts of the invariant are kept by a move that does not change who owns the lock.\<close>

lemma owns_upd_same: "owns p = owns (f i) \<Longrightarrow> owns ((f(i := p)) j) = owns (f j)"
  by simp

lemma spin_inv_start: "spin_start s \<Longrightarrow> spin_inv s"
  by (auto simp: spin_start_def spin_inv_def initlock_def owns_def)

lemma acquire_enter_ok:
  assumes "spin_inv s" "pc s i = Outside"
  shows "acquire_enter i (the_lock s) (harts s i) = Inr (push_off (harts s i))"
  using assms by (auto simp: acquire_enter_def spin_inv_def holding_def Let_def)

lemma release_enter_ok:
  assumes "spin_inv s" "pc s i = Critical"
  shows "release_enter i (the_lock s) = Inr (the_lock s\<lparr>sp_cpu := None\<rparr>)"
  using assms by (auto simp: release_enter_def spin_inv_def holding_def owns_def)

lemma pop_off_Popping_ok:
  assumes "spin_inv s" "pc s i = Popping"
  shows "\<exists>c. pop_off (harts s i) = Inr c \<and> cpu_ok c"
proof -
  from assms have "cpu_ok (harts s i)" "0 < noff (harts s i)" by (auto simp: spin_inv_def)
  then show ?thesis by (metis pop_off_ok)
qed

lemma spin_invI:
  assumes "\<And>i. owns (pc s i) \<Longrightarrow> sp_locked (the_lock s)"
    and "sp_locked (the_lock s) \<Longrightarrow> \<exists>i. owns (pc s i)"
    and "\<And>i j. owns (pc s i) \<Longrightarrow> owns (pc s j) \<Longrightarrow> i = j"
    and "\<And>i. sp_cpu (the_lock s) = Some i \<Longrightarrow> pc s i = Critical"
    and "\<And>i. pc s i = Critical \<Longrightarrow> sp_cpu (the_lock s) = Some i"
    and "\<And>i. pc s i \<noteq> Dead"
    and "\<And>i. cpu_ok (harts s i)"
    and "\<And>i. pc s i \<noteq> Outside \<Longrightarrow> 0 < noff (harts s i)"
  shows "spin_inv s"
  unfolding spin_inv_def using assms by blast

lemma spin_invD:
  assumes "spin_inv s"
  shows "owns (pc s i) \<Longrightarrow> sp_locked (the_lock s)"
    and "sp_locked (the_lock s) \<Longrightarrow> \<exists>i. owns (pc s i)"
    and "owns (pc s i) \<Longrightarrow> owns (pc s j) \<Longrightarrow> i = j"
    and "sp_cpu (the_lock s) = Some i \<longleftrightarrow> pc s i = Critical"
    and "pc s i \<noteq> Dead"
    and "cpu_ok (harts s i)"
    and "pc s i \<noteq> Outside \<Longrightarrow> 0 < noff (harts s i)"
  using assms unfolding spin_inv_def by blast+

lemma spin_step_inv:
  assumes "spin_step s t" "spin_inv s"
  shows "spin_inv t"
  using assms
proof (induction rule: spin_step.induct)
  case (enter s i c)
  then have c: "c = push_off (harts s i)" by (simp add: acquire_enter_ok)
  note inv = spin_invD [OF enter.prems]
  have ok: "0 < noff c" "cpu_ok c"
    using c inv(6) [of i] push_off_ok by (auto simp: cpu_ok_def)
  show ?case
  proof (rule spin_invI, goal_cases)
    case 2
    with inv(2) enter(1) show ?case unfolding spin_defs by (simp, metis owns_simps(1))
  qed (use inv ok enter(1) in \<open>auto simp: spin_defs split: if_splits\<close>)
next
  case (enter_panic s i e)
  then show ?case by (simp add: acquire_enter_ok)
next
  case (spin s i lk)
  then show ?case by (auto simp: spin_inv_def spin_defs)
next
  case (win s i lk)
  note inv = spin_invD [OF win.prems]
  show ?case
    by (rule spin_invI) (use inv win in \<open>auto simp: spin_defs split: if_splits\<close>)
next
  case (note_owner s i)
  note inv = spin_invD [OF note_owner.prems]
  have only: "owns (pc s j) \<Longrightarrow> j = i" for j using inv(3) note_owner(1) by simp
  then have "pc s j \<noteq> Critical" for j
    using note_owner(1) by (metis owns_simps(4) spin_pc.distinct(23))
  moreover have "sp_locked (the_lock s)" using inv(1) [of i] note_owner(1) by simp
  ultimately show ?case using only
    by (intro spin_invI) (use inv note_owner in \<open>auto simp: spin_defs split: if_splits\<close>)
next
  case (leave s i lk)
  then have lk: "lk = the_lock s\<lparr>sp_cpu := None\<rparr>" by (simp add: release_enter_ok)
  note inv = spin_invD [OF leave.prems]
  have only: "owns (pc s j) \<Longrightarrow> j = i" for j using inv(3) leave(1) by simp
  then have "pc s j = Critical \<Longrightarrow> j = i" for j by simp
  moreover have "sp_locked (the_lock s)" using inv(1) [of i] leave(1) by simp
  ultimately show ?case using only lk
    by (intro spin_invI) (use inv leave in \<open>auto simp: spin_defs split: if_splits\<close>)
next
  case (leave_panic s i e)
  then show ?case by (simp add: release_enter_ok)
next
  case (clear s i)
  note inv = spin_invD [OF clear.prems]
  have only: "owns (pc s j) \<Longrightarrow> j = i" for j using inv(3) clear(1) by simp
  then have "pc s j \<noteq> Critical" for j
    using clear(1) by (metis owns_simps(4) spin_pc.distinct(31))
  with only show ?case
    by (intro spin_invI) (use inv clear in \<open>auto simp: spin_defs split: if_splits\<close>)
next
  case (pop s i c)
  then have ok: "cpu_ok c" using pop_off_Popping_ok [of s i] by auto
  note inv = spin_invD [OF pop.prems]
  show ?case
  proof (rule spin_invI, goal_cases)
    case 2
    with inv(2) pop(1) show ?case unfolding spin_defs by (simp, metis owns_simps(6))
  qed (use inv ok pop(1) in \<open>auto simp: spin_defs split: if_splits\<close>)
next
  case (pop_panic s i e)
  then show ?case using pop_off_Popping_ok [of s i] by auto
qed

interpretation spin: invariant_system spin_start spin_step spin_inv
  by unfold_locales (auto intro: spin_inv_start spin_step_inv)

text \<open>
  Claim C5 (\<^verbatim>\<open>spinlock.c\<close>). In every interleaving of any number of processors that acquire and
  release one spin lock, at most one is in its critical section, the owner field names it, its
  interrupts are off, and no \<^verbatim>\<open>acquire\<close>, \<^verbatim>\<open>release\<close> or \<^verbatim>\<open>pop_off\<close> ever panics.
\<close>

theorem spinlock_mutual_exclusion:
  assumes "reach spin_start spin_step s"
  shows "(pc s i = Critical \<longrightarrow> pc s j = Critical \<longrightarrow> i = j)
     \<and> (pc s i = Critical \<longleftrightarrow> sp_cpu (the_lock s) = Some i)
     \<and> (pc s i = Critical \<longrightarrow> holding i (the_lock s) \<and> \<not> sie (harts s i))
     \<and> pc s i \<noteq> Dead"
proof -
  have inv: "spin_inv s" using assms by (rule spin.reach_inv)
  note inv = spin_invD [OF this]
  have "pc s i = Critical \<Longrightarrow> holding i (the_lock s) \<and> \<not> sie (harts s i)"
    using inv(1,4,6,7) [of i] by (auto simp: holding_def cpu_ok_def)
  moreover have "pc s i = Critical \<Longrightarrow> pc s j = Critical \<Longrightarrow> i = j"
    using inv(3) [of i j] by simp
  ultimately show ?thesis using inv(4,5) [of i] by blast
qed

definition hart0 :: cpu where
  "hart0 = \<lparr>cproc = None, noff = 0, intena = False, sie = True\<rparr>"

definition spin_sys0 :: spin_sys where
  "spin_sys0 = \<lparr>the_lock = initlock ''kmem'', pc = (\<lambda>_. Outside), harts = (\<lambda>_. hart0)\<rparr>"

definition spin_sys3 :: spin_sys where
  "spin_sys3 =
     (let s1 = move 1 Spinning (set_hart 1 (push_off hart0) spin_sys0);
          s2 = move 1 Won (s1\<lparr>the_lock := (initlock ''kmem'')\<lparr>sp_locked := True\<rparr>\<rparr>)
      in move 1 Critical (s2\<lparr>the_lock := acquire_record 1 (the_lock s2)\<rparr>))"

lemma spin_sys3_reach: "reach spin_start spin_step spin_sys3"
proof -
  let ?s1 = "move 1 Spinning (set_hart 1 (push_off hart0) spin_sys0)"
  let ?s2 = "move 1 Won (?s1\<lparr>the_lock := (initlock ''kmem'')\<lparr>sp_locked := True\<rparr>\<rparr>)"
  have "reach spin_start spin_step spin_sys0"
    by (rule reach_start) (auto simp: spin_start_def spin_sys0_def cpu_ok_def hart0_def)
  moreover have "spin_step spin_sys0 ?s1"
    by (rule spin_step.enter)
       (simp_all add: spin_sys0_def acquire_enter_def holding_def initlock_def Let_def)
  ultimately have "reach spin_start spin_step ?s1" by (rule reach_step)
  moreover have "spin_step ?s1 ?s2"
    by (rule spin_step.win)
       (simp_all add: spin_sys0_def move_def set_hart_def test_and_set_def initlock_def)
  ultimately have "reach spin_start spin_step ?s2" by (rule reach_step)
  moreover have "spin_step ?s2 spin_sys3"
    unfolding spin_sys3_def Let_def by (rule spin_step.note_owner) (simp add: move_def)
  ultimately show ?thesis by (rule reach_step)
qed

theorem spinlock_mutual_exclusion_witness:
  "reach spin_start spin_step spin_sys3 \<and> pc spin_sys3 1 = Critical
     \<and> sp_cpu (the_lock spin_sys3) = Some 1 \<and> pc spin_sys3 0 \<noteq> Critical"
proof -
  have "pc spin_sys3 1 = Critical"
    by (simp add: spin_sys3_def Let_def move_def)
  then show ?thesis
    using spinlock_mutual_exclusion [OF spin_sys3_reach, of 1 0] spin_sys3_reach by auto
qed

section \<open>Sleep locks\<close>

text \<open>
  \<^verbatim>\<open>struct sleeplock\<close>. Its fields are read and written between \<^verbatim>\<open>acquire(&lk->lk)\<close> and
  \<^verbatim>\<open>release(&lk->lk)\<close>, so that by mutual exclusion each of the three functions is one atomic
  step on them. \<^verbatim>\<open>acquiresleep\<close> of a lock that is held calls \<^verbatim>\<open>sleep\<close>.
\<close>

record sleeplock =
  sl_locked :: bool
  sl_pid :: int

definition initsleeplock :: sleeplock where
  "initsleeplock = \<lparr>sl_locked = False, sl_pid = 0\<rparr>"

definition acquiresleep :: "int \<Rightarrow> sleeplock \<Rightarrow> sleeplock res" where
  "acquiresleep pid lk =
     (if sl_locked lk then Inl (Asleep ''sleeplock'')
      else Inr (lk\<lparr>sl_locked := True, sl_pid := pid\<rparr>))"

definition releasesleep :: "sleeplock \<Rightarrow> sleeplock" where
  "releasesleep lk = lk\<lparr>sl_locked := False, sl_pid := 0\<rparr>"

definition holdingsleep :: "int \<Rightarrow> sleeplock \<Rightarrow> bool" where
  "holdingsleep pid lk \<longleftrightarrow> sl_locked lk \<and> sl_pid lk = pid"

lemma acquiresleep_free [simp]:
  "\<not> sl_locked lk \<Longrightarrow> acquiresleep pid lk = Inr \<lparr>sl_locked = True, sl_pid = pid\<rparr>"
  by (simp add: acquiresleep_def)

lemma acquiresleep_Inr [res_simps]:
  "acquiresleep pid lk = Inr lk' \<longleftrightarrow>
     \<not> sl_locked lk \<and> lk' = \<lparr>sl_locked = True, sl_pid = pid\<rparr>"
  by (auto simp: acquiresleep_def)

lemma holdingsleep_taken [simp]: "holdingsleep pid \<lparr>sl_locked = True, sl_pid = pid\<rparr>"
  by (simp add: holdingsleep_def)

lemma releasesleep_eq [simp]: "releasesleep lk = initsleeplock"
  by (simp add: releasesleep_def initsleeplock_def)

lemma initsleeplock_free [simp]: "\<not> sl_locked initsleeplock"
  by (simp add: initsleeplock_def)

end
