(* ===== verification/Buffer_Cache.thy ===== *)
theory Buffer_Cache
  imports Kernel_Locks
begin

text \<open>
  The buffer cache (\<^verbatim>\<open>kernel/bio.c\<close>, \<^verbatim>\<open>kernel/buf.h\<close>).

  The \<^verbatim>\<open>NBUF\<close> buffers are linked through \<^verbatim>\<open>prev\<close> and \<^verbatim>\<open>next\<close> into a ring through \<^verbatim>\<open>bcache.head\<close>,
  most recently used first. The ring is modelled as the code has it, one function per pointer
  field, and the pointer assignments of \<open>binit\<close> and \<open>brelse\<close> are proved to be operations on a
  list. The disk is a function from block numbers to blocks; \<open>writes\<close> is the history of the disk
  writes, oldest first, a ghost that no operation reads and that the crash theorem of the log
  quantifies over.

  Each critical section under \<^verbatim>\<open>bcache.lock\<close> is one step. \<open>pid\<close> is \<^verbatim>\<open>myproc()->pid\<close>.
\<close>

section \<open>Data\<close>

definition BSIZE :: nat where [layout_simps]: "BSIZE = 1024"
definition NBUF :: nat where [layout_simps]: "NBUF = 30"
definition ROOTDEV :: u32 where [layout_simps]: "ROOTDEV = 1"

type_synonym block = bytes

text \<open>\<^verbatim>\<open>struct buf\<close>; its pointers are the fields \<open>bnext\<close> and \<open>bprev\<close> of the cache.\<close>

record buf =
  b_valid :: bool
  b_disk :: bool
  b_dev :: u32
  b_blockno :: u32
  b_lock :: sleeplock
  b_refcnt :: nat
  b_data :: block

text \<open>A \<^verbatim>\<open>struct buf *\<close>: \<^verbatim>\<open>&bcache.head\<close> or \<^verbatim>\<open>&bcache.buf[i]\<close>.\<close>

datatype bufp = Head | Buf nat

record bio =
  bufs :: "nat \<Rightarrow> buf"
  bnext :: "bufp \<Rightarrow> bufp"
  bprev :: "bufp \<Rightarrow> bufp"
  disk :: "u32 \<Rightarrow> block"
  writes :: "(u32 \<times> block) list"

definition upd_buf :: "nat \<Rightarrow> (buf \<Rightarrow> buf) \<Rightarrow> 'a bio_scheme \<Rightarrow> 'a bio_scheme" where
  "upd_buf i f s = s\<lparr>bufs := (bufs s)(i := f (bufs s i))\<rparr>"

section \<open>Operations\<close>

text \<open>The pointer assignments that put \<open>b\<close> at the front of the ring.\<close>

definition link_front :: "nat \<Rightarrow> 'a bio_scheme \<Rightarrow> 'a bio_scheme" where
  "link_front b s =
     (let s = s\<lparr>bnext := (bnext s)(Buf b := bnext s Head)\<rparr>;
          s = s\<lparr>bprev := (bprev s)(Buf b := Head)\<rparr>;
          s = s\<lparr>bprev := (bprev s)(bnext s Head := Buf b)\<rparr>
      in s\<lparr>bnext := (bnext s)(Head := Buf b)\<rparr>)"

definition unlink_buf :: "nat \<Rightarrow> 'a bio_scheme \<Rightarrow> 'a bio_scheme" where
  "unlink_buf b s =
     (let s = s\<lparr>bprev := (bprev s)(bnext s (Buf b) := bprev s (Buf b))\<rparr>
      in s\<lparr>bnext := (bnext s)(bprev s (Buf b) := bnext s (Buf b))\<rparr>)"

definition binit :: "'a bio_scheme \<Rightarrow> 'a bio_scheme" where
  "binit s =
     fold (\<lambda>b s. link_front b (upd_buf b (\<lambda>x. x\<lparr>b_lock := initsleeplock\<rparr>) s)) [0..<NBUF]
       (s\<lparr>bprev := (bprev s)(Head := Head), bnext := (bnext s)(Head := Head)\<rparr>)"

text \<open>\<^verbatim>\<open>for(b = p; b != &bcache.head; b = b->next) if(...)\<close>, with fuel.\<close>

fun walk_ring :: "nat \<Rightarrow> (nat \<Rightarrow> bool) \<Rightarrow> (bufp \<Rightarrow> bufp) \<Rightarrow> bufp \<Rightarrow> nat option res" where
  "walk_ring 0 P nx p = Inl NoFuel"
| "walk_ring (Suc k) P nx p =
     (case p of
        Head \<Rightarrow> Inr None
      | Buf i \<Rightarrow> (if P i then Inr (Some i) else walk_ring k P nx (nx p)))"

text \<open>Take the sleep lock of buffer \<open>i\<close>.\<close>

definition lock_buf :: "int \<Rightarrow> nat \<Rightarrow> 'a bio_scheme \<Rightarrow> (nat \<times> 'a bio_scheme) res" where
  "lock_buf pid i s =
     ebind (acquiresleep pid (b_lock (bufs s i))) (\<lambda>lk.
     Inr (i, upd_buf i (\<lambda>b. b\<lparr>b_lock := lk\<rparr>) s))"

definition bget :: "int \<Rightarrow> u32 \<Rightarrow> u32 \<Rightarrow> 'a bio_scheme \<Rightarrow> (nat \<times> 'a bio_scheme) res" where
  "bget pid dev blockno s =
     ebind (walk_ring (Suc NBUF)
              (\<lambda>i. b_dev (bufs s i) = dev \<and> b_blockno (bufs s i) = blockno)
              (bnext s) (bnext s Head)) (\<lambda>r.
     case r of
       Some i \<Rightarrow> lock_buf pid i (upd_buf i (\<lambda>b. b\<lparr>b_refcnt := b_refcnt b + 1\<rparr>) s)
     | None \<Rightarrow>
         ebind (walk_ring (Suc NBUF) (\<lambda>i. b_refcnt (bufs s i) = 0)
                  (bprev s) (bprev s Head)) (\<lambda>r.
         case r of
           Some i \<Rightarrow>
             lock_buf pid i
               (upd_buf i (\<lambda>b. b\<lparr>b_dev := dev, b_blockno := blockno, b_valid := False,
                                 b_refcnt := 1\<rparr>) s)
         | None \<Rightarrow> Inl (Panic ''bget: no buffers'')))"

text \<open>
  What \<^verbatim>\<open>virtio_disk_rw(b, write)\<close> has done when it returns: the block transferred between
  \<^verbatim>\<open>b->data\<close> and the disk, and \<^verbatim>\<open>b->disk\<close> back to 0.
\<close>

definition virtio_disk_rw :: "nat \<Rightarrow> bool \<Rightarrow> 'a bio_scheme \<Rightarrow> 'a bio_scheme" where
  "virtio_disk_rw i wr s =
     (let b = bufs s i;
          s = (if wr
               then s\<lparr>disk := (disk s)(b_blockno b := b_data b),
                      writes := writes s @ [(b_blockno b, b_data b)]\<rparr>
               else upd_buf i (\<lambda>b. b\<lparr>b_data := disk s (b_blockno b)\<rparr>) s)
      in upd_buf i (\<lambda>b. b\<lparr>b_disk := False\<rparr>) s)"

definition bread :: "int \<Rightarrow> u32 \<Rightarrow> u32 \<Rightarrow> 'a bio_scheme \<Rightarrow> (nat \<times> 'a bio_scheme) res" where
  "bread pid dev blockno s =
     ebind (bget pid dev blockno s) (\<lambda>(i, s).
     if \<not> b_valid (bufs s i)
     then Inr (i, upd_buf i (\<lambda>b. b\<lparr>b_valid := True\<rparr>) (virtio_disk_rw i False s))
     else Inr (i, s))"

definition bwrite :: "int \<Rightarrow> nat \<Rightarrow> 'a bio_scheme \<Rightarrow> 'a bio_scheme res" where
  "bwrite pid i s =
     (if \<not> holdingsleep pid (b_lock (bufs s i)) then Inl (Panic ''bwrite'')
      else Inr (virtio_disk_rw i True s))"

text \<open>\<^verbatim>\<open>b->refcnt--\<close> on an unsigned counter.\<close>

definition dec_ref :: "nat \<Rightarrow> nat" where
  "dec_ref n = (if n = 0 then 2 ^ 32 - 1 else n - 1)"

definition brelse :: "int \<Rightarrow> nat \<Rightarrow> 'a bio_scheme \<Rightarrow> 'a bio_scheme res" where
  "brelse pid i s =
     (if \<not> holdingsleep pid (b_lock (bufs s i)) then Inl (Panic ''brelse'')
      else
        let s = upd_buf i (\<lambda>b. b\<lparr>b_lock := releasesleep (b_lock b)\<rparr>) s;
            s = upd_buf i (\<lambda>b. b\<lparr>b_refcnt := dec_ref (b_refcnt b)\<rparr>) s
        in Inr (if b_refcnt (bufs s i) = 0 then link_front i (unlink_buf i s) else s))"

definition bpin :: "nat \<Rightarrow> 'a bio_scheme \<Rightarrow> 'a bio_scheme" where
  "bpin i s = upd_buf i (\<lambda>b. b\<lparr>b_refcnt := b_refcnt b + 1\<rparr>) s"

definition bunpin :: "nat \<Rightarrow> 'a bio_scheme \<Rightarrow> 'a bio_scheme" where
  "bunpin i s = upd_buf i (\<lambda>b. b\<lparr>b_refcnt := dec_ref (b_refcnt b)\<rparr>) s"

text \<open>A client's assignment to \<^verbatim>\<open>b->data\<close>.\<close>

definition set_data :: "nat \<Rightarrow> block \<Rightarrow> 'a bio_scheme \<Rightarrow> 'a bio_scheme" where
  "set_data i d s = upd_buf i (\<lambda>b. b\<lparr>b_data := d\<rparr>) s"

lemma upd_buf_sel [simp]:
  "bufs (upd_buf i f s) j = (if j = i then f (bufs s i) else bufs s j)"
  "bnext (upd_buf i f s) = bnext s" "bprev (upd_buf i f s) = bprev s"
  "disk (upd_buf i f s) = disk s" "writes (upd_buf i f s) = writes s"
  "bio.more (upd_buf i f s) = bio.more s"
  by (simp_all add: upd_buf_def)

lemma link_sel [simp]:
  "bufs (link_front i s) = bufs s" "disk (link_front i s) = disk s"
  "writes (link_front i s) = writes s" "bio.more (link_front i s) = bio.more s"
  "bufs (unlink_buf i s) = bufs s" "disk (unlink_buf i s) = disk s"
  "writes (unlink_buf i s) = writes s" "bio.more (unlink_buf i s) = bio.more s"
  by (simp_all add: link_front_def unlink_buf_def Let_def)

section \<open>The ring is a list\<close>

text \<open>
  \<open>linked nx pv p xs q\<close>: following \<open>nx\<close> from \<open>p\<close> goes through \<open>xs\<close> to \<open>q\<close>, and \<open>pv\<close> goes back.
\<close>

fun linked :: "(bufp \<Rightarrow> bufp) \<Rightarrow> (bufp \<Rightarrow> bufp) \<Rightarrow> bufp \<Rightarrow> bufp list \<Rightarrow> bufp \<Rightarrow> bool" where
  "linked nx pv p [] q \<longleftrightarrow> nx p = q \<and> pv q = p"
| "linked nx pv p (x # xs) q \<longleftrightarrow> nx p = x \<and> pv x = p \<and> linked nx pv x xs q"

lemma linked_append:
  "linked nx pv p (xs @ y # ys) q \<longleftrightarrow> linked nx pv p xs y \<and> linked nx pv y ys q"
  by (induction xs arbitrary: p) auto

lemma linked_upd_next:
  "r \<noteq> p \<Longrightarrow> r \<notin> set xs \<Longrightarrow> linked (nx(r := v)) pv p xs q = linked nx pv p xs q"
  by (induction xs arbitrary: p) auto

lemma linked_upd_prev:
  "r \<noteq> q \<Longrightarrow> r \<notin> set xs \<Longrightarrow> linked nx (pv(r := v)) p xs q = linked nx pv p xs q"
  by (induction xs arbitrary: p) auto

lemma linked_next: "linked nx pv p xs q \<Longrightarrow> nx p = hd (xs @ [q])"
  by (cases xs) auto

lemma linked_prev: "linked nx pv p xs q \<Longrightarrow> pv q = last (p # xs)"
  by (induction xs arbitrary: p) auto

lemma linked_rev: "linked nx pv p xs q \<longleftrightarrow> linked pv nx q (rev xs) p"
  by (induction xs arbitrary: p) (auto simp: linked_append)

text \<open>Redirecting the end of a path from \<open>q\<close> to \<open>r\<close>.\<close>

lemma linked_retarget:
  assumes "linked nx pv p xs q" "distinct (p # xs)" "r \<notin> set xs"
  shows "linked (nx(last (p # xs) := r)) (pv(r := last (p # xs))) p xs r"
  using assms
proof (induction xs arbitrary: p)
  case (Cons x xs)
  have l: "last (p # x # xs) = last (x # xs)" by simp
  have "linked nx pv x xs q" "distinct (x # xs)" "r \<notin> set xs" using Cons.prems by auto
  then have IH: "linked (nx(last (x # xs) := r)) (pv(r := last (x # xs))) x xs r" by (rule Cons.IH)
  have "last (x # xs) \<in> set (x # xs)" by (rule last_in_set) simp
  then have "last (x # xs) \<noteq> p" "r \<noteq> x" using Cons.prems(2,3) by auto
  then show ?case unfolding l linked.simps using Cons.prems(1) IH by simp
qed simp

lemma linked_unlink:
  assumes "linked nx pv p (ys @ b # zs) q" "distinct (p # ys @ b # zs)" "q \<notin> set (ys @ b # zs)"
  shows "linked (nx(pv b := nx b)) (pv(nx b := pv b)) p (ys @ zs) q"
proof -
  have ys: "linked nx pv p ys b" and zs: "linked nx pv b zs q"
    using assms(1) by (auto simp: linked_append)
  have pvb: "pv b = last (p # ys)" using linked_prev [OF ys] .
  have last_in: "last (p # ys) \<in> set (p # ys)" by (rule last_in_set) simp
  show ?thesis
  proof (cases zs)
    case Nil
    then have "nx b = q" using zs by simp
    moreover have "linked (nx(last (p # ys) := q)) (pv(q := last (p # ys))) p ys q"
      using ys by (rule linked_retarget) (use assms in auto)
    ultimately show ?thesis unfolding pvb using Nil by simp
  next
    case (Cons z zs')
    then have nxb: "nx b = z" using zs by simp
    have 1: "linked (nx(last (p # ys) := z)) (pv(z := last (p # ys))) p ys z"
      using ys by (rule linked_retarget) (use assms Cons in auto)
    have neq: "last (p # ys) \<noteq> z" "last (p # ys) \<notin> set zs'" "z \<noteq> q" "z \<notin> set zs'"
      using last_in assms(2,3) Cons by auto
    have "linked nx pv z zs' q" using zs Cons by simp
    then have 2: "linked (nx(last (p # ys) := z)) (pv(z := last (p # ys))) z zs' q"
      by (simp only: linked_upd_next [OF neq(1,2)] linked_upd_prev [OF neq(3,4)])
    show ?thesis unfolding pvb nxb Cons linked_append using 1 2 by blast
  qed
qed

lemma linked_link_front:
  assumes "linked nx pv p ws q" "b \<noteq> p" "b \<noteq> q" "b \<notin> set ws" "distinct (p # ws)" "q \<notin> set ws"
  shows "linked ((nx(b := nx p))(p := b)) ((pv(b := p))(nx p := b)) p (b # ws) q"
proof (cases ws)
  case Nil
  then have "nx p = q" using assms(1) by simp
  with Nil assms(2,3) show ?thesis by simp
next
  case (Cons w ws')
  then have l: "linked nx pv w ws' q" and w: "nx p = w" using assms(1) by auto
  have neq: "p \<noteq> w" "p \<notin> set ws'" "b \<noteq> w" "b \<notin> set ws'" "w \<noteq> q" "w \<notin> set ws'"
    using assms Cons by auto
  have "linked ((nx(b := w))(p := b)) ((pv(b := p))(w := b)) w ws' q"
    using l by (simp only: linked_upd_next [OF neq(1,2)] linked_upd_next [OF neq(3,4)]
        linked_upd_prev [OF neq(5,6)] linked_upd_prev [OF assms(3) neq(4)])
  then show ?thesis unfolding w Cons linked.simps using neq assms(2) by simp
qed

definition lru_list :: "'a bio_scheme \<Rightarrow> nat list \<Rightarrow> bool" where
  "lru_list s xs \<longleftrightarrow>
     linked (bnext s) (bprev s) Head (map Buf xs) Head \<and> distinct xs \<and> set xs = {..<NBUF}"

lemma lru_list_upd_buf [simp]: "lru_list (upd_buf i f s) xs = lru_list s xs"
  by (simp add: lru_list_def)

lemma unlink_buf_ptrs:
  "bnext (unlink_buf b s) = (bnext s)(bprev s (Buf b) := bnext s (Buf b))"
  "bprev (unlink_buf b s) = (bprev s)(bnext s (Buf b) := bprev s (Buf b))"
  by (simp_all add: unlink_buf_def Let_def)

lemma link_front_ptrs:
  "bnext (link_front b s) = ((bnext s)(Buf b := bnext s Head))(Head := Buf b)"
  "bprev (link_front b s) = ((bprev s)(Buf b := Head))(bnext s Head := Buf b)"
  by (simp_all add: link_front_def Let_def)

lemma distinct_ring: "distinct (Head # map Buf xs) \<longleftrightarrow> distinct xs"
  by (auto simp: distinct_map inj_on_def)

lemma linked_unlink_buf:
  assumes "linked (bnext s) (bprev s) Head (map Buf xs) Head" "distinct xs" "b \<in> set xs"
  shows "linked (bnext (unlink_buf b s)) (bprev (unlink_buf b s)) Head (map Buf (remove1 b xs)) Head"
proof -
  obtain ys zs where xs: "xs = ys @ b # zs" "b \<notin> set ys"
    using assms(3) by (metis split_list_first)
  have rm: "map Buf (remove1 b xs) = map Buf ys @ map Buf zs"
    using xs by (simp add: remove1_append)
  have pre: "linked (bnext s) (bprev s) Head (map Buf ys @ Buf b # map Buf zs) Head"
    using assms(1) xs by simp
  have "distinct (Head # map Buf xs)" using assms(2) by (simp only: distinct_ring)
  then have d: "distinct (Head # map Buf ys @ Buf b # map Buf zs)" using xs by simp
  then have "Head \<notin> set (map Buf ys @ Buf b # map Buf zs)" by auto
  with pre d show ?thesis unfolding rm unlink_buf_ptrs by (rule linked_unlink)
qed

text \<open>\<^verbatim>\<open>brelse\<close> moves the buffer to the front of the list.\<close>

lemma lru_list_relink:
  assumes "lru_list s xs" "b < NBUF"
  shows "lru_list (link_front b (unlink_buf b s)) (b # remove1 b xs)"
proof -
  let ?u = "unlink_buf b s"
  have b: "b \<in> set xs" and d: "distinct xs" using assms by (auto simp: lru_list_def)
  have l: "linked (bnext ?u) (bprev ?u) Head (map Buf (remove1 b xs)) Head"
    using assms b d by (auto simp: lru_list_def intro: linked_unlink_buf)
  have "distinct (Head # map Buf (remove1 b xs))" "Buf b \<notin> set (map Buf (remove1 b xs))"
    using d by (auto simp only: distinct_ring) (auto simp: set_remove1_eq)
  then have "linked (bnext (link_front b ?u)) (bprev (link_front b ?u)) Head
          (Buf b # map Buf (remove1 b xs)) Head"
    unfolding link_front_ptrs by (intro linked_link_front [OF l]) auto
  moreover have "set (b # remove1 b xs) = {..<NBUF}"
    using assms b d by (auto simp: lru_list_def set_remove1_eq)
  ultimately show ?thesis using d by (auto simp: lru_list_def set_remove1_eq)
qed

lemma walk_ring_linked:
  assumes "linked nx pv p (map Buf xs) Head" "length xs < k"
  shows "walk_ring k P nx (nx p) = Inr (find P xs)"
  using assms
proof (induction xs arbitrary: p k)
  case Nil
  then show ?case by (cases k) auto
next
  case (Cons x xs)
  then obtain k' where "k = Suc k'" "length xs < k'" by (cases k) auto
  with Cons show ?case by auto
qed

lemma length_lru_list: "lru_list s xs \<Longrightarrow> length xs = NBUF"
  by (metis card_lessThan distinct_card lru_list_def)

lemma walk_ring_next:
  assumes "lru_list s xs"
  shows "walk_ring (Suc NBUF) P (bnext s) (bnext s Head) = Inr (find P xs)"
proof (rule walk_ring_linked)
  show "linked (bnext s) (bprev s) Head (map Buf xs) Head" using assms by (simp add: lru_list_def)
  show "length xs < Suc NBUF" using length_lru_list [OF assms] by simp
qed

lemma walk_ring_prev:
  assumes "lru_list s xs"
  shows "walk_ring (Suc NBUF) P (bprev s) (bprev s Head) = Inr (find P (rev xs))"
proof (rule walk_ring_linked)
  have "linked (bprev s) (bnext s) Head (rev (map Buf xs)) Head"
    using assms unfolding lru_list_def by (simp only: linked_rev [of "bnext s"])
  then show "linked (bprev s) (bnext s) Head (map Buf (rev xs)) Head" by (simp add: rev_map)
  show "length (rev xs) < Suc NBUF" using length_lru_list [OF assms] by simp
qed

end
