(* ===== verification/Cache_Contract.thy ===== *)
theory Cache_Contract
  imports Buffer_Cache
begin

text \<open>
  What the buffer cache of \<^verbatim>\<open>kernel/bio.c\<close> promises to the log and the file system.

  \<open>cabs\<close> is the abstract cache: contents, references and locks per block, the disk and its write
  history. \<open>cabs_of\<close> maps a state of the code's data structures to it, and each operation of the
  code is proved to implement the abstract operation of its name. The locale \<open>block_cache\<close> states
  these laws as an interface, its lemmas give the effect of the block copies that the log is made
  of, and it is interpreted on the operations of \<^verbatim>\<open>bio.c\<close>.
\<close>

section \<open>What the cache promises\<close>

text \<open>
  The state of the cache as its clients see it: for each block of the root device, the current
  contents (\<open>cview\<close>), the number of references (\<open>refs\<close>) and whether its buffer is locked
  (\<open>held\<close>).
\<close>

definition is_for :: "'a bio_scheme \<Rightarrow> u32 \<Rightarrow> nat \<Rightarrow> bool" where
  "is_for s b i \<longleftrightarrow> b_dev (bufs s i) = ROOTDEV \<and> b_blockno (bufs s i) = b"

definition cached :: "'a bio_scheme \<Rightarrow> u32 \<Rightarrow> nat option" where
  "cached s b = scan (is_for s b) 0 NBUF"

definition cview :: "'a bio_scheme \<Rightarrow> u32 \<Rightarrow> block" where
  "cview s b = (case cached s b of
       Some i \<Rightarrow> if b_valid (bufs s i) then b_data (bufs s i) else disk s b
     | None \<Rightarrow> disk s b)"

definition refs :: "'a bio_scheme \<Rightarrow> u32 \<Rightarrow> nat" where
  "refs s b = (case cached s b of Some i \<Rightarrow> b_refcnt (bufs s i) | None \<Rightarrow> 0)"

definition held :: "'a bio_scheme \<Rightarrow> u32 \<Rightarrow> bool" where
  "held s b = (case cached s b of Some i \<Rightarrow> sl_locked (b_lock (bufs s i)) | None \<Rightarrow> False)"

text \<open>
  The invariant: the ring is intact; no block has two buffers; a buffer in use belongs to the
  root device; a buffer that may be recycled is unlocked and holds nothing that is not on the
  disk.
\<close>

definition cache_ok :: "'a bio_scheme \<Rightarrow> bool" where
  "cache_ok s \<longleftrightarrow>
     (\<exists>xs. lru_list s xs) \<and>
     (\<forall>b i j. i < NBUF \<longrightarrow> j < NBUF \<longrightarrow> is_for s b i \<longrightarrow> is_for s b j \<longrightarrow> i = j) \<and>
     (\<forall>i < NBUF. 0 < b_refcnt (bufs s i) \<longrightarrow> b_dev (bufs s i) = ROOTDEV) \<and>
     (\<forall>i < NBUF. b_refcnt (bufs s i) = 0 \<longrightarrow> \<not> sl_locked (b_lock (bufs s i)) \<and>
        (b_valid (bufs s i) \<longrightarrow> b_dev (bufs s i) = ROOTDEV \<longrightarrow>
           b_data (bufs s i) = disk s (b_blockno (bufs s i))))"

lemma cache_okI:
  assumes "lru_list s xs"
    and "\<And>b i j. i < NBUF \<Longrightarrow> j < NBUF \<Longrightarrow> is_for s b i \<Longrightarrow> is_for s b j \<Longrightarrow> i = j"
    and "\<And>i. i < NBUF \<Longrightarrow> 0 < b_refcnt (bufs s i) \<Longrightarrow> b_dev (bufs s i) = ROOTDEV"
    and "\<And>i. i < NBUF \<Longrightarrow> b_refcnt (bufs s i) = 0 \<Longrightarrow> \<not> sl_locked (b_lock (bufs s i))"
    and "\<And>i. i < NBUF \<Longrightarrow> b_refcnt (bufs s i) = 0 \<Longrightarrow> b_valid (bufs s i) \<Longrightarrow>
           b_dev (bufs s i) = ROOTDEV \<Longrightarrow> b_data (bufs s i) = disk s (b_blockno (bufs s i))"
  shows "cache_ok s"
  unfolding cache_ok_def using assms by blast

lemma cache_okD:
  assumes "cache_ok s"
  shows "\<exists>xs. lru_list s xs"
    and "i < NBUF \<Longrightarrow> j < NBUF \<Longrightarrow> is_for s b i \<Longrightarrow> is_for s b j \<Longrightarrow> i = j"
    and "i < NBUF \<Longrightarrow> 0 < b_refcnt (bufs s i) \<Longrightarrow> b_dev (bufs s i) = ROOTDEV"
    and "i < NBUF \<Longrightarrow> b_refcnt (bufs s i) = 0 \<Longrightarrow> \<not> sl_locked (b_lock (bufs s i))"
    and "i < NBUF \<Longrightarrow> b_refcnt (bufs s i) = 0 \<Longrightarrow> b_valid (bufs s i) \<Longrightarrow>
           b_dev (bufs s i) = ROOTDEV \<Longrightarrow> b_data (bufs s i) = disk s (b_blockno (bufs s i))"
  using assms unfolding cache_ok_def by blast+

lemma cached_Some:
  assumes "cache_ok s"
  shows "cached s b = Some i \<longleftrightarrow> i < NBUF \<and> is_for s b i"
proof
  assume i: "i < NBUF \<and> is_for s b i"
  then obtain j where j: "cached s b = Some j"
    unfolding cached_def using scan_exists [of 0 i NBUF "is_for s b"] by auto
  then have "j < NBUF" "is_for s b j" by (auto simp: cached_def dest: scan_SomeD)
  then show "cached s b = Some i"
    using i j cache_okD(2) [OF assms, of j i b] by simp
qed (auto simp: cached_def dest: scan_SomeD)

lemma cached_None: "cached s b = None \<longleftrightarrow> (\<forall>i < NBUF. \<not> is_for s b i)"
  by (auto simp: cached_def scan_None_iff)

lemma view_Some:
  assumes "cached s b = Some i"
  shows "cview s b = (if b_valid (bufs s i) then b_data (bufs s i) else disk s b)"
    and "refs s b = b_refcnt (bufs s i)" and "held s b = sl_locked (b_lock (bufs s i))"
  using assms by (simp_all add: cview_def refs_def held_def)

lemma view_None:
  assumes "cached s b = None"
  shows "cview s b = disk s b" and "refs s b = 0" and "\<not> held s b"
  using assms by (simp_all add: cview_def refs_def held_def)

text \<open>A block with no reference is on the disk as it stands.\<close>

lemma cview_unreferenced:
  assumes "cache_ok s" "refs s b = 0"
  shows "cview s b = disk s b" and "\<not> held s b"
proof -
  have "cview s b = disk s b \<and> \<not> held s b"
  proof (cases "cached s b")
    case None
    then show ?thesis by (simp add: view_None)
  next
    case (Some i)
    then have i: "i < NBUF" "is_for s b i" using cached_Some [OF assms(1)] by auto
    have "b_refcnt (bufs s i) = 0" using assms(2) view_Some [OF Some] by simp
    then show ?thesis
      using i cache_okD(4,5) [OF assms(1) i(1)] view_Some [OF Some] by (auto simp: is_for_def)
  qed
  then show "cview s b = disk s b" "\<not> held s b" by auto
qed

text \<open>When fewer than \<^verbatim>\<open>NBUF\<close> blocks are referenced, some buffer can be recycled.\<close>

lemma spare_buffer:
  assumes "cache_ok s" "card {b. 0 < refs s b} < NBUF"
  shows "\<exists>i < NBUF. b_refcnt (bufs s i) = 0"
proof (rule ccontr)
  assume "\<not> ?thesis"
  then have busy: "0 < b_refcnt (bufs s i)" if "i < NBUF" for i using that by auto
  have for_i: "is_for s (b_blockno (bufs s i)) i" if "i < NBUF" for i
    using cache_okD(3) [OF assms(1) that busy [OF that]] by (simp add: is_for_def)
  have inj: "inj_on (\<lambda>i. b_blockno (bufs s i)) {..<NBUF}"
    using for_i cache_okD(2) [OF assms(1)] by (intro inj_onI) (metis lessThan_iff)
  have sub: "(\<lambda>i. b_blockno (bufs s i)) ` {..<NBUF} \<subseteq> {b. 0 < refs s b}"
  proof
    fix b assume "b \<in> (\<lambda>i. b_blockno (bufs s i)) ` {..<NBUF}"
    then obtain i where i: "i < NBUF" "b = b_blockno (bufs s i)" by auto
    then have "cached s b = Some i" using for_i cached_Some [OF assms(1)] by simp
    then show "b \<in> {b. 0 < refs s b}" using view_Some(2) [of s b i] busy [OF i(1)] by simp
  qed
  have "finite {b. 0 < refs s b}"
  proof (rule finite_subset)
    show "{b. 0 < refs s b} \<subseteq> (\<lambda>i. b_blockno (bufs s i)) ` {..<NBUF}"
    proof
      fix b assume "b \<in> {b. 0 < refs s b}"
      then obtain i where "cached s b = Some i" by (cases "cached s b") (auto simp: view_None)
      then show "b \<in> (\<lambda>i. b_blockno (bufs s i)) ` {..<NBUF}"
        using cached_Some [OF assms(1)] by (auto simp: is_for_def)
    qed
  qed simp
  then have "card {..<NBUF} \<le> card {b. 0 < refs s b}" using inj sub by (rule card_inj_on_le [rotated 2])
  then show False using assms(2) by simp
qed

text \<open>
  Replacing the contents of one buffer. The buffer is the one for block \<open>b\<close> already, or it is
  free and there is none for \<open>b\<close>. In both cases only \<open>b\<close> changes in the client's view.
\<close>

definition claims :: "'a bio_scheme \<Rightarrow> nat \<Rightarrow> u32 \<Rightarrow> bool" where
  "claims s i b \<longleftrightarrow> i < NBUF \<and>
     (is_for s b i \<or> (cached s b = None \<and> b_refcnt (bufs s i) = 0))"

lemma replace_buffer:
  assumes ok: "cache_ok s" and cl: "claims s i b"
    and ring: "lru_list s' xs"
    and bufs': "bufs s' = (bufs s)(i := nb)"
    and nb: "b_dev nb = ROOTDEV" "b_blockno nb = b"
    and disk': "\<And>b'. b' \<noteq> b \<Longrightarrow> disk s' b' = disk s b'"
    and clean: "b_refcnt nb = 0 \<Longrightarrow> \<not> sl_locked (b_lock nb) \<and> (b_valid nb \<longrightarrow> b_data nb = disk s' b)"
  shows "cache_ok s'"
    and "cview s' = (cview s)(b := if b_valid nb then b_data nb else disk s' b)"
    and "refs s' = (refs s)(b := b_refcnt nb)"
    and "held s' = (held s)(b := sl_locked (b_lock nb))"
proof -
  have i: "i < NBUF" using cl by (simp add: claims_def)
  have for': "is_for s' b' j \<longleftrightarrow> (if j = i then b' = b else is_for s b' j)" for b' j
    using bufs' nb by (auto simp: is_for_def)
  have other: "j = i" if "j < NBUF" "is_for s b j" for j
    using cl that cache_okD(2) [OF ok that(1) i that(2)] by (auto simp: claims_def cached_None)
  show ok': "cache_ok s'"
  proof (rule cache_okI [OF ring])
    fix b' j k
    assume "j < NBUF" "k < NBUF" "is_for s' b' j" "is_for s' b' k"
    then show "j = k" using cache_okD(2) [OF ok, of j k b'] other for' by (metis (full_types))
  next
    fix j assume "j < NBUF" "b_refcnt (bufs s' j) = 0" "b_valid (bufs s' j)"
      "b_dev (bufs s' j) = ROOTDEV"
    moreover then have "b_blockno (bufs s j) \<noteq> b" if "j \<noteq> i"
      using that other [of j] bufs' by (auto simp: is_for_def)
    ultimately show "b_data (bufs s' j) = disk s' (b_blockno (bufs s' j))"
      using bufs' nb clean disk' cache_okD(5) [OF ok, of j] by (auto split: if_splits)
  qed (use bufs' nb clean cache_okD(3,4) [OF ok] in \<open>auto split: if_splits\<close>)
  have cb: "cached s' b = Some i" using i for' cached_Some [OF ok'] by simp
  have cn: "cached s' b' = (if cached s b' = Some i then None else cached s b')" if "b' \<noteq> b" for b'
  proof (cases "cached s b'")
    case None
    then have "cached s' b' = None" using that for' [of b'] by (simp add: cached_None)
    then show ?thesis using None by simp
  next
    case (Some j)
    then have j: "j < NBUF" "is_for s b' j" using cached_Some [OF ok] by auto
    show ?thesis
    proof (cases "j = i")
      case True
      then have "\<not> is_for s' b' k" if "k < NBUF" for k
        using that for' [of b' k] \<open>b' \<noteq> b\<close> cache_okD(2) [OF ok that i, of b'] j by auto
      then show ?thesis using Some True by (simp add: cached_None)
    next
      case False
      then show ?thesis using Some j for' [of b' j] cached_Some [OF ok', of b' j] by simp
    qed
  qed
  text \<open>A block whose buffer was recycled had no references.\<close>
  have gone: "b_refcnt (bufs s i) = 0" if "cached s b' = Some i" "b' \<noteq> b" for b'
    using that cl cached_Some [OF ok, of b' i] by (auto simp: claims_def is_for_def)
  have V: "cview s' b' = cview s b' \<and> refs s' b' = refs s b' \<and> held s' b' = held s b'"
    if "b' \<noteq> b" for b'
  proof (cases "cached s b' = Some i")
    case True
    then have c: "cached s' b' = None" using cn [OF that] by simp
    have "refs s b' = 0" using view_Some(2) [OF True] gone [OF True that] by simp
    then show ?thesis
      using view_None [OF c] cview_unreferenced [OF ok, of b'] disk' [OF that] by auto
  next
    case False
    then have "cached s' b' = cached s b'" using cn [OF that] by simp
    then show ?thesis
      using False bufs' disk' [OF that]
      by (auto simp: cview_def refs_def held_def split: option.splits)
  qed
  show "cview s' = (cview s)(b := if b_valid nb then b_data nb else disk s' b)"
    using V view_Some(1) [OF cb] bufs' by (auto simp: fun_eq_iff)
  show "refs s' = (refs s)(b := b_refcnt nb)"
    using V view_Some(2) [OF cb] bufs' by (auto simp: fun_eq_iff)
  show "held s' = (held s)(b := sl_locked (b_lock nb))"
    using V view_Some(3) [OF cb] bufs' by (auto simp: fun_eq_iff)
qed

lemma bget_claims:
  assumes ok: "cache_ok s" and free: "\<not> held s b" and room: "0 < refs s b \<or> card {b. 0 < refs s b} < NBUF"
  obtains i where "claims s i b"
    and "bget pid ROOTDEV b s =
      Inr (i, upd_buf i (\<lambda>x. if is_for s b i
        then x\<lparr>b_refcnt := b_refcnt x + 1, b_lock := \<lparr>sl_locked = True, sl_pid = pid\<rparr>\<rparr>
        else x\<lparr>b_dev := ROOTDEV, b_blockno := b, b_valid := False, b_refcnt := 1,
               b_lock := \<lparr>sl_locked = True, sl_pid = pid\<rparr>\<rparr>) s)"
proof -
  obtain xs where xs: "lru_list s xs" using cache_okD(1) [OF ok] by blast
  then have set: "set xs = {..<NBUF}" by (simp add: lru_list_def)
  let ?P = "\<lambda>i. b_dev (bufs s i) = ROOTDEV \<and> b_blockno (bufs s i) = b"
  note w1 = walk_ring_next [OF xs, of ?P]
  note w2 = walk_ring_prev [OF xs, of "\<lambda>i. b_refcnt (bufs s i) = 0"]
  show thesis
  proof (cases "cached s b")
    case (Some i)
    then have i: "i < NBUF" "is_for s b i" using cached_Some [OF ok] by auto
    have "find ?P xs = Some i"
    proof -
      obtain j where "find ?P xs = Some j"
        using i set by (cases "find ?P xs") (auto simp: find_None_iff is_for_def)
      moreover then have "?P j" "j < NBUF" using find_SomeD [of ?P xs j] set by auto
      ultimately show ?thesis using cache_okD(2) [OF ok, of j i b] i by (simp add: is_for_def)
    qed
    moreover have "\<not> sl_locked (b_lock (bufs s i))" using free view_Some(3) [OF Some] by simp
    ultimately show thesis
      using i w1 by (intro that [of i])
        (auto simp: claims_def bget_def lock_buf_def upd_buf_def)
  next
    case None
    then have n: "find ?P xs = None" using set by (auto simp: find_None_iff cached_None is_for_def)
    have "\<exists>i < NBUF. b_refcnt (bufs s i) = 0"
      using room view_None(2) [OF None] spare_buffer [OF ok] by auto
    then obtain i where f: "find (\<lambda>i. b_refcnt (bufs s i) = 0) (rev xs) = Some i"
      using set by (cases "find (\<lambda>i. b_refcnt (bufs s i) = 0) (rev xs)") (auto simp: find_None_iff)
    then have i: "b_refcnt (bufs s i) = 0" "i < NBUF" using find_SomeD [OF f] set by auto
    have "\<not> is_for s b i" using None i(2) by (auto simp: cached_None)
    moreover have "\<not> sl_locked (b_lock (bufs s i))" using cache_okD(4) [OF ok i(2,1)] .
    ultimately show thesis
      using None i n w1 w2 f by (intro that [of i])
        (auto simp: claims_def bget_def lock_buf_def upd_buf_def)
  qed
qed

subsection \<open>The abstract cache\<close>

text \<open>
  What the cache is to its clients: block contents, references, locked blocks, the disk and the
  history of its writes. Each operation of the code implements the operation below of its name.
\<close>

record cabs =
  c_view :: "u32 \<Rightarrow> block"
  c_refs :: "u32 \<Rightarrow> nat"
  c_held :: "u32 \<Rightarrow> bool"
  c_disk :: "u32 \<Rightarrow> block"
  c_writes :: "(u32 \<times> block) list"

definition cabs_of :: "'a bio_scheme \<Rightarrow> cabs" where
  "cabs_of s = \<lparr>c_view = cview s, c_refs = refs s, c_held = held s,
                c_disk = disk s, c_writes = writes s\<rparr>"

definition a_bread :: "u32 \<Rightarrow> cabs \<Rightarrow> cabs" where
  "a_bread b a = a\<lparr>c_refs := (c_refs a)(b := c_refs a b + 1), c_held := (c_held a)(b := True)\<rparr>"

definition a_brelse :: "u32 \<Rightarrow> cabs \<Rightarrow> cabs" where
  "a_brelse b a = a\<lparr>c_refs := (c_refs a)(b := c_refs a b - 1), c_held := (c_held a)(b := False)\<rparr>"

definition a_bwrite :: "u32 \<Rightarrow> cabs \<Rightarrow> cabs" where
  "a_bwrite b a = a\<lparr>c_disk := (c_disk a)(b := c_view a b),
                    c_writes := c_writes a @ [(b, c_view a b)]\<rparr>"

definition a_set_data :: "u32 \<Rightarrow> block \<Rightarrow> cabs \<Rightarrow> cabs" where
  "a_set_data b d a = a\<lparr>c_view := (c_view a)(b := d)\<rparr>"

definition a_bpin :: "u32 \<Rightarrow> cabs \<Rightarrow> cabs" where
  "a_bpin b a = a\<lparr>c_refs := (c_refs a)(b := c_refs a b + 1)\<rparr>"

definition a_bunpin :: "u32 \<Rightarrow> cabs \<Rightarrow> cabs" where
  "a_bunpin b a = a\<lparr>c_refs := (c_refs a)(b := c_refs a b - 1)\<rparr>"

text \<open>The abstract effect of a copy.\<close>

definition a_copy :: "bool \<Rightarrow> u32 \<Rightarrow> u32 \<Rightarrow> cabs \<Rightarrow> cabs" where
  "a_copy u src dst a = a\<lparr>
     c_view := (c_view a)(dst := c_view a src), c_disk := (c_disk a)(dst := c_view a src),
     c_writes := c_writes a @ [(dst, c_view a src)],
     c_refs := (if u then (c_refs a)(dst := c_refs a dst - 1) else c_refs a)\<rparr>"

lemmas a_defs = a_bread_def a_brelse_def a_bwrite_def a_set_data_def a_bpin_def a_bunpin_def

text \<open>Room for a buffer for \<open>b\<close>: it has one in use, or not all of them are in use.\<close>

definition room :: "u32 \<Rightarrow> cabs \<Rightarrow> bool" where
  "room b a \<longleftrightarrow> 0 < c_refs a b \<or> card {b. 0 < c_refs a b} < NBUF"

text \<open>Process \<open>pid\<close> holds the locked buffer \<open>i\<close>, which is for block \<open>b\<close>.\<close>

definition owns :: "int \<Rightarrow> nat \<Rightarrow> u32 \<Rightarrow> 'a bio_scheme \<Rightarrow> bool" where
  "owns pid i b s \<longleftrightarrow> i < NBUF \<and> is_for s b i \<and> b_valid (bufs s i) \<and> 0 < b_refcnt (bufs s i) \<and>
     b_lock (bufs s i) = \<lparr>sl_locked = True, sl_pid = pid\<rparr>"

text \<open>
  A step from \<open>s\<close> to \<open>s'\<close> on block \<open>b\<close>: it keeps the invariant, makes the abstract state \<open>a\<close>,
  keeps what lies above the cache, and takes no other buffer from its holder.
\<close>

definition cache_step :: "u32 \<Rightarrow> cabs \<Rightarrow> 'a bio_scheme \<Rightarrow> 'a bio_scheme \<Rightarrow> bool" where
  "cache_step b a s s' \<longleftrightarrow> cache_ok s' \<and> cabs_of s' = a \<and> bio.more s' = bio.more s \<and>
     (\<forall>p j c. c \<noteq> b \<longrightarrow> owns p j c s \<longrightarrow> owns p j c s')"

lemma owns_cached: "cache_ok s \<Longrightarrow> owns pid i b s \<Longrightarrow> cached s b = Some i"
  by (simp add: owns_def cached_Some)

lemma owns_view:
  assumes "cache_ok s" "owns pid i b s"
  shows "b_data (bufs s i) = c_view (cabs_of s) b" "c_held (cabs_of s) b" "0 < c_refs (cabs_of s) b"
  using view_Some [OF owns_cached [OF assms]] assms(2) by (auto simp: owns_def cabs_of_def)

lemma owns_frame:
  assumes "cache_ok s" "claims s i b" "bufs s' = (bufs s)(i := nb)" "c \<noteq> b" "owns p j c s"
  shows "owns p j c s'"
proof -
  have "j \<noteq> i" using assms(2,4,5) by (auto simp: claims_def owns_def is_for_def)
  then show ?thesis using assms(3,5) by (simp add: owns_def is_for_def)
qed

lemma owns_claims: "owns pid i b s \<Longrightarrow> claims s i b"
  by (simp add: owns_def claims_def)

text \<open>The instance of \<open>replace_buffer\<close> that the operations use.\<close>

lemma cache_stepI:
  assumes "cache_ok s" "claims s i b" "lru_list s' xs" "bufs s' = (bufs s)(i := nb)"
    "b_dev nb = ROOTDEV" "b_blockno nb = b" "bio.more s' = bio.more s"
    "\<And>b'. b' \<noteq> b \<Longrightarrow> disk s' b' = disk s b'"
    "b_refcnt nb = 0 \<Longrightarrow> \<not> sl_locked (b_lock nb) \<and> (b_valid nb \<longrightarrow> b_data nb = disk s' b)"
    "a = \<lparr>c_view = (cview s)(b := if b_valid nb then b_data nb else disk s' b),
          c_refs = (refs s)(b := b_refcnt nb), c_held = (held s)(b := sl_locked (b_lock nb)),
          c_disk = disk s', c_writes = writes s'\<rparr>"
  shows "cache_step b a s s'"
  unfolding cache_step_def cabs_of_def
  using replace_buffer [OF assms(1-6,8,9)] assms(7,10) owns_frame [OF assms(1,2,4)] by auto

lemma lru_list_ptrs: "bnext s' = bnext s \<Longrightarrow> bprev s' = bprev s \<Longrightarrow> lru_list s' xs = lru_list s xs"
  by (simp add: lru_list_def)

subsection \<open>Each operation implements its abstract operation\<close>

lemma bread_step:
  assumes ok: "cache_ok s" and free: "\<not> c_held (cabs_of s) b" and rm: "room b (cabs_of s)"
  obtains i s' where "bread pid ROOTDEV b s = Inr (i, s')"
    "cache_step b (a_bread b (cabs_of s)) s s'" "owns pid i b s'"
proof -
  obtain xs where xs: "lru_list s xs" using cache_okD(1) [OF ok] by blast
  have h: "\<not> held s b" and r: "0 < refs s b \<or> card {b. 0 < refs s b} < NBUF"
    using free rm by (simp_all add: cabs_of_def room_def)
  let ?lk = "\<lparr>sl_locked = True, sl_pid = pid\<rparr>"
  let ?f = "\<lambda>i x. if is_for s b i then x\<lparr>b_refcnt := b_refcnt x + 1, b_lock := ?lk\<rparr>
     else x\<lparr>b_dev := ROOTDEV, b_blockno := b, b_valid := False, b_refcnt := 1, b_lock := ?lk\<rparr>"
  obtain i where cl: "claims s i b" and bg: "bget pid ROOTDEV b s = Inr (i, upd_buf i (?f i) s)"
    using bget_claims [OF ok h r, of pid] by blast
  let ?x = "bufs s i"
  let ?nb = "if b_valid (?f i ?x) then ?f i ?x
             else (?f i ?x)\<lparr>b_data := disk s b, b_disk := False, b_valid := True\<rparr>"
  let ?s' = "upd_buf i (\<lambda>_. ?nb) s"
  have br: "bread pid ROOTDEV b s = Inr (i, ?s')"
    unfolding bread_def bg using cl
    by (auto simp: virtio_disk_rw_def upd_buf_def claims_def is_for_def)
  have viewb: "cview s b = b_data ?nb" "refs s b + 1 = b_refcnt ?nb"
  proof -
    show "cview s b = b_data ?nb"
    proof (cases "is_for s b i")
      case True
      then have "cached s b = Some i" using cl cached_Some [OF ok] by (simp add: claims_def)
      from view_Some(1) [OF this] True show ?thesis by simp
    qed (use cl view_None(1) [of s b] in \<open>simp add: claims_def\<close>)
    show "refs s b + 1 = b_refcnt ?nb"
    proof (cases "is_for s b i")
      case True
      then have "cached s b = Some i" using cl cached_Some [OF ok] by (simp add: claims_def)
      from view_Some(2) [OF this] True show ?thesis by simp
    qed (use cl view_None(2) [of s b] in \<open>simp add: claims_def\<close>)
  qed
  have nb: "b_dev ?nb = ROOTDEV" "b_blockno ?nb = b" "b_valid ?nb" "b_lock ?nb = ?lk"
    "0 < b_refcnt ?nb" by (auto simp: is_for_def)
  have step: "cache_step b (a_bread b (cabs_of s)) s ?s'"
  proof (rule cache_stepI [OF ok cl, where nb = ?nb and xs = xs])
    show "lru_list ?s' xs" using xs by (simp add: lru_list_def)
    show "bufs ?s' = (bufs s)(i := ?nb)" by (simp add: fun_eq_iff)
    show "a_bread b (cabs_of s) = \<lparr>c_view = (cview s)(b := if b_valid ?nb then b_data ?nb else disk ?s' b),
          c_refs = (refs s)(b := b_refcnt ?nb), c_held = (held s)(b := sl_locked (b_lock ?nb)),
          c_disk = disk ?s', c_writes = writes ?s'\<rparr>"
      unfolding viewb(1) [symmetric] viewb(2) [symmetric] nb(4)
      using nb(3) by (simp add: a_bread_def cabs_of_def)
  qed (use nb in simp_all)
  have "owns pid i b ?s'" using cl nb by (simp add: owns_def claims_def is_for_def)
  with br step show thesis by (rule that)
qed

text \<open>The operations on a buffer that the caller holds.\<close>

lemma owned_step:
  assumes ok: "cache_ok s" and own: "owns pid i b s"
    and s': "bufs s' = (bufs s)(i := nb)" "bnext s' = bnext s" "bprev s' = bprev s"
      "bio.more s' = bio.more s" "\<And>b'. b' \<noteq> b \<Longrightarrow> disk s' b' = disk s b'"
    and nb: "b_dev nb = ROOTDEV" "b_blockno nb = b" "b_valid nb" "0 < b_refcnt nb"
      "b_lock nb = b_lock (bufs s i)"
  shows "cache_step b \<lparr>c_view = (cview s)(b := b_data nb), c_refs = (refs s)(b := b_refcnt nb),
           c_held = held s, c_disk = disk s', c_writes = writes s'\<rparr> s s'"
    and "owns pid i b s'"
proof -
  obtain xs where xs: "lru_list s xs" using cache_okD(1) [OF ok] by blast
  have lk: "sl_locked (b_lock nb)" using own nb(5) by (simp add: owns_def)
  have h: "held s b" using owns_view(2) [OF ok own] by (simp add: cabs_of_def)
  have xs': "lru_list s' xs" using xs lru_list_ptrs [OF s'(2,3)] by simp
  show "cache_step b \<lparr>c_view = (cview s)(b := b_data nb), c_refs = (refs s)(b := b_refcnt nb),
           c_held = held s, c_disk = disk s', c_writes = writes s'\<rparr> s s'"
    by (rule cache_stepI [OF ok owns_claims [OF own], where nb = nb and xs = xs])
      (use xs' lk h s' nb in \<open>simp_all add: fun_upd_idem\<close>)
  show "owns pid i b s'" using own s'(1) nb by (simp add: owns_def is_for_def)
qed

lemma owned_refs:
  assumes "cache_ok s" "owns pid i b s"
  shows "refs s b = b_refcnt (bufs s i)" "cview s b = b_data (bufs s i)"
  using view_Some(1,2) [OF owns_cached [OF assms]] assms(2) by (auto simp: owns_def)

lemma owned_buf:
  assumes "owns pid i b s"
  shows "b_dev (bufs s i) = ROOTDEV" "b_blockno (bufs s i) = b" "b_valid (bufs s i)"
    "0 < b_refcnt (bufs s i)" "b_lock (bufs s i) = \<lparr>sl_locked = True, sl_pid = pid\<rparr>"
  using assms by (auto simp: owns_def is_for_def)

lemma set_data_step:
  assumes "cache_ok s" "owns pid i b s"
  shows "cache_step b (a_set_data b d (cabs_of s)) s (set_data i d s) \<and> owns pid i b (set_data i d s)"
proof -
  let ?nb = "(bufs s i)\<lparr>b_data := d\<rparr>"
  have a: "a_set_data b d (cabs_of s) = \<lparr>c_view = (cview s)(b := b_data ?nb),
      c_refs = (refs s)(b := b_refcnt ?nb), c_held = held s, c_disk = disk (set_data i d s),
      c_writes = writes (set_data i d s)\<rparr>"
    using owned_refs [OF assms] by (auto simp: a_set_data_def cabs_of_def set_data_def)
  show ?thesis
    unfolding a by (intro conjI owned_step [OF assms, where nb = ?nb])
      (simp_all add: set_data_def owned_buf [OF assms(2)] fun_eq_iff)
qed

lemma bwrite_step:
  assumes "cache_ok s" "owns pid i b s"
  obtains s' where "bwrite pid i s = Inr s'" "cache_step b (a_bwrite b (cabs_of s)) s s'" "owns pid i b s'"
proof -
  let ?s' = "virtio_disk_rw i True s" and ?nb = "(bufs s i)\<lparr>b_disk := False\<rparr>"
  note ob = owned_buf [OF assms(2)]
  have "bwrite pid i s = Inr ?s'" by (simp add: bwrite_def ob)
  moreover have a: "a_bwrite b (cabs_of s) = \<lparr>c_view = (cview s)(b := b_data ?nb),
      c_refs = (refs s)(b := b_refcnt ?nb), c_held = held s, c_disk = disk ?s', c_writes = writes ?s'\<rparr>"
    using owned_refs [OF assms] by (auto simp: a_bwrite_def cabs_of_def virtio_disk_rw_def ob Let_def)
  have "cache_step b (a_bwrite b (cabs_of s)) s ?s' \<and> owns pid i b ?s'"
    unfolding a by (intro conjI owned_step [OF assms, where nb = ?nb])
      (simp_all add: virtio_disk_rw_def ob Let_def fun_eq_iff)
  ultimately show thesis using that by blast
qed

lemma bpin_step:
  assumes "cache_ok s" "owns pid i b s"
  shows "cache_step b (a_bpin b (cabs_of s)) s (bpin i s) \<and> owns pid i b (bpin i s)"
proof -
  let ?nb = "(bufs s i)\<lparr>b_refcnt := b_refcnt (bufs s i) + 1\<rparr>"
  have a: "a_bpin b (cabs_of s) = \<lparr>c_view = (cview s)(b := b_data ?nb),
      c_refs = (refs s)(b := b_refcnt ?nb), c_held = held s, c_disk = disk (bpin i s),
      c_writes = writes (bpin i s)\<rparr>"
    using owned_refs [OF assms] by (auto simp: a_bpin_def cabs_of_def bpin_def)
  show ?thesis
    unfolding a by (intro conjI owned_step [OF assms, where nb = ?nb])
      (simp_all add: bpin_def owned_buf [OF assms(2)] fun_eq_iff)
qed

lemma bunpin_step:
  assumes "cache_ok s" "owns pid i b s" "1 < c_refs (cabs_of s) b"
  shows "cache_step b (a_bunpin b (cabs_of s)) s (bunpin i s) \<and> owns pid i b (bunpin i s)"
proof -
  let ?nb = "(bufs s i)\<lparr>b_refcnt := b_refcnt (bufs s i) - 1\<rparr>"
  note r = owned_refs [OF assms(1,2)]
  have two: "1 < b_refcnt (bufs s i)" using assms(3) r by (simp add: cabs_of_def)
  have a: "a_bunpin b (cabs_of s) = \<lparr>c_view = (cview s)(b := b_data ?nb),
      c_refs = (refs s)(b := b_refcnt ?nb), c_held = held s, c_disk = disk (bunpin i s),
      c_writes = writes (bunpin i s)\<rparr>"
    using r by (auto simp: a_bunpin_def cabs_of_def bunpin_def)
  show ?thesis
    unfolding a by (intro conjI owned_step [OF assms(1,2), where nb = ?nb])
      (use two in \<open>simp_all add: bunpin_def dec_ref_def owned_buf [OF assms(2)] fun_eq_iff\<close>)
qed

lemma brelse_step:
  assumes ok: "cache_ok s" and own: "owns pid i b s"
    and last: "1 < c_refs (cabs_of s) b \<or> c_view (cabs_of s) b = c_disk (cabs_of s) b"
  obtains s' where "brelse pid i s = Inr s'" "cache_step b (a_brelse b (cabs_of s)) s s'"
proof -
  note r = owned_refs [OF ok own] and ob = owned_buf [OF own]
  let ?x = "bufs s i"
  let ?nb = "?x\<lparr>b_lock := releasesleep (b_lock ?x), b_refcnt := b_refcnt ?x - 1\<rparr>"
  let ?t = "upd_buf i (\<lambda>_. ?nb) s"
  let ?s' = "if b_refcnt ?x = 1 then link_front i (unlink_buf i ?t) else ?t"
  obtain xs where xs: "lru_list s xs" using cache_okD(1) [OF ok] by blast
  have ring: "\<exists>ys. lru_list ?s' ys"
  proof (cases "b_refcnt ?x = 1")
    case True
    have "lru_list ?t xs" using xs by (simp add: lru_list_def)
    moreover have "i < NBUF" using own by (simp add: owns_def)
    ultimately show ?thesis using lru_list_relink [of ?t xs i] True by auto
  qed (use xs in \<open>auto simp: lru_list_def\<close>)
  then obtain ys where ys: "lru_list ?s' ys" by blast
  have "brelse pid i s = Inr ?s'"
    using ob(4) by (auto simp: brelse_def ob(5) dec_ref_def upd_buf_def Let_def)
  moreover have "cache_step b (a_brelse b (cabs_of s)) s ?s'"
  proof (rule cache_stepI [OF ok owns_claims [OF own] ys, where nb = ?nb])
    show "bufs ?s' = (bufs s)(i := ?nb)" by (auto simp: fun_eq_iff)
    show "a_brelse b (cabs_of s) = \<lparr>c_view = (cview s)(b := if b_valid ?nb then b_data ?nb else disk ?s' b),
          c_refs = (refs s)(b := b_refcnt ?nb), c_held = (held s)(b := sl_locked (b_lock ?nb)),
          c_disk = disk ?s', c_writes = writes ?s'\<rparr>"
      using r ob(3) by (auto simp: a_brelse_def cabs_of_def initsleeplock_def)
  qed (use ob r last in \<open>auto simp: cabs_of_def initsleeplock_def\<close>)
  ultimately show thesis by (rule that)
qed

section \<open>The contract of a block cache\<close>

text \<open>
  The interface the log and the file system use. \<open>step b a s s'\<close> is a step on block \<open>b\<close> to the
  abstract state \<open>a\<close>, and \<open>top\<close> the part of the state above the cache.
\<close>

locale block_cache =
  fixes ok :: "'s \<Rightarrow> bool" and abs :: "'s \<Rightarrow> cabs" and top :: "'s \<Rightarrow> 'm"
    and own :: "int \<Rightarrow> nat \<Rightarrow> u32 \<Rightarrow> 's \<Rightarrow> bool"
    and step :: "u32 \<Rightarrow> cabs \<Rightarrow> 's \<Rightarrow> 's \<Rightarrow> bool"
    and get :: "int \<Rightarrow> u32 \<Rightarrow> 's \<Rightarrow> (nat \<times> 's) res" and dat :: "nat \<Rightarrow> 's \<Rightarrow> block"
    and put :: "nat \<Rightarrow> block \<Rightarrow> 's \<Rightarrow> 's" and flush :: "int \<Rightarrow> nat \<Rightarrow> 's \<Rightarrow> 's res"
    and rel :: "int \<Rightarrow> nat \<Rightarrow> 's \<Rightarrow> 's res"
    and unpin :: "nat \<Rightarrow> 's \<Rightarrow> 's"
  assumes step_ok: "step b a s s' \<Longrightarrow> ok s' \<and> abs s' = a \<and> top s' = top s"
    and step_own: "step b a s s' \<Longrightarrow> c \<noteq> b \<Longrightarrow> own p j c s \<Longrightarrow> own p j c s'"
    and get_law: "ok s \<Longrightarrow> \<not> c_held (abs s) b \<Longrightarrow> room b (abs s) \<Longrightarrow>
       \<exists>i s'. get pid b s = Inr (i, s') \<and> step b (a_bread b (abs s)) s s' \<and> own pid i b s'"
    and dat_law: "ok s \<Longrightarrow> own pid i b s \<Longrightarrow> dat i s = c_view (abs s) b"
    and put_law: "ok s \<Longrightarrow> own pid i b s \<Longrightarrow>
       step b (a_set_data b d (abs s)) s (put i d s) \<and> own pid i b (put i d s)"
    and flush_law: "ok s \<Longrightarrow> own pid i b s \<Longrightarrow>
       \<exists>s'. flush pid i s = Inr s' \<and> step b (a_bwrite b (abs s)) s s' \<and> own pid i b s'"
    and rel_law: "ok s \<Longrightarrow> own pid i b s \<Longrightarrow>
       1 < c_refs (abs s) b \<or> c_view (abs s) b = c_disk (abs s) b \<Longrightarrow>
       \<exists>s'. rel pid i s = Inr s' \<and> step b (a_brelse b (abs s)) s s'"
    and unpin_law: "ok s \<Longrightarrow> own pid i b s \<Longrightarrow> 1 < c_refs (abs s) b \<Longrightarrow>
       step b (a_bunpin b (abs s)) s (unpin i s) \<and> own pid i b (unpin i s)"
begin

text \<open>Reading a block leaves the abstract cache as it was.\<close>

lemma read_block:
  assumes "ok s" "\<not> c_held (abs s) b" "room b (abs s)"
    "0 < c_refs (abs s) b \<or> c_view (abs s) b = c_disk (abs s) b"
  obtains i s1 s2 where "get pid b s = Inr (i, s1)" "dat i s1 = c_view (abs s) b" "rel pid i s1 = Inr s2"
    "ok s2" "abs s2 = abs s" "top s2 = top s" "top s1 = top s"
proof -
  obtain i s1 where s1: "get pid b s = Inr (i, s1)" "step b (a_bread b (abs s)) s s1" "own pid i b s1"
    using get_law [OF assms(1-3)] by blast
  note k1 = step_ok [OF s1(2)]
  have "\<exists>s2. rel pid i s1 = Inr s2 \<and> step b (a_brelse b (abs s1)) s1 s2"
    using k1 s1(3) assms(4) by (intro rel_law) (auto simp: a_bread_def)
  then obtain s2 where s2: "rel pid i s1 = Inr s2" "step b (a_brelse b (abs s1)) s1 s2" by blast
  note k2 = step_ok [OF s2(2)]
  have "dat i s1 = c_view (abs s) b" using dat_law [of s1 pid i b] k1 s1(3) by (simp add: a_bread_def)
  moreover have "abs s2 = abs s"
    using k1 k2 assms(2) by (simp add: a_bread_def a_brelse_def fun_upd_idem)
  ultimately show thesis using that [OF s1(1) _ s2(1)] k1 k2 by simp
qed

text \<open>Reading a block, changing it and writing it to the disk.\<close>

lemma rewrite_block:
  assumes "ok s" "\<not> c_held (abs s) b" "room b (abs s)"
  obtains i s1 s2 s3 where "get pid b s = Inr (i, s1)" "dat i s1 = c_view (abs s) b"
    "flush pid i (put i d s1) = Inr s2" "rel pid i s2 = Inr s3" "ok s3" "top s3 = top s"
    "top s1 = top s"
    "abs s3 = (abs s)\<lparr>c_view := (c_view (abs s))(b := d), c_disk := (c_disk (abs s))(b := d),
       c_writes := c_writes (abs s) @ [(b, d)]\<rparr>"
proof -
  obtain i s1 where s1: "get pid b s = Inr (i, s1)" "step b (a_bread b (abs s)) s s1" "own pid i b s1"
    using get_law [OF assms] by blast
  note k1 = step_ok [OF s1(2)]
  have p: "step b (a_set_data b d (abs s1)) s1 (put i d s1)" "own pid i b (put i d s1)"
    using put_law [OF _ s1(3)] k1 by auto
  note kp = step_ok [OF p(1)]
  obtain s2 where s2: "flush pid i (put i d s1) = Inr s2"
      "step b (a_bwrite b (abs (put i d s1))) (put i d s1) s2" "own pid i b s2"
    using flush_law [OF _ p(2)] kp by blast
  note k2 = step_ok [OF s2(2)]
  have a2: "c_view (abs s2) b = c_disk (abs s2) b"
    using k1 kp k2 by (simp add: a_bread_def a_set_data_def a_bwrite_def)
  obtain s3 where s3: "rel pid i s2 = Inr s3" "step b (a_brelse b (abs s2)) s2 s3"
    using rel_law [OF _ s2(3)] k2 a2 by blast
  note k3 = step_ok [OF s3(2)]
  have a3: "abs s3 = a_brelse b (a_bwrite b (a_set_data b d (a_bread b (abs s))))"
    using k1 kp k2 k3 by simp
  show thesis
  proof (rule that [OF s1(1) _ s2(1) s3(1)])
    show "dat i s1 = c_view (abs s) b" using dat_law [of s1 pid i b] k1 s1(3) by (simp add: a_bread_def)
    show "abs s3 = (abs s)\<lparr>c_view := (c_view (abs s))(b := d), c_disk := (c_disk (abs s))(b := d),
       c_writes := c_writes (abs s) @ [(b, d)]\<rparr>"
      unfolding a3 using assms(2) by (simp add: a_defs fun_upd_idem)
  qed (use k1 kp k2 k3 in simp_all)
qed

text \<open>Two held buffers: copy the first into the second, write it, and release both.\<close>

lemma copy_held:
  assumes "ok s" "own pid i src s" "own pid j dst s" "src \<noteq> dst"
    and src: "1 < c_refs (abs s) src \<or> c_view (abs s) src = c_disk (abs s) src"
    and unp: "u \<Longrightarrow> 1 < c_refs (abs s) dst"
  obtains s1 s2 s3 where "flush pid j (put j (dat i s) s) = Inr s1"
    "rel pid i (if u then unpin j s1 else s1) = Inr s2" "rel pid j s2 = Inr s3" "ok s3" "top s3 = top s"
    "abs s3 = a_brelse dst (a_brelse src ((if u then a_bunpin dst else id)
       (a_bwrite dst (a_set_data dst (c_view (abs s) src) (abs s)))))"
proof -
  have d: "dat i s = c_view (abs s) src" using dat_law assms(1,2) by blast
  let ?p = "put j (dat i s) s"
  have p: "step dst (a_set_data dst (dat i s) (abs s)) s ?p" "own pid j dst ?p"
    using put_law [OF assms(1,3)] by auto
  note kp = step_ok [OF p(1)]
  note ip = step_own [OF p(1) assms(4,2)]
  obtain s1 where s1: "flush pid j ?p = Inr s1" "step dst (a_bwrite dst (abs ?p)) ?p s1" "own pid j dst s1"
    using flush_law [OF _ p(2)] kp by blast
  note k1 = step_ok [OF s1(2)]
  note i1 = step_own [OF s1(2) assms(4) ip]
  let ?t = "if u then unpin j s1 else s1"
  have t: "ok ?t \<and> abs ?t = (if u then a_bunpin dst else id) (abs s1) \<and> top ?t = top s1 \<and>
      own pid i src ?t \<and> own pid j dst ?t"
  proof (cases u)
    case True
    have "1 < c_refs (abs s1) dst" using unp [OF True] kp k1 by (simp add: a_defs)
    then have q: "step dst (a_bunpin dst (abs s1)) s1 (unpin j s1)" "own pid j dst (unpin j s1)"
      using unpin_law [OF _ s1(3)] k1 by auto
    show ?thesis using step_ok [OF q(1)] q(2) step_own [OF q(1) assms(4) i1] True by simp
  qed (use k1 i1 s1(3) in simp)
  have "1 < c_refs (abs ?t) src \<or> c_view (abs ?t) src = c_disk (abs ?t) src"
    using src t k1 kp assms(4) by (simp add: a_defs)
  then obtain s2 where s2: "rel pid i ?t = Inr s2" "step src (a_brelse src (abs ?t)) ?t s2"
    using rel_law [of ?t pid i src] t by blast
  note k2 = step_ok [OF s2(2)]
  have own2: "own pid j dst s2" using step_own [OF s2(2), of dst pid j] assms(4) t by simp
  have "c_view (abs s2) dst = c_disk (abs s2) dst"
    using k2 t k1 kp assms(4) by (simp add: a_defs)
  then obtain s3 where s3: "rel pid j s2 = Inr s3" "step dst (a_brelse dst (abs s2)) s2 s3"
    using rel_law [OF _ own2] k2 by blast
  note k3 = step_ok [OF s3(2)]
  show thesis
    by (rule that [OF s1(1) s2(1) s3(1)]) (use k3 k2 t k1 kp d in simp_all)
qed

text \<open>The two orders in which the log gets the buffers.\<close>

lemma get_two:
  assumes "ok s" "\<not> c_held (abs s) b" "\<not> c_held (abs s) c" "b \<noteq> c"
    "room b (abs s)" "room c (a_bread b (abs s))"
  obtains i j s1 s2 where "get pid b s = Inr (i, s1)" "get pid c s1 = Inr (j, s2)" "ok s2"
    "top s1 = top s" "top s2 = top s" "own pid i b s2" "own pid j c s2"
    "abs s2 = a_bread c (a_bread b (abs s))"
proof -
  obtain i s1 where s1: "get pid b s = Inr (i, s1)" "step b (a_bread b (abs s)) s s1" "own pid i b s1"
    using get_law [OF assms(1,2,5)] by blast
  note k1 = step_ok [OF s1(2)]
  have "\<exists>j s2. get pid c s1 = Inr (j, s2) \<and> step c (a_bread c (abs s1)) s1 s2 \<and> own pid j c s2"
    using k1 assms(3,4,6) by (intro get_law) (auto simp: a_bread_def)
  then obtain j s2 where s2: "get pid c s1 = Inr (j, s2)" "step c (a_bread c (abs s1)) s1 s2" "own pid j c s2"
    by blast
  note k2 = step_ok [OF s2(2)]
  show thesis
    by (rule that [OF s1(1) s2(1)]) (use k1 k2 s2(3) step_own [OF s2(2) assms(4) s1(3)] in simp_all)
qed

lemma copy_dst_first:
  assumes "ok s" "\<not> c_held (abs s) src" "\<not> c_held (abs s) dst" "src \<noteq> dst"
    "room dst (abs s)" "room src (a_bread dst (abs s))"
    "0 < c_refs (abs s) src \<or> c_view (abs s) src = c_disk (abs s) src"
  obtains i j s1 s2 s3 s4 s5 where "get pid dst s = Inr (j, s1)" "get pid src s1 = Inr (i, s2)"
    "flush pid j (put j (dat i s2) s2) = Inr s3" "rel pid i s3 = Inr s4" "rel pid j s4 = Inr s5"
    "ok s5" "top s1 = top s" "top s5 = top s" "abs s5 = a_copy False src dst (abs s)"
proof -
  have ne: "dst \<noteq> src" using assms(4) by simp
  obtain i j s1 s2 where g: "get pid dst s = Inr (j, s1)" "get pid src s1 = Inr (i, s2)" "ok s2"
    "top s1 = top s" "top s2 = top s" "own pid j dst s2" "own pid i src s2"
    "abs s2 = a_bread src (a_bread dst (abs s))"
    using get_two [OF assms(1,3,2) ne assms(5,6)] by metis
  have "1 < c_refs (abs s2) src \<or> c_view (abs s2) src = c_disk (abs s2) src"
    using assms(4,7) g(8) by (simp add: a_bread_def)
  with copy_held [OF g(3,7,6) assms(4), of False]
  obtain s3 s4 s5 where h: "flush pid j (put j (dat i s2) s2) = Inr s3" "rel pid i s3 = Inr s4"
    "rel pid j s4 = Inr s5" "ok s5" "top s5 = top s2"
    "abs s5 = a_brelse dst (a_brelse src (a_bwrite dst (a_set_data dst (c_view (abs s2) src) (abs s2))))"
    by auto
  have "abs s5 = a_copy False src dst (abs s)"
    using h(6) g(8) assms(2-4) by (simp add: a_defs a_copy_def fun_upd_idem fun_upd_twist)
  then show thesis using that [OF g(1,2) h(1-3)] h g by simp
qed

lemma copy_src_first:
  assumes "ok s" "\<not> c_held (abs s) src" "\<not> c_held (abs s) dst" "src \<noteq> dst"
    "room src (abs s)" "room dst (a_bread src (abs s))"
    "0 < c_refs (abs s) src \<or> c_view (abs s) src = c_disk (abs s) src"
    "u \<Longrightarrow> 0 < c_refs (abs s) dst"
  obtains i j s1 s2 s3 s4 s5 where "get pid src s = Inr (i, s1)" "get pid dst s1 = Inr (j, s2)"
    "flush pid j (put j (dat i s2) s2) = Inr s3" "rel pid i (if u then unpin j s3 else s3) = Inr s4"
    "rel pid j s4 = Inr s5"
    "ok s5" "top s1 = top s" "top s5 = top s" "abs s5 = a_copy u src dst (abs s)"
proof -
  obtain i j s1 s2 where g: "get pid src s = Inr (i, s1)" "get pid dst s1 = Inr (j, s2)" "ok s2"
    "top s1 = top s" "top s2 = top s" "own pid i src s2" "own pid j dst s2"
    "abs s2 = a_bread dst (a_bread src (abs s))"
    using get_two [OF assms(1-6)] by metis
  have "1 < c_refs (abs s2) src \<or> c_view (abs s2) src = c_disk (abs s2) src"
    "u \<Longrightarrow> 1 < c_refs (abs s2) dst"
    using assms(4,7,8) g(8) by (auto simp: a_bread_def)
  with copy_held [OF g(3,6,7) assms(4), of u]
  obtain s3 s4 s5 where h: "flush pid j (put j (dat i s2) s2) = Inr s3"
    "rel pid i (if u then unpin j s3 else s3) = Inr s4" "rel pid j s4 = Inr s5" "ok s5" "top s5 = top s2"
    "abs s5 = a_brelse dst (a_brelse src ((if u then a_bunpin dst else id)
       (a_bwrite dst (a_set_data dst (c_view (abs s2) src) (abs s2)))))"
    by blast
  have "abs s5 = a_copy u src dst (abs s)"
    using h(6) g(8) assms(2-4) by (simp add: a_defs a_copy_def fun_upd_idem fun_upd_twist)
  then show thesis using that [OF g(1,2) h(1-3)] h g by simp
qed

end

interpretation bcache: block_cache cache_ok cabs_of bio.more owns cache_step
  "\<lambda>pid. bread pid ROOTDEV" "\<lambda>i s. b_data (bufs s i)" set_data bwrite brelse bunpin
proof unfold_locales
  fix b a and s s' :: "'a bio_scheme" and c p j pid i d
  show "cache_step b a s s' \<Longrightarrow> cache_ok s' \<and> cabs_of s' = a \<and> bio.more s' = bio.more s"
    by (simp add: cache_step_def)
  show "cache_step b a s s' \<Longrightarrow> c \<noteq> b \<Longrightarrow> owns p j c s \<Longrightarrow> owns p j c s'"
    by (simp add: cache_step_def)
  show "cache_ok s \<Longrightarrow> \<not> c_held (cabs_of s) b \<Longrightarrow> room b (cabs_of s) \<Longrightarrow>
       \<exists>i s'. bread pid ROOTDEV b s = Inr (i, s') \<and>
          cache_step b (a_bread b (cabs_of s)) s s' \<and> owns pid i b s'"
    using bread_step [of s b pid] by metis
  show "cache_ok s \<Longrightarrow> owns pid i b s \<Longrightarrow> b_data (bufs s i) = c_view (cabs_of s) b"
    by (rule owns_view)
  show "cache_ok s \<Longrightarrow> owns pid i b s \<Longrightarrow>
       \<exists>s'. bwrite pid i s = Inr s' \<and> cache_step b (a_bwrite b (cabs_of s)) s s' \<and> owns pid i b s'"
    using bwrite_step [of s pid i b] by metis
  show "cache_ok s \<Longrightarrow> owns pid i b s \<Longrightarrow>
       1 < c_refs (cabs_of s) b \<or> c_view (cabs_of s) b = c_disk (cabs_of s) b \<Longrightarrow>
       \<exists>s'. brelse pid i s = Inr s' \<and> cache_step b (a_brelse b (cabs_of s)) s s'"
    using brelse_step [of s pid i b] by metis
qed (rule set_data_step bunpin_step; assumption)+

section \<open>The cache at boot\<close>

text \<open>\<^verbatim>\<open>bcache\<close> before \<open>binit\<close>: zeroed memory, above a disk \<open>d\<close>.\<close>

definition zero_buf :: buf where
  "zero_buf = \<lparr>b_valid = False, b_disk = False, b_dev = 0, b_blockno = 0,
     b_lock = \<lparr>sl_locked = False, sl_pid = 0\<rparr>, b_refcnt = 0, b_data = (\<lambda>_. 0)\<rparr>"

lemma link_front_linked:
  assumes "linked (bnext s) (bprev s) Head (map Buf ws) Head" "distinct (b # ws)"
  shows "linked (bnext (link_front b s)) (bprev (link_front b s)) Head (map Buf (b # ws)) Head"
proof -
  have "distinct (Head # map Buf ws)" using assms(2) distinct_ring [of ws] by simp
  then show ?thesis
    unfolding link_front_ptrs list.map
    by (intro linked_link_front [OF assms(1)]) (use assms(2) in auto)
qed

lemma binit_ring:
  assumes "linked (bnext s) (bprev s) Head [] Head"
  shows "linked (bnext (fold (\<lambda>b s. link_front b (upd_buf b f s)) [0..<n] s))
           (bprev (fold (\<lambda>b s. link_front b (upd_buf b f s)) [0..<n] s)) Head (map Buf (rev [0..<n])) Head"
proof (induction n)
  case (Suc n)
  let ?t = "fold (\<lambda>b s. link_front b (upd_buf b f s)) [0..<n] s"
  have "linked (bnext (upd_buf n f ?t)) (bprev (upd_buf n f ?t)) Head (map Buf (rev [0..<n])) Head"
    using Suc.IH by simp
  from link_front_linked [OF this, of n] show ?case by simp
qed (use assms in simp)

lemma binit_bufs:
  "bufs (fold (\<lambda>b s. link_front b (upd_buf b f s)) [0..<n] s) i = (if i < n then f (bufs s i) else bufs s i)"
  "disk (fold (\<lambda>b s. link_front b (upd_buf b f s)) [0..<n] s) = disk s"
  "writes (fold (\<lambda>b s. link_front b (upd_buf b f s)) [0..<n] s) = writes s"
  "bio.more (fold (\<lambda>b s. link_front b (upd_buf b f s)) [0..<n] s) = bio.more s"
  by (induction n) auto

lemma binit_lru: "lru_list (binit s) (rev [0..<NBUF])"
  unfolding lru_list_def binit_def by (intro conjI binit_ring) auto

lemma binit_boot:
  assumes "\<And>i. i < NBUF \<Longrightarrow> bufs s i = zero_buf"
  shows "cache_ok (binit s)"
    and "cabs_of (binit s) = \<lparr>c_view = disk s, c_refs = (\<lambda>_. 0), c_held = (\<lambda>_. False),
           c_disk = disk s, c_writes = writes s\<rparr>"
    and "bio.more (binit s) = bio.more s"
proof -
  have bufs: "b_refcnt (bufs (binit s) i) = 0" "b_dev (bufs (binit s) i) = 0"
    "b_lock (bufs (binit s) i) = initsleeplock" if "i < NBUF" for i
    using assms that unfolding binit_def by (simp_all add: binit_bufs zero_buf_def)
  have none: "\<not> is_for (binit s) b i" if "i < NBUF" for b i
    using bufs(2) [OF that] by (simp add: is_for_def ROOTDEV_def)
  show "cache_ok (binit s)"
    by (rule cache_okI [OF binit_lru]) (use bufs none in \<open>auto simp: initsleeplock_def ROOTDEV_def\<close>)
  have c: "cached (binit s) b = None" for b using none by (simp add: cached_None)
  have "disk (binit s) = disk s" "writes (binit s) = writes s" by (simp_all add: binit_def binit_bufs)
  then show "cabs_of (binit s) = \<lparr>c_view = disk s, c_refs = (\<lambda>_. 0), c_held = (\<lambda>_. False),
           c_disk = disk s, c_writes = writes s\<rparr>"
    by (simp add: cabs_of_def fun_eq_iff view_None [OF c])
  show "bio.more (binit s) = bio.more s" by (simp add: binit_def binit_bufs)
qed

text \<open>A concrete cache, of an empty disk.\<close>

definition boot_bio :: "(u32 \<Rightarrow> block) \<Rightarrow> bio" where
  "boot_bio d = binit \<lparr>bufs = (\<lambda>_. zero_buf), bnext = (\<lambda>_. Head), bprev = (\<lambda>_. Head),
                       disk = d, writes = []\<rparr>"

lemma boot_bio_ok:
  "cache_ok (boot_bio d)"
  "cabs_of (boot_bio d) = \<lparr>c_view = d, c_refs = (\<lambda>_. 0), c_held = (\<lambda>_. False),
     c_disk = d, c_writes = []\<rparr>"
  unfolding boot_bio_def by (subst binit_boot; simp)+

section \<open>Properties\<close>

text \<open>
  Claim C3. \<open>bread\<close> never fails on a block that is not locked, as long as the block has a buffer
  in use or one of the buffers is not in use: it returns a buffer, locked for the caller, that
  holds the current contents of the block, whether they are only in the cache or only on the
  disk. No block changes, on the disk or as clients see it; the reference count of the block
  grows by one and every other one stays.
\<close>

theorem bread_current:
  assumes "cache_ok s" "\<not> held s b" "0 < refs s b \<or> card {c. 0 < refs s c} < NBUF"
  shows "\<exists>i s'. bread pid ROOTDEV b s = Inr (i, s') \<and> cache_ok s' \<and>
    b_data (bufs s' i) = cview s b \<and> b_blockno (bufs s' i) = b \<and>
    holdingsleep pid (b_lock (bufs s' i)) \<and>
    cview s' = cview s \<and> disk s' = disk s \<and> writes s' = writes s \<and>
    refs s' = (refs s)(b := refs s b + 1) \<and> held s' = (held s)(b := True)"
proof -
  have "\<not> c_held (cabs_of s) b" "room b (cabs_of s)"
    using assms(2,3) by (simp_all add: cabs_of_def room_def)
  then obtain i s' where s': "bread pid ROOTDEV b s = Inr (i, s')"
    "cache_step b (a_bread b (cabs_of s)) s s'" "owns pid i b s'"
    using bread_step [OF assms(1)] by blast
  moreover have "cache_ok s'" "cabs_of s' = a_bread b (cabs_of s)"
    using s'(2) by (auto simp: cache_step_def)
  moreover have "b_data (bufs s' i) = c_view (cabs_of s') b" using owns_view(1) calculation by blast
  ultimately show ?thesis
    using owned_buf [OF s'(3)] by (intro exI [of _ i] exI [of _ s'])
      (auto simp: cabs_of_def a_bread_def)
qed

theorem bread_current_witness:
  "\<exists>i s'. bread 3 ROOTDEV 7 (boot_bio (\<lambda>b k. of_nat (unat b + k))) = Inr (i, s') \<and> cache_ok s' \<and>
    b_data (bufs s' i) = (\<lambda>k. of_nat (7 + k))"
proof -
  let ?s = "boot_bio (\<lambda>b k. of_nat (unat b + k))"
  have v: "\<not> held ?s 7" "refs ?s = (\<lambda>_. 0)" "cview ?s 7 = (\<lambda>k. of_nat (7 + k))"
    using boot_bio_ok(2) [of "\<lambda>b k. of_nat (unat b + k)"] by (auto simp: cabs_of_def)
  show ?thesis
    using bread_current [of ?s 7 3] boot_bio_ok(1) v by (auto simp: NBUF_def)
qed

text \<open>
  Claim C28. Replacement order. With the ring listing the buffers as \<open>xs\<close>, \<open>bget\<close> returns the
  buffer of the block when there is one, and otherwise recycles the last unreferenced buffer of
  \<open>xs\<close>, for the new block and not valid; it panics only when there is none.
\<close>

theorem bget_replacement:
  assumes "lru_list s xs"
  shows "bget pid dev b s =
    (case filter (\<lambda>i. b_dev (bufs s i) = dev \<and> b_blockno (bufs s i) = b) xs of
       i # _ \<Rightarrow> lock_buf pid i (upd_buf i (\<lambda>x. x\<lparr>b_refcnt := b_refcnt x + 1\<rparr>) s)
     | [] \<Rightarrow>
         if filter (\<lambda>i. b_refcnt (bufs s i) = 0) xs = [] then Inl (Panic ''bget: no buffers'')
         else let i = last (filter (\<lambda>i. b_refcnt (bufs s i) = 0) xs) in
           lock_buf pid i (upd_buf i (\<lambda>x. x\<lparr>b_dev := dev, b_blockno := b, b_valid := False,
                                             b_refcnt := 1\<rparr>) s))"
proof -
  show ?thesis
    unfolding bget_def walk_ring_next [OF assms] walk_ring_prev [OF assms] find_rev_filter
    unfolding find_filter by (simp add: Let_def split: list.splits)
qed

theorem bget_replacement_witness:
  "\<exists>s'. bget 3 ROOTDEV 7 (boot_bio (\<lambda>_ _. 0)) = Inr (0, s')"
proof -
  have b: "bufs (boot_bio (\<lambda>_ _. 0)) i = zero_buf" if "i < NBUF" for i
    using that by (simp add: boot_bio_def binit_def binit_bufs zero_buf_def initsleeplock_def)
  have "filter (\<lambda>i. b_dev (bufs (boot_bio (\<lambda>_ _. 0)) i) = ROOTDEV \<and>
      b_blockno (bufs (boot_bio (\<lambda>_ _. 0)) i) = 7) (rev [0..<NBUF]) = []"
    using b by (auto simp: filter_empty_conv zero_buf_def ROOTDEV_def)
  moreover have "filter (\<lambda>i. b_refcnt (bufs (boot_bio (\<lambda>_ _. 0)) i) = 0) (rev [0..<NBUF]) = rev [0..<NBUF]"
    using b by (auto simp: filter_id_conv zero_buf_def)
  moreover have "lru_list (boot_bio (\<lambda>_ _. 0)) (rev [0..<NBUF])" unfolding boot_bio_def by (rule binit_lru)
  ultimately show ?thesis
    using bget_replacement [of "boot_bio (\<lambda>_ _. 0)" "rev [0..<NBUF]" 3 ROOTDEV 7] b
    by (simp add: NBUF_def last_rev lock_buf_def acquiresleep_def zero_buf_def)
qed

text \<open>
  Claim C29. Releasing the last reference moves the buffer to the front of the ring, the place of
  the most recently used one, and leaves the order of the others; releasing any other reference
  leaves the whole ring. Together with the replacement order this makes the cache recycle the
  buffer whose last reference was released longest ago.
\<close>

theorem brelse_recency:
  assumes "lru_list s xs" "i < NBUF" "holdingsleep pid (b_lock (bufs s i))" "0 < b_refcnt (bufs s i)"
  shows "\<exists>s'. brelse pid i s = Inr s' \<and> b_refcnt (bufs s' i) = b_refcnt (bufs s i) - 1 \<and>
    \<not> sl_locked (b_lock (bufs s' i)) \<and> (\<forall>j. j \<noteq> i \<longrightarrow> bufs s' j = bufs s j) \<and>
    lru_list s' (if b_refcnt (bufs s i) = 1 then i # remove1 i xs else xs)"
proof -
  let ?t = "upd_buf i (\<lambda>x. x\<lparr>b_lock := initsleeplock, b_refcnt := b_refcnt x - 1\<rparr>) s"
  have "lru_list ?t xs" using assms(1) by (simp add: lru_list_def)
  then have "lru_list (link_front i (unlink_buf i ?t)) (i # remove1 i xs)"
    using assms(2) by (rule lru_list_relink)
  moreover have "brelse pid i s = Inr (if b_refcnt (bufs s i) = 1 then link_front i (unlink_buf i ?t) else ?t)"
    using assms(3,4) by (auto simp: brelse_def dec_ref_def upd_buf_def Let_def)
  ultimately show ?thesis using \<open>lru_list ?t xs\<close> by (simp add: initsleeplock_def)
qed

theorem brelse_recency_witness:
  "\<exists>s'. brelse 3 4 (upd_buf 4 (\<lambda>x. x\<lparr>b_refcnt := 1, b_lock := \<lparr>sl_locked = True, sl_pid = 3\<rparr>\<rparr>)
     (boot_bio (\<lambda>_ _. 0))) = Inr s' \<and> lru_list s' (4 # remove1 4 (rev [0..<NBUF]))"
proof -
  let ?s = "upd_buf 4 (\<lambda>x. x\<lparr>b_refcnt := 1, b_lock := \<lparr>sl_locked = True, sl_pid = 3\<rparr>\<rparr>)
     (boot_bio (\<lambda>_ _. 0))"
  have "lru_list (boot_bio (\<lambda>_ _. 0)) (rev [0..<NBUF])" unfolding boot_bio_def by (rule binit_lru)
  then have "lru_list ?s (rev [0..<NBUF])" by (simp add: lru_list_def)
  then show ?thesis
    using brelse_recency [of ?s "rev [0..<NBUF]" 4 3] by (auto simp: NBUF_def)
qed

end
