(* ===== verification/Write_Log.thy ===== *)
theory Write_Log
  imports Cache_Contract
begin

text \<open>
  The log (\<^verbatim>\<open>kernel/log.c\<close>): a system call brackets its disk writes between \<open>begin_op\<close> and
  \<open>end_op\<close> and passes each block to \<open>log_write\<close>; the last \<open>end_op\<close> commits. The state is that of
  the cache with the fields of \<^verbatim>\<open>struct log\<close>; a critical section under \<^verbatim>\<open>log.lock\<close> is one step.

  \<^verbatim>\<open>log.lh.block\<close> is read and written at indices below \<^verbatim>\<open>log.lh.n\<close>, which \<open>log_write\<close> keeps at most
  \<^verbatim>\<open>LOGSIZE\<close>; the one place that can exceed it is \<open>read_head\<close>, which takes the count from the disk,
  and there the model returns \<open>Undef\<close>.
\<close>

section \<open>Data\<close>

definition LOGSIZE :: nat where [layout_simps]: "LOGSIZE = 30"
definition MAXOPBLOCKS :: nat where [layout_simps]: "MAXOPBLOCKS = 10"

record log = bio +
  log_start :: u32
  log_size :: int
  outstanding :: int
  committing :: bool
  log_dev :: u32
  lh_n :: int
  lh_block :: "nat \<Rightarrow> u32"

section \<open>Operations\<close>

text \<open>A block is its \<^verbatim>\<open>BSIZE\<close> bytes, and \<^verbatim>\<open>memmove(dst, src, BSIZE)\<close> copies all of it.\<close>

definition install_one :: "int \<Rightarrow> bool \<Rightarrow> nat \<Rightarrow> 'a log_scheme \<Rightarrow> 'a log_scheme res" where
  "install_one pid recovering tail s =
     ebind (bread pid (log_dev s) (log_start s + of_nat tail + 1) s) (\<lambda>(lbuf, s).
     ebind (bread pid (log_dev s) (lh_block s tail) s) (\<lambda>(dbuf, s).
     ebind (bwrite pid dbuf (set_data dbuf (b_data (bufs s lbuf)) s)) (\<lambda>s.
     ebind (brelse pid lbuf (if \<not> recovering then bunpin dbuf s else s)) (\<lambda>s.
     brelse pid dbuf s))))"

definition install_trans :: "int \<Rightarrow> bool \<Rightarrow> 'a log_scheme \<Rightarrow> 'a log_scheme res" where
  "install_trans pid recovering s = efold (install_one pid recovering) [0..<nat (lh_n s)] s"

text \<open>The header block: \<^verbatim>\<open>int n\<close>, then \<^verbatim>\<open>int block[LOGSIZE]\<close>.\<close>

definition hdr_n :: "block \<Rightarrow> int" where
  "hdr_n d = sint (get32 d 0)"

definition hdr_block :: "block \<Rightarrow> nat \<Rightarrow> u32" where
  "hdr_block d i = get32 d (4 + 4 * i)"

definition put_hdr :: "int \<Rightarrow> (nat \<Rightarrow> u32) \<Rightarrow> block \<Rightarrow> block" where
  "put_hdr n blk d = fold (\<lambda>i. put32 (4 + 4 * i) (blk i)) [0..<nat n] (put32 0 (word_of_int n) d)"

definition read_head :: "int \<Rightarrow> 'a log_scheme \<Rightarrow> 'a log_scheme res" where
  "read_head pid s =
     ebind (bread pid (log_dev s) (log_start s) s) (\<lambda>(buf, s).
     let lh = b_data (bufs s buf); s = s\<lparr>lh_n := hdr_n lh\<rparr> in
     ebind (efold (\<lambda>i s. if i < LOGSIZE
                         then Inr (s\<lparr>lh_block := (lh_block s)(i := hdr_block lh i)\<rparr>)
                         else Inl (Undef ''log.lh.block''))
              [0..<nat (lh_n s)] s) (\<lambda>s.
     brelse pid buf s))"

definition write_head :: "int \<Rightarrow> 'a log_scheme \<Rightarrow> 'a log_scheme res" where
  "write_head pid s =
     ebind (bread pid (log_dev s) (log_start s) s) (\<lambda>(buf, s).
     ebind (bwrite pid buf
              (set_data buf (put_hdr (lh_n s) (lh_block s) (b_data (bufs s buf))) s)) (\<lambda>s.
     brelse pid buf s))"

definition recover_from_log :: "int \<Rightarrow> 'a log_scheme \<Rightarrow> 'a log_scheme res" where
  "recover_from_log pid s =
     ebind (read_head pid s) (\<lambda>s.
     ebind (install_trans pid True s) (\<lambda>s.
     write_head pid (s\<lparr>lh_n := 0\<rparr>)))"

text \<open>\<^verbatim>\<open>initlog(dev, sb)\<close>; \<open>logstart\<close> and \<open>nlog\<close> are the fields of the superblock.\<close>

definition initlog :: "int \<Rightarrow> u32 \<Rightarrow> u32 \<Rightarrow> u32 \<Rightarrow> 'a log_scheme \<Rightarrow> 'a log_scheme res" where
  "initlog pid dev logstart nlog s =
     (if 4 + 4 * LOGSIZE \<ge> BSIZE then Inl (Panic ''initlog: too big logheader'')
      else recover_from_log pid
             (s\<lparr>log_start := logstart, log_size := sint nlog, log_dev := dev\<rparr>))"

definition begin_op :: "'a log_scheme \<Rightarrow> 'a log_scheme res" where
  "begin_op s =
     (if committing s then Inl (Asleep ''log'')
      else if lh_n s + (outstanding s + 1) * int MAXOPBLOCKS > int LOGSIZE then Inl (Asleep ''log'')
      else Inr (s\<lparr>outstanding := outstanding s + 1\<rparr>))"

definition write_log_one :: "int \<Rightarrow> nat \<Rightarrow> 'a log_scheme \<Rightarrow> 'a log_scheme res" where
  "write_log_one pid tail s =
     ebind (bread pid (log_dev s) (log_start s + of_nat tail + 1) s) (\<lambda>(to, s).
     ebind (bread pid (log_dev s) (lh_block s tail) s) (\<lambda>(frm, s).
     ebind (bwrite pid to (set_data to (b_data (bufs s frm)) s)) (\<lambda>s.
     ebind (brelse pid frm s) (\<lambda>s.
     brelse pid to s))))"

definition write_log :: "int \<Rightarrow> 'a log_scheme \<Rightarrow> 'a log_scheme res" where
  "write_log pid s = efold (write_log_one pid) [0..<nat (lh_n s)] s"

definition commit :: "int \<Rightarrow> 'a log_scheme \<Rightarrow> 'a log_scheme res" where
  "commit pid s =
     (if lh_n s > 0 then
        ebind (write_log pid s) (\<lambda>s.
        ebind (write_head pid s) (\<lambda>s.
        ebind (install_trans pid False s) (\<lambda>s.
        write_head pid (s\<lparr>lh_n := 0\<rparr>))))
      else Inr s)"

definition end_op :: "int \<Rightarrow> 'a log_scheme \<Rightarrow> 'a log_scheme res" where
  "end_op pid s =
     (let s = s\<lparr>outstanding := outstanding s - 1\<rparr> in
      if committing s then Inl (Panic ''log.committing'')
      else if outstanding s = 0
      then ebind (commit pid (s\<lparr>committing := True\<rparr>)) (\<lambda>s. Inr (s\<lparr>committing := False\<rparr>))
      else Inr s)"

definition log_write :: "nat \<Rightarrow> 'a log_scheme \<Rightarrow> 'a log_scheme res" where
  "log_write b s =
     (if lh_n s \<ge> int LOGSIZE \<or> lh_n s \<ge> log_size s - 1 then Inl (Panic ''too big a transaction'')
      else if outstanding s < 1 then Inl (Panic ''log_write outside of trans'')
      else
        let i = (case scan (\<lambda>i. lh_block s i = b_blockno (bufs s b)) 0 (nat (lh_n s)) of
                   Some i \<Rightarrow> i | None \<Rightarrow> nat (lh_n s));
            s = s\<lparr>lh_block := (lh_block s)(i := b_blockno (bufs s b))\<rparr>
        in Inr (if int i = lh_n s then (bpin b s)\<lparr>lh_n := lh_n s + 1\<rparr> else s))"

section \<open>The log area\<close>

definition lblk :: "u32 \<Rightarrow> nat \<Rightarrow> u32" where
  "lblk st k = st + of_nat k + 1"

definition log_area :: "u32 \<Rightarrow> u32 set" where
  "log_area st = insert st (lblk st ` {..<LOGSIZE})"

lemma of_nat_u32_eq: "i < 2 ^ 32 \<Longrightarrow> j < 2 ^ 32 \<Longrightarrow> (of_nat i :: u32) = of_nat j \<longleftrightarrow> i = j"
  by (simp add: of_nat_inverse word_unat_eq_iff unat_of_nat)

lemma lblk_inj: "n \<le> LOGSIZE \<Longrightarrow> inj_on (lblk st) {..<n}"
  by (rule inj_onI) (auto simp: lblk_def LOGSIZE_def of_nat_u32_eq)

lemma lblk_start: "k < LOGSIZE \<Longrightarrow> lblk st k \<noteq> st"
proof
  assume "k < LOGSIZE" "lblk st k = st"
  then have "(of_nat (Suc k) :: u32) = of_nat 0" by (simp add: lblk_def add.assoc add.commute)
  then have "Suc k = 0" using \<open>k < LOGSIZE\<close> by (subst (asm) of_nat_u32_eq) (auto simp: LOGSIZE_def)
  then show False by simp
qed

lemma area_mem [simp]: "st \<in> log_area st" "k < LOGSIZE \<Longrightarrow> lblk st k \<in> log_area st"
  by (simp_all add: log_area_def)

section \<open>The log fields are above the cache\<close>

lemma log_fields_cong:
  fixes s t :: "'a log_scheme"
  assumes "bio.more s = bio.more t"
  shows "log_start s = log_start t" "log_size s = log_size t" "outstanding s = outstanding t"
    "committing s = committing t" "log_dev s = log_dev t" "lh_n s = lh_n t" "lh_block s = lh_block t"
    "log.more s = log.more t"
  using assms by (cases s; cases t; simp)+

lemma cache_ok_log [simp]:
  "cache_ok (s\<lparr>lh_n := n\<rparr>) = cache_ok s" "cache_ok (s\<lparr>lh_block := f\<rparr>) = cache_ok s"
  "cache_ok (s\<lparr>outstanding := n\<rparr>) = cache_ok s" "cache_ok (s\<lparr>committing := b\<rparr>) = cache_ok s"
  "cache_ok (s\<lparr>log_start := w, log_size := i, log_dev := d\<rparr>) = cache_ok s"
  by (simp_all add: cache_ok_def lru_list_def is_for_def)

lemma is_for_log [simp]:
  "is_for (s\<lparr>lh_n := n\<rparr>) = is_for s" "is_for (s\<lparr>lh_block := f\<rparr>) = is_for s"
  "is_for (s\<lparr>outstanding := n\<rparr>) = is_for s" "is_for (s\<lparr>committing := b\<rparr>) = is_for s"
  "is_for (s\<lparr>log_start := w, log_size := i, log_dev := d\<rparr>) = is_for s"
  by (simp_all add: is_for_def fun_eq_iff)

lemma view_log [simp]:
  "cached (s\<lparr>lh_n := n\<rparr>) = cached s" "cached (s\<lparr>lh_block := f\<rparr>) = cached s"
  "cached (s\<lparr>outstanding := n\<rparr>) = cached s" "cached (s\<lparr>committing := b\<rparr>) = cached s"
  "cached (s\<lparr>log_start := w, log_size := i, log_dev := d\<rparr>) = cached s"
  by (simp_all add: cached_def fun_eq_iff)

lemma cabs_of_log [simp]:
  "cabs_of (s\<lparr>lh_n := n\<rparr>) = cabs_of s" "cabs_of (s\<lparr>lh_block := f\<rparr>) = cabs_of s"
  "cabs_of (s\<lparr>outstanding := n\<rparr>) = cabs_of s" "cabs_of (s\<lparr>committing := b\<rparr>) = cabs_of s"
  "cabs_of (s\<lparr>log_start := w, log_size := i, log_dev := d\<rparr>) = cabs_of s"
  by (simp_all add: cabs_of_def cview_def refs_def held_def fun_eq_iff cong: option.case_cong if_cong)

lemma cabs_of_sel [simp]:
  "c_view (cabs_of s) = cview s" "c_refs (cabs_of s) = refs s" "c_held (cabs_of s) = held s"
  "c_disk (cabs_of s) = disk s" "c_writes (cabs_of s) = writes s"
  by (simp_all add: cabs_of_def)

section \<open>The steps of a commit\<close>

text \<open>
  A transaction is in memory and can be committed: its blocks are distinct, outside the log area
  and unlocked, pinned in the cache when \<open>pinned\<close> (not so in recovery), and nobody uses the
  blocks of the log area.
\<close>

definition log_ready :: "bool \<Rightarrow> 'a log_scheme \<Rightarrow> bool" where
  "log_ready pinned s \<longleftrightarrow> cache_ok s \<and> log_dev s = ROOTDEV \<and> lh_n s \<le> int LOGSIZE \<and>
     inj_on (lh_block s) {..<nat (lh_n s)} \<and>
     (\<forall>k < nat (lh_n s). lh_block s k \<notin> log_area (log_start s) \<and> \<not> held s (lh_block s k) \<and>
        (pinned \<longrightarrow> 0 < refs s (lh_block s k))) \<and>
     (\<forall>b \<in> log_area (log_start s). refs s b = 0) \<and>
     card {b. 0 < refs s b} + (if pinned then 0 else 1) < NBUF"

lemma log_readyD:
  assumes "log_ready p s"
  shows "cache_ok s" "log_dev s = ROOTDEV" "nat (lh_n s) \<le> LOGSIZE"
    "inj_on (lh_block s) {..<nat (lh_n s)}"
    "\<And>k. k < nat (lh_n s) \<Longrightarrow> lh_block s k \<notin> log_area (log_start s)"
    "\<And>k. k < nat (lh_n s) \<Longrightarrow> \<not> held s (lh_block s k)"
    "\<And>k. p \<Longrightarrow> k < nat (lh_n s) \<Longrightarrow> 0 < refs s (lh_block s k)"
    "\<And>b. b \<in> log_area (log_start s) \<Longrightarrow> refs s b = 0"
    "\<And>b. b \<in> log_area (log_start s) \<Longrightarrow> \<not> held s b"
    "\<And>b. b \<in> log_area (log_start s) \<Longrightarrow> cview s b = disk s b"
    "card {b. 0 < refs s b} < NBUF" "\<not> p \<Longrightarrow> Suc (card {b. 0 < refs s b}) < NBUF"
  using assms cview_unreferenced [of s] by (auto simp: log_ready_def)

lemma write_head_step:
  fixes s :: "'a log_scheme"
  assumes "cache_ok s" "log_dev s = ROOTDEV" "\<not> held s (log_start s)" "card {b. 0 < refs s b} < NBUF"
    and h: "h = put_hdr (lh_n s) (lh_block s) (cview s (log_start s))"
  obtains s' where "write_head pid s = Inr s'" "cache_ok s'" "bio.more s' = bio.more s"
    "cabs_of s' = (cabs_of s)\<lparr>c_view := (cview s)(log_start s := h),
       c_disk := (disk s)(log_start s := h), c_writes := writes s @ [(log_start s, h)]\<rparr>"
proof -
  have c: "\<not> c_held (cabs_of s) (log_start s)" "room (log_start s) (cabs_of s)"
    using assms(3,4) by (auto simp: room_def)
  obtain i s1 s2 s3 where r: "bread pid ROOTDEV (log_start s) s = Inr (i, s1)"
    "b_data (bufs s1 i) = c_view (cabs_of s) (log_start s)"
    "bwrite pid i (set_data i h s1) = Inr s2" "brelse pid i s2 = Inr s3" "cache_ok s3"
    "bio.more s3 = bio.more s" "bio.more s1 = bio.more s"
    "cabs_of s3 = (cabs_of s)\<lparr>c_view := (c_view (cabs_of s))(log_start s := h),
       c_disk := (c_disk (cabs_of s))(log_start s := h),
       c_writes := c_writes (cabs_of s) @ [(log_start s, h)]\<rparr>"
    using bcache.rewrite_block [OF assms(1) c, of pid h] by metis
  have "write_head pid s = Inr s3"
    using r(1-4) log_fields_cong [OF r(7)] assms(2) h by (simp add: write_head_def)
  then show thesis using that r by simp
qed

lemma write_log_step:
  fixes s :: "'a log_scheme"
  assumes r: "log_ready True s"
  defines "st \<equiv> log_start s" and "N \<equiv> nat (lh_n s)" and "new \<equiv> \<lambda>k. cview s (lh_block s k)"
  obtains s' where "write_log pid s = Inr s'" "cache_ok s'" "bio.more s' = bio.more s"
    "cabs_of s' = (cabs_of s)\<lparr>c_view := upds (lblk st) new N (cview s),
       c_disk := upds (lblk st) new N (disk s),
       c_writes := writes s @ map (\<lambda>k. (lblk st k, new k)) [0..<N]\<rparr>"
proof -
  note D = log_readyD [OF r]
  let ?a = "\<lambda>m. (cabs_of s)\<lparr>c_view := upds (lblk st) new m (cview s),
       c_disk := upds (lblk st) new m (disk s),
       c_writes := writes s @ map (\<lambda>k. (lblk st k, new k)) [0..<m]\<rparr>"
  let ?P = "\<lambda>m s'. cache_ok s' \<and> bio.more s' = bio.more s \<and> cabs_of s' = ?a m"
  have "\<exists>s'. efold (write_log_one pid) [0..<N] s = Inr s' \<and> ?P N s'"
  proof (rule efold_inv)
    fix m and t :: "'a log_scheme" assume m: "m < N" and P: "?P m t"
    note f = log_fields_cong [of t s]
    have area: "lblk st m \<in> log_area st" "lblk st m \<noteq> lh_block s m" "\<And>k. k < N \<Longrightarrow> lblk st k \<noteq> lh_block s m"
      using D(3,5) m unfolding N_def st_def by (metis area_mem(2) order_less_le_trans)+
    have src: "upds (lblk st) new m (cview s) (lh_block s m) = new m"
      unfolding new_def using area(3) m by (intro upds_other) auto
    have "0 < refs s (lh_block s m)" "\<not> held s (lh_block s m)" "\<not> held s (lblk st m)"
      using D(6,7,9) m area(1) by (auto simp: N_def st_def)
    then have "\<not> c_held (cabs_of t) (lh_block s m)" "\<not> c_held (cabs_of t) (lblk st m)"
      "lh_block s m \<noteq> lblk st m" "room (lblk st m) (cabs_of t)"
      "room (lh_block s m) (a_bread (lblk st m) (cabs_of t))" "0 < c_refs (cabs_of t) (lh_block s m)"
      using conjunct2 [OF conjunct2 [OF P]] area(2) D(11) by (auto simp: room_def a_bread_def)
    then obtain i j s1 s2 s3 s4 s5 where c: "bread pid ROOTDEV (lblk st m) t = Inr (j, s1)"
      "bread pid ROOTDEV (lh_block s m) s1 = Inr (i, s2)"
      "bwrite pid j (set_data j (b_data (bufs s2 i)) s2) = Inr s3" "brelse pid i s3 = Inr s4"
      "brelse pid j s4 = Inr s5" "cache_ok s5" "bio.more s1 = bio.more t" "bio.more s5 = bio.more t"
      "cabs_of s5 = a_copy False (lh_block s m) (lblk st m) (cabs_of t)"
      using bcache.copy_dst_first [OF conjunct1 [OF P], of "lh_block s m" "lblk st m" pid] by metis
    have "write_log_one pid m t = Inr s5"
      using c(1-5) log_fields_cong [OF c(7)] f P D(2) by (simp add: write_log_one_def lblk_def st_def)
    moreover have "?P (Suc m) s5"
      using c(6,8,9) P src by (simp add: a_copy_def)
    ultimately show "\<exists>s'. write_log_one pid m t = Inr s' \<and> ?P (Suc m) s'" by blast
  qed (use D(1) in \<open>simp add: cabs_of_def\<close>)
  then show thesis using that unfolding write_log_def N_def by blast
qed

lemma install_step:
  fixes s :: "'a log_scheme"
  assumes r: "log_ready p s"
  defines "st \<equiv> log_start s" and "N \<equiv> nat (lh_n s)" and "new \<equiv> \<lambda>k. cview s (lblk (log_start s) k)"
    and "blk \<equiv> lh_block s"
  obtains s' where "install_trans pid (\<not> p) s = Inr s'" "cache_ok s'" "bio.more s' = bio.more s"
    "cabs_of s' = (cabs_of s)\<lparr>c_view := upds blk new N (cview s), c_disk := upds blk new N (disk s),
       c_writes := writes s @ map (\<lambda>k. (blk k, new k)) [0..<N],
       c_refs := if p then upds blk (\<lambda>k. refs s (blk k) - 1) N (refs s) else refs s\<rparr>"
proof -
  note D = log_readyD [OF r]
  let ?rf = "\<lambda>m. if p then upds blk (\<lambda>k. refs s (blk k) - 1) m (refs s) else refs s"
  let ?a = "\<lambda>m. (cabs_of s)\<lparr>c_view := upds blk new m (cview s), c_disk := upds blk new m (disk s),
       c_writes := writes s @ map (\<lambda>k. (blk k, new k)) [0..<m], c_refs := ?rf m\<rparr>"
  let ?P = "\<lambda>m s'. cache_ok s' \<and> bio.more s' = bio.more s \<and> cabs_of s' = ?a m"
  have inj: "inj_on blk {..<m}" if "m \<le> N" for m
    using D(4) that unfolding blk_def N_def by (rule_tac inj_on_subset) auto
  have le: "?rf m b \<le> refs s b" if "m \<le> N" for m b
    by (rule upds_cases [OF inj [OF that], of b "\<lambda>k. refs s (blk k) - 1" "refs s"]) auto
  have card: "card {b. 0 < ?rf m b} \<le> card {b. 0 < refs s b}" if "m \<le> N" for m
    using le [OF that] by (intro card_mono) (auto intro: order_less_le_trans)
  have "\<exists>s'. efold (install_one pid (\<not> p)) [0..<N] s = Inr s' \<and> ?P N s'"
  proof (rule efold_inv)
    fix m and t :: "'a log_scheme" assume m: "m < N" and P: "?P m t"
    note f = log_fields_cong [of t s] and at = conjunct2 [OF conjunct2 [OF P]]
    have area: "lblk st m \<in> log_area st" "\<And>k. k < N \<Longrightarrow> blk k \<noteq> lblk st m"
      using D(3,5) m unfolding N_def st_def blk_def by (metis area_mem(2) order_less_le_trans)+
    have src: "upds blk new m g (lblk st m) = g (lblk st m)" for g
      using area(2) m by (intro upds_other) auto
    have dst: "upds blk v m (refs s) (blk m) = refs s (blk m)" for v
      using inj [of "Suc m"] m by (intro upds_other) (auto simp: inj_on_def)
    have ne: "lblk st m \<noteq> blk m" using area(2) [OF m] by simp
    have c0: "\<not> c_held (cabs_of t) (lblk st m)" "\<not> c_held (cabs_of t) (blk m)"
      "c_view (cabs_of t) (lblk st m) = c_disk (cabs_of t) (lblk st m)"
      "p \<Longrightarrow> 0 < c_refs (cabs_of t) (blk m)"
      using D(6,7,9,10) m area(1) src dst unfolding at by (auto simp: N_def st_def blk_def)
    have rm: "room (lblk st m) (cabs_of t)" "room (blk m) (a_bread (lblk st m) (cabs_of t))"
    proof -
      have k: "card {b. 0 < ?rf m b} < NBUF" "\<not> p \<Longrightarrow> Suc (card {b. 0 < ?rf m b}) < NBUF"
        using card [of m] m D(11,12) by auto
      then show "room (lblk st m) (cabs_of t)" unfolding at room_def by simp
      show "room (blk m) (a_bread (lblk st m) (cabs_of t))"
      proof (cases p)
        case True
        then show ?thesis using ne c0(4) by (simp add: room_def a_bread_def)
      next
        case False
        have "{b. 0 < ((refs s)(lblk st m := refs s (lblk st m) + 1)) b} = insert (lblk st m) {b. 0 < refs s b}"
          by auto
        then have "card {b. 0 < ((refs s)(lblk st m := refs s (lblk st m) + 1)) b} < NBUF"
          using k(2) False by (simp add: card_insert_if)
        then show ?thesis using False unfolding at by (simp add: room_def a_bread_def)
      qed
    qed
    obtain i j s1 s2 s3 s4 s5 where c: "bread pid ROOTDEV (lblk st m) t = Inr (i, s1)"
      "bread pid ROOTDEV (blk m) s1 = Inr (j, s2)"
      "bwrite pid j (set_data j (b_data (bufs s2 i)) s2) = Inr s3"
      "brelse pid i (if p then bunpin j s3 else s3) = Inr s4"
      "brelse pid j s4 = Inr s5" "cache_ok s5" "bio.more s1 = bio.more t" "bio.more s5 = bio.more t"
      "cabs_of s5 = a_copy p (lblk st m) (blk m) (cabs_of t)"
      using bcache.copy_src_first [OF conjunct1 [OF P] c0(1,2) ne rm disjI2 [OF c0(3)] c0(4), where pid = pid] by metis
    have "install_one pid (\<not> p) m t = Inr s5"
      using c(1-5) log_fields_cong [OF c(7)] f P D(2) by (simp add: install_one_def lblk_def st_def blk_def)
    moreover have "?P (Suc m) s5"
      using c(6,8,9) P src dst by (auto simp: a_copy_def new_def st_def)
    ultimately show "\<exists>s'. install_one pid (\<not> p) m t = Inr s' \<and> ?P (Suc m) s'" by blast
  qed (use D(1) in \<open>simp add: cabs_of_def\<close>)
  then show thesis using that unfolding install_trans_def N_def by blast
qed

section \<open>The header block\<close>

lemma get_put_hdr_block:
  "hdr_block (put_hdr n blk d) k = (if k < nat n then blk k else hdr_block d k)"
  "get32 (put_hdr n blk d) 0 = word_of_int n"
proof -
  let ?f = "\<lambda>m. fold (\<lambda>i. put32 (4 + 4 * i) (blk i)) [0..<m]"
  have z: "get32 (?f m e) 0 = get32 e 0" for m e
    by (induction m) (auto simp: getle_putle_other)
  have a: "get32 (?f m e) (4 + 4 * k) = (if k < m then blk k else get32 e (4 + 4 * k))" for m e
  proof (induction m)
    case (Suc m)
    then show ?case
      using get32_put32_array [of "Suc m" "blk m" "?f m e" "Suc k"] by auto
  qed simp
  show "hdr_block (put_hdr n blk d) k = (if k < nat n then blk k else hdr_block d k)"
    unfolding hdr_block_def put_hdr_def a by (simp add: getle_putle_other)
  show "get32 (put_hdr n blk d) 0 = word_of_int n" unfolding put_hdr_def z by simp
qed

lemma hdr_n_put_hdr: "0 \<le> n \<Longrightarrow> n \<le> int LOGSIZE \<Longrightarrow> hdr_n (put_hdr n blk d) = n"
  unfolding hdr_n_def get_put_hdr_block by (simp add: LOGSIZE_def sint_sbintrunc' signed_take_bit_int_eq_self)

section \<open>The whole commit\<close>

text \<open>The disk writes of a commit, in order, and the contents it makes permanent.\<close>

definition commit_writes :: "'a log_scheme \<Rightarrow> (u32 \<times> block) list" where
  "commit_writes s =
     (let st = log_start s; N = nat (lh_n s); blk = lh_block s;
          h = put_hdr (lh_n s) blk (cview s st)
      in map (\<lambda>k. (lblk st k, cview s (blk k))) [0..<N] @ (st, h) #
         map (\<lambda>k. (blk k, cview s (blk k))) [0..<N] @ [(st, put_hdr 0 blk h)])"

lemma log_ready_cong:
  assumes "log_ready p s" "cache_ok s'" "bio.more s' = bio.more s" "refs s' = refs s" "held s' = held s"
  shows "log_ready p s'"
  using assms(1,2,4,5) log_fields_cong [OF assms(3)] by (simp add: log_ready_def)

lemma cabs_of_eqD:
  assumes "cabs_of s = a"
  shows "cview s = c_view a" "disk s = c_disk a" "writes s = c_writes a" "refs s = c_refs a" "held s = c_held a"
  using assms by (auto simp: cabs_of_def)

text \<open>Up to the commit point: the log is written, then the header.\<close>

lemma commit_point_step:
  fixes s :: "'a log_scheme"
  assumes r: "log_ready True s"
  defines "st \<equiv> log_start s" and "N \<equiv> nat (lh_n s)" and "new \<equiv> \<lambda>k. cview s (lh_block s k)"
    and "h \<equiv> put_hdr (lh_n s) (lh_block s) (cview s (log_start s))"
  obtains s' where "ebind (write_log pid s) (write_head pid) = Inr s'" "cache_ok s'" "bio.more s' = bio.more s"
    "cview s' = (upds (lblk st) new N (cview s))(st := h)"
    "disk s' = (upds (lblk st) new N (disk s))(st := h)"
    "writes s' = writes s @ map (\<lambda>k. (lblk st k, new k)) [0..<N] @ [(st, h)]"
    "refs s' = refs s" "held s' = held s"
proof -
  note D = log_readyD [OF r]
  obtain s1 where s1: "write_log pid s = Inr s1" "cache_ok s1" "bio.more s1 = bio.more s"
    "cabs_of s1 = (cabs_of s)\<lparr>c_view := upds (lblk st) new N (cview s),
       c_disk := upds (lblk st) new N (disk s),
       c_writes := writes s @ map (\<lambda>k. (lblk st k, new k)) [0..<N]\<rparr>"
    unfolding st_def N_def new_def by (rule write_log_step [OF r])
  note f = log_fields_cong [OF s1(3)] and v = cabs_of_eqD [OF s1(4), simplified]
  have "cview s1 st = cview s st"
    unfolding v(1) using D(3) lblk_start [of _ st] by (auto simp: N_def intro!: upds_other)
  then have h: "h = put_hdr (lh_n s1) (lh_block s1) (cview s1 (log_start s1))" using f by (simp add: h_def st_def)
  have c: "log_dev s1 = ROOTDEV" "\<not> held s1 (log_start s1)" "card {b. 0 < refs s1 b} < NBUF"
    using D(2,9,11) f v(4,5) by simp_all
  obtain s2 where s2: "write_head pid s1 = Inr s2" "cache_ok s2" "bio.more s2 = bio.more s1"
    "cabs_of s2 = (cabs_of s1)\<lparr>c_view := (cview s1)(log_start s1 := h),
       c_disk := (disk s1)(log_start s1 := h), c_writes := writes s1 @ [(log_start s1, h)]\<rparr>"
    by (rule write_head_step [OF s1(2) c h])
  show thesis
    by (rule that [of s2]) (use s1 s2 v f cabs_of_eqD [OF s2(4)] in \<open>simp_all add: st_def\<close>)
qed

text \<open>After it, and in recovery: the log is installed and then erased.\<close>

lemma install_erase_step:
  fixes s :: "'a log_scheme"
  assumes r: "log_ready p s"
  defines "st \<equiv> log_start s" and "N \<equiv> nat (lh_n s)" and "new \<equiv> \<lambda>k. cview s (lblk (log_start s) k)"
    and "blk \<equiv> lh_block s" and "h \<equiv> put_hdr 0 (lh_block s) (cview s (log_start s))"
  obtains s' where "ebind (install_trans pid (\<not> p) s) (\<lambda>s. write_head pid (s\<lparr>lh_n := 0\<rparr>)) = Inr s'"
    "cache_ok s'" "bio.more s' = bio.more (s\<lparr>lh_n := 0\<rparr>)"
    "cview s' = (upds blk new N (cview s))(st := h)" "disk s' = (upds blk new N (disk s))(st := h)"
    "writes s' = writes s @ map (\<lambda>k. (blk k, new k)) [0..<N] @ [(st, h)]"
    "refs s' = (if p then upds blk (\<lambda>k. refs s (blk k) - 1) N (refs s) else refs s)" "held s' = held s"
proof -
  note D = log_readyD [OF r]
  obtain s1 where s1: "install_trans pid (\<not> p) s = Inr s1" "cache_ok s1" "bio.more s1 = bio.more s"
    "cabs_of s1 = (cabs_of s)\<lparr>c_view := upds blk new N (cview s), c_disk := upds blk new N (disk s),
       c_writes := writes s @ map (\<lambda>k. (blk k, new k)) [0..<N],
       c_refs := if p then upds blk (\<lambda>k. refs s (blk k) - 1) N (refs s) else refs s\<rparr>"
    unfolding N_def new_def blk_def by (rule install_step [OF r])
  note f = log_fields_cong [OF s1(3)] and v = cabs_of_eqD [OF s1(4), simplified]
  have "cview s1 st = cview s st"
    unfolding v(1) using D(5) by (auto simp: N_def blk_def st_def log_area_def intro!: upds_other)
  then have h: "h = put_hdr (lh_n (s1\<lparr>lh_n := 0\<rparr>)) (lh_block (s1\<lparr>lh_n := 0\<rparr>))
      (cview (s1\<lparr>lh_n := 0\<rparr>) (log_start (s1\<lparr>lh_n := 0\<rparr>)))"
    using f by (simp add: h_def st_def cview_def cong: option.case_cong if_cong)
  have le: "refs s1 b \<le> refs s b" for b
    unfolding v(4) by (rule upds_cases [OF D(4), of b "\<lambda>k. refs s (blk k) - 1" "refs s"])
      (auto simp: blk_def N_def)
  then have "card {b. 0 < refs s1 b} \<le> card {b. 0 < refs s b}"
    by (intro card_mono) (auto intro: order_less_le_trans)
  then have c: "cache_ok (s1\<lparr>lh_n := 0\<rparr>)" "log_dev (s1\<lparr>lh_n := 0\<rparr>) = ROOTDEV"
    "\<not> held (s1\<lparr>lh_n := 0\<rparr>) (log_start (s1\<lparr>lh_n := 0\<rparr>))" "card {b. 0 < refs (s1\<lparr>lh_n := 0\<rparr>) b} < NBUF"
    using cabs_of_eqD [OF cabs_of_log(1) [of 0 s1], simplified] s1(2) D(2,9,11) f v(5) by simp_all
  obtain s2 where s2: "write_head pid (s1\<lparr>lh_n := 0\<rparr>) = Inr s2" "cache_ok s2"
    "bio.more s2 = bio.more (s1\<lparr>lh_n := 0\<rparr>)"
    "cabs_of s2 = (cabs_of s1)\<lparr>c_view := (cview s1)(log_start s1 := h),
       c_disk := (disk s1)(log_start s1 := h), c_writes := writes s1 @ [(log_start s1, h)]\<rparr>"
    using cabs_of_eqD [OF cabs_of_log(1) [of 0 s1], simplified]
    by (rule_tac write_head_step [OF c h]) auto
  have "bio.more (s1\<lparr>lh_n := 0\<rparr>) = bio.more (s\<lparr>lh_n := 0\<rparr>)" using s1(3) by (cases s1; cases s; simp)
  then show thesis
    by (intro that [of s2]) (use s1 s2 v f cabs_of_eqD [OF s2(4)] in \<open>simp_all add: st_def\<close>)
qed

lemma commit_step:
  fixes s :: "'a log_scheme"
  assumes r: "log_ready True s" and pos: "0 < lh_n s"
  defines "st \<equiv> log_start s" and "N \<equiv> nat (lh_n s)" and "blk \<equiv> lh_block s"
    and "new \<equiv> \<lambda>k. cview s (lh_block s k)"
  obtains s' where "commit pid s = Inr s'" "cache_ok s'" "bio.more s' = bio.more (s\<lparr>lh_n := 0\<rparr>)"
    "writes s' = writes s @ commit_writes s"
    "\<And>b. b \<notin> log_area st \<Longrightarrow> cview s' b = cview s b"
    "\<And>b. b \<notin> log_area st \<Longrightarrow> disk s' b = upds blk new N (disk s) b" "hdr_n (disk s' st) = 0"
    "refs s' = upds blk (\<lambda>k. refs s (blk k) - 1) N (refs s)" "held s' = held s"
proof -
  note D = log_readyD [OF r]
  define h where "h = put_hdr (lh_n s) (lh_block s) (cview s (log_start s))"
  obtain s1 where s1: "ebind (write_log pid s) (write_head pid) = Inr s1" "cache_ok s1" "bio.more s1 = bio.more s"
    "cview s1 = (upds (lblk st) new N (cview s))(st := h)"
    "disk s1 = (upds (lblk st) new N (disk s))(st := h)"
    "writes s1 = writes s @ map (\<lambda>k. (lblk st k, new k)) [0..<N] @ [(st, h)]"
    "refs s1 = refs s" "held s1 = held s"
    unfolding st_def N_def new_def h_def by (rule commit_point_step [OF r])
  note f = log_fields_cong [OF s1(3)]
  have r1: "log_ready True s1" using log_ready_cong [OF r s1(2,3,7,8)] .
  define h0 where "h0 = put_hdr 0 (lh_block s1) (cview s1 (log_start s1))"
  obtain s2 where s2: "ebind (install_trans pid (\<not> True) s1) (\<lambda>s. write_head pid (s\<lparr>lh_n := 0\<rparr>)) = Inr s2"
    "cache_ok s2" "bio.more s2 = bio.more (s1\<lparr>lh_n := 0\<rparr>)"
    "cview s2 = (upds (lh_block s1) (\<lambda>k. cview s1 (lblk (log_start s1) k)) (nat (lh_n s1)) (cview s1))(log_start s1 := h0)"
    "disk s2 = (upds (lh_block s1) (\<lambda>k. cview s1 (lblk (log_start s1) k)) (nat (lh_n s1)) (disk s1))(log_start s1 := h0)"
    "writes s2 = writes s1 @ map (\<lambda>k. (lh_block s1 k, cview s1 (lblk (log_start s1) k))) [0..<nat (lh_n s1)] @ [(log_start s1, h0)]"
    "refs s2 = (if True then upds (lh_block s1) (\<lambda>k. refs s1 (lh_block s1 k) - 1) (nat (lh_n s1)) (refs s1) else refs s1)"
    "held s2 = held s1"
    unfolding h0_def by (rule install_erase_step [OF r1])
  have new1: "cview s1 (lblk st k) = new k" if "k < N" for k
    using that D(3) lblk_start [of k st] upds_at [OF lblk_inj [of N st] that] unfolding s1(4) by (simp add: N_def)
  have eqs: "upds blk (\<lambda>k. cview s1 (lblk st k)) N g = upds blk new N g"
    "map (\<lambda>k. (blk k, cview s1 (lblk st k))) [0..<N] = map (\<lambda>k. (blk k, new k)) [0..<N]" for g
    using new1 by (auto intro!: upds_cong)
  have flds: "lh_block s1 = blk" "log_start s1 = st" "nat (lh_n s1) = N"
    using f by (simp_all add: blk_def st_def N_def)
  have out: "upds (lblk st) new N g b = g b" if "b \<notin> log_area st" for g b
    using that D(3) by (intro upds_other) (auto simp: log_area_def N_def)
  show thesis
  proof (rule that [of s2])
    show "commit pid s = Inr s2"
      using pos s1(1) s2(1) by (auto simp: commit_def ebind_eq_Inr)
    show "bio.more s2 = bio.more (s\<lparr>lh_n := 0\<rparr>)" using s2(3) s1(3) by (cases s1; cases s; simp)
    show "writes s2 = writes s @ commit_writes s"
      using s2(6) s1(4,6) unfolding flds eqs
      by (simp add: commit_writes_def Let_def h0_def flds h_def new_def st_def N_def blk_def)
    show "cview s2 b = cview s b" if "b \<notin> log_area st" for b
    proof -
      have "b \<noteq> st" using that by auto
      then have c: "cview s2 b = upds blk new N (cview s1) b" using s2(4) unfolding flds eqs by simp
      show ?thesis unfolding c
        by (rule upds_cases [OF D(4) [folded blk_def N_def], of b new "cview s1"])
          (use s1(4) out [OF that] \<open>b \<noteq> st\<close> in \<open>auto simp: new_def blk_def\<close>)
    qed
    show "disk s2 b = upds blk new N (disk s) b" if "b \<notin> log_area st" for b
    proof -
      have "b \<noteq> st" using that by auto
      then have c: "disk s2 b = upds blk new N (disk s1) b" using s2(5) unfolding flds eqs by simp
      have "disk s1 b = disk s b" using s1(5) out [OF that] \<open>b \<noteq> st\<close> by simp
      then show ?thesis unfolding c by (induction N) auto
    qed
    show "hdr_n (disk s2 st) = 0" using s2(5) flds by (simp add: h0_def hdr_n_put_hdr)
  qed (use s2 s1 flds in \<open>simp_all add: blk_def\<close>)
qed

section \<open>Recovery\<close>

lemma owns_log [simp]:
  "owns pid i b (s\<lparr>lh_n := n\<rparr>) = owns pid i b s" "owns pid i b (s\<lparr>lh_block := f\<rparr>) = owns pid i b s"
  by (simp_all add: owns_def)

lemma read_head_loop:
  fixes s :: "'a log_scheme"
  assumes "n \<le> LOGSIZE"
  shows "efold (\<lambda>i s. if i < LOGSIZE then Inr (s\<lparr>lh_block := (lh_block s)(i := g i)\<rparr>)
      else Inl (Undef ''log.lh.block'')) [0..<n] s = Inr (s\<lparr>lh_block := upds (\<lambda>i. i) g n (lh_block s)\<rparr>)"
  using assms
proof (induction n)
  case (Suc n)
  have e: "upds (\<lambda>i. i) g (Suc n) (lh_block s) = (upds (\<lambda>i. i) g n (lh_block s))(n := g n)"
    by (rule ext) simp
  show ?case using Suc unfolding efold_Suc e by (simp del: fun_upd_apply)
qed simp

lemma read_head_step:
  fixes s :: "'a log_scheme"
  assumes ok: "cache_ok s" and dev: "log_dev s = ROOTDEV" and boot: "refs s = (\<lambda>_. 0)" "held s = (\<lambda>_. False)"
    and view: "cview s = disk s" and n: "hdr_n (disk s (log_start s)) \<le> int LOGSIZE"
  obtains s' where "read_head pid s = Inr s'" "cache_ok s'" "cabs_of s' = cabs_of s"
    "log_start s' = log_start s" "log_dev s' = log_dev s" "log_size s' = log_size s"
    "outstanding s' = outstanding s" "committing s' = committing s"
    "lh_n s' = hdr_n (disk s (log_start s))"
    "\<And>k. k < nat (lh_n s') \<Longrightarrow> lh_block s' k = hdr_block (disk s (log_start s)) k"
proof -
  let ?st = "log_start s"
  have "\<not> c_held (cabs_of s) ?st" "room ?st (cabs_of s)" using boot by (auto simp: room_def NBUF_def)
  then obtain i s1 where s1: "bread pid ROOTDEV ?st s = Inr (i, s1)"
    "cache_step ?st (a_bread ?st (cabs_of s)) s s1" "owns pid i ?st s1"
    using bread_step [OF ok] by blast
  have k1: "cache_ok s1" "cabs_of s1 = a_bread ?st (cabs_of s)" "bio.more s1 = bio.more s"
    using s1(2) by (auto simp: cache_step_def)
  note f = log_fields_cong [OF k1(3)]
  have d: "b_data (bufs s1 i) = disk s ?st" using owns_view(1) [OF k1(1) s1(3)] k1(2) view by (simp add: a_bread_def)
  let ?n = "hdr_n (disk s ?st)"
  let ?t = "s1\<lparr>lh_n := ?n, lh_block := upds (\<lambda>i. i) (hdr_block (disk s ?st)) (nat ?n) (lh_block s)\<rparr>"
  have t: "cache_ok ?t" "owns pid i ?st ?t" "cabs_of ?t = a_bread ?st (cabs_of s)"
    using k1 s1(3) by simp_all
  then have "c_view (cabs_of ?t) ?st = c_disk (cabs_of ?t) ?st" using view by (simp add: a_bread_def)
  then obtain s2 where s2: "brelse pid i ?t = Inr s2" "cache_step ?st (a_brelse ?st (cabs_of ?t)) ?t s2"
    using brelse_step [OF t(1,2)] by blast
  have k2: "cache_ok s2" "cabs_of s2 = a_brelse ?st (cabs_of ?t)" "bio.more s2 = bio.more ?t"
    using s2(2) by (auto simp: cache_step_def)
  have "nat ?n \<le> LOGSIZE" using n by simp
  then have "read_head pid s = Inr s2"
    using s1(1) s2(1) dev d f(7) unfolding read_head_def Let_def by (simp add: read_head_loop)
  moreover have "cabs_of s2 = cabs_of s"
    using k2(2) t(3) boot by (simp add: a_bread_def a_brelse_def fun_upd_idem cabs_of_def)
  moreover have "upds (\<lambda>i. i) g (nat ?n) u k = g k" if "k < nat ?n" for k and g u :: "nat \<Rightarrow> u32"
    using upds_at [of "\<lambda>i. i" "nat ?n" k g u] that by (simp add: inj_on_def)
  ultimately show thesis
    using that [of s2] k2(1) log_fields_cong [OF k2(3)] f by simp
qed

text \<open>The contents of the home blocks once a log on disk \<open>d\<close> is replayed.\<close>

definition replay :: "u32 \<Rightarrow> (u32 \<Rightarrow> block) \<Rightarrow> u32 \<Rightarrow> block" where
  "replay st d = upds (hdr_block (d st)) (\<lambda>k. d (lblk st k)) (nat (hdr_n (d st))) d"

definition hdr_ok :: "u32 \<Rightarrow> (u32 \<Rightarrow> block) \<Rightarrow> bool" where
  "hdr_ok st d \<longleftrightarrow> hdr_n (d st) \<le> int LOGSIZE \<and> inj_on (hdr_block (d st)) {..<nat (hdr_n (d st))} \<and>
     (\<forall>k < nat (hdr_n (d st)). hdr_block (d st) k \<notin> log_area st)"

definition recovery_writes :: "u32 \<Rightarrow> (u32 \<Rightarrow> block) \<Rightarrow> (u32 \<times> block) list" where
  "recovery_writes st d =
     map (\<lambda>k. (hdr_block (d st) k, d (lblk st k))) [0..<nat (hdr_n (d st))] @
     [(st, put32 0 0 (d st))]"

lemma initlog_step:
  fixes s :: "'a log_scheme"
  assumes ok: "cache_ok s" and boot: "refs s = (\<lambda>_. 0)" "held s = (\<lambda>_. False)" "cview s = disk s"
    and h: "hdr_ok st (disk s)"
  obtains s' where "initlog pid ROOTDEV st nlog s = Inr s'" "cache_ok s'"
    "writes s' = writes s @ recovery_writes st (disk s)"
    "disk s' = (replay st (disk s))(st := put32 0 0 (disk s st))" "cview s' = disk s'"
    "refs s' = (\<lambda>_. 0)" "held s' = (\<lambda>_. False)" "lh_n s' = 0" "log_start s' = st"
    "log_size s' = sint nlog" "log_dev s' = ROOTDEV" "outstanding s' = outstanding s" "committing s' = committing s"
proof -
  let ?s = "s\<lparr>log_start := st, log_size := sint nlog, log_dev := ROOTDEV\<rparr>"
  let ?n = "hdr_n (disk s st)"
  note v0 = cabs_of_eqD [OF cabs_of_log(5) [of ROOTDEV "sint nlog" st s], simplified]
  have a: "cache_ok ?s" "log_dev ?s = ROOTDEV" "refs ?s = (\<lambda>_. 0)" "held ?s = (\<lambda>_. False)"
    "cview ?s = disk ?s" "hdr_n (disk ?s (log_start ?s)) \<le> int LOGSIZE"
    using ok boot h v0 by (simp_all add: hdr_ok_def)
  obtain s1 where s1: "read_head pid ?s = Inr s1" "cache_ok s1" "cabs_of s1 = cabs_of ?s"
    "log_start s1 = st" "log_dev s1 = ROOTDEV" "log_size s1 = sint nlog" "outstanding s1 = outstanding s"
    "committing s1 = committing s"
    "lh_n s1 = ?n" "\<And>k. k < nat (lh_n s1) \<Longrightarrow> lh_block s1 k = hdr_block (disk s st) k"
    using read_head_step [OF a, of pid] by auto
  note v1 = cabs_of_eqD [OF s1(3), simplified]
  have r: "log_ready False s1"
    unfolding log_ready_def using s1 v1 boot h a
    by (auto simp: hdr_ok_def inj_on_def NBUF_def)
  obtain s2 where s2: "ebind (install_trans pid (\<not> False) s1) (\<lambda>s. write_head pid (s\<lparr>lh_n := 0\<rparr>)) = Inr s2"
    "cache_ok s2" "bio.more s2 = bio.more (s1\<lparr>lh_n := 0\<rparr>)"
    "cview s2 = (upds (lh_block s1) (\<lambda>k. cview s1 (lblk (log_start s1) k)) (nat (lh_n s1)) (cview s1))
       (log_start s1 := put_hdr 0 (lh_block s1) (cview s1 (log_start s1)))"
    "disk s2 = (upds (lh_block s1) (\<lambda>k. cview s1 (lblk (log_start s1) k)) (nat (lh_n s1)) (disk s1))
       (log_start s1 := put_hdr 0 (lh_block s1) (cview s1 (log_start s1)))"
    "writes s2 = writes s1 @ map (\<lambda>k. (lh_block s1 k, cview s1 (lblk (log_start s1) k))) [0..<nat (lh_n s1)] @
       [(log_start s1, put_hdr 0 (lh_block s1) (cview s1 (log_start s1)))]"
    "refs s2 = (if False then upds (lh_block s1) (\<lambda>k. refs s1 (lh_block s1 k) - 1) (nat (lh_n s1)) (refs s1) else refs s1)"
    "held s2 = held s1"
    by (rule install_erase_step [OF r])
  note f2 = log_fields_cong [OF s2(3)]
  have d1: "cview s1 = disk s" "disk s1 = disk s" "writes s1 = writes s" "refs s1 = (\<lambda>_. 0)" "held s1 = (\<lambda>_. False)"
    using v1 v0 boot by simp_all
  have e: "upds (lh_block s1) v (nat ?n) g = upds (hdr_block (disk s st)) v (nat ?n) g"
    "map (\<lambda>k. (lh_block s1 k, w k)) [0..<nat ?n] = map (\<lambda>k. (hdr_block (disk s st) k, w k)) [0..<nat ?n]" for v g w
    using s1(9,10) by (auto intro!: upds_cong)
  have h0: "put_hdr 0 f d = put32 0 0 d" for f d by (simp add: put_hdr_def)
  show thesis
  proof (rule that [of s2])
    show "initlog pid ROOTDEV st nlog s = Inr s2"
      using s1(1) s2(1) by (simp add: initlog_def recover_from_log_def LOGSIZE_def BSIZE_def)
    show "writes s2 = writes s @ recovery_writes st (disk s)"
      using s2(6) s1(4,9) unfolding d1 h0 by (simp add: e recovery_writes_def)
    show "disk s2 = (replay st (disk s))(st := put32 0 0 (disk s st))"
      using s2(5) s1(4,9) unfolding d1 h0 by (simp add: e replay_def)
    show "cview s2 = disk s2" using s2(4,5) d1 by simp
  qed (use s2 f2 d1 s1 in simp_all)
qed

end
