(* ===== verification/Log_Txn.thy ===== *)
theory Log_Txn
  imports Write_Log
begin

text \<open>
  Transactions of several system calls (\<^verbatim>\<open>kernel/log.c\<close>: \<open>begin_op\<close>, \<open>log_write\<close>, \<open>end_op\<close>): what
  \<open>log_write\<close> does to the transaction, and that the reservation of \<open>begin_op\<close> keeps the
  transaction within the log however the system calls interleave.
\<close>

section \<open>The cache operations leave the log alone\<close>

lemma bio_more_ops:
  "lock_buf pid i s = Inr (j, s') \<Longrightarrow> bio.more s' = bio.more s"
  "bget pid dev b s = Inr (j, s') \<Longrightarrow> bio.more s' = bio.more s"
  "bio.more (virtio_disk_rw i w s) = bio.more s"
  "bio.more (set_data i d s) = bio.more s" "bio.more (bunpin i s) = bio.more s"
  "bwrite pid i s = Inr s' \<Longrightarrow> bio.more s' = bio.more s"
  "brelse pid i s = Inr s' \<Longrightarrow> bio.more s' = bio.more s"
proof -
  show l: "lock_buf pid i s = Inr (j, s') \<Longrightarrow> bio.more s' = bio.more s" for i s
    by (auto simp: lock_buf_def res_simps)
  show "bget pid dev b s = Inr (j, s') \<Longrightarrow> bio.more s' = bio.more s"
    by (auto simp: bget_def res_simps split: option.splits dest!: l)
  show v: "bio.more (virtio_disk_rw i w s) = bio.more s" for i w and s :: "'a bio_scheme"
    by (simp add: virtio_disk_rw_def Let_def)
  show "bio.more (set_data i d s) = bio.more s" "bio.more (bunpin i s) = bio.more s"
    by (simp_all add: set_data_def bunpin_def)
  show "bwrite pid i s = Inr s' \<Longrightarrow> bio.more s' = bio.more s"
    by (auto simp: bwrite_def v split: if_splits)
  show "brelse pid i s = Inr s' \<Longrightarrow> bio.more s' = bio.more s"
    by (auto simp: brelse_def Let_def split: if_splits)
qed

lemma bread_more: "bread pid dev b s = Inr (j, s') \<Longrightarrow> bio.more s' = bio.more s"
  by (auto simp: bread_def res_simps bio_more_ops split: if_splits dest: bio_more_ops(2))

lemma write_head_more:
  fixes s :: "'a log_scheme"
  assumes "write_head pid s = Inr s'"
  shows "bio.more s' = bio.more s"
  using assms by (auto simp: write_head_def res_simps dest!: bread_more bio_more_ops(6,7)
      simp: bio_more_ops(4))

lemma install_one_more:
  fixes s :: "'a log_scheme"
  assumes "install_one pid r k s = Inr s'"
  shows "bio.more s' = bio.more s"
  using assms by (auto simp: install_one_def res_simps dest!: bread_more bio_more_ops(6,7)
      simp: bio_more_ops(4,5) split: if_splits)

lemma write_log_one_more:
  fixes s :: "'a log_scheme"
  assumes "write_log_one pid k s = Inr s'"
  shows "bio.more s' = bio.more s"
  using assms by (auto simp: write_log_one_def res_simps dest!: bread_more bio_more_ops(6,7)
      simp: bio_more_ops(4))

lemma efold_more:
  assumes "\<And>x s s'. f x s = Inr s' \<Longrightarrow> bio.more s' = bio.more s" "efold f xs s = Inr s'"
  shows "bio.more s' = bio.more s"
  using assms(2) by (induction xs arbitrary: s) (auto simp: res_simps dest!: assms(1))

lemma commit_fields:
  fixes s :: "'a log_scheme"
  assumes "commit pid s = Inr s'" "0 \<le> lh_n s"
  shows "lh_n s' = 0" "outstanding s' = outstanding s" "committing s' = committing s"
    "log_size s' = log_size s"
proof -
  have "bio.more s' = bio.more (s\<lparr>lh_n := 0\<rparr>)"
  proof (cases "lh_n s > 0")
    case True
    then obtain s1 s2 s3 where c: "write_log pid s = Inr s1" "write_head pid s1 = Inr s2"
      "install_trans pid False s2 = Inr s3" "write_head pid (s3\<lparr>lh_n := 0\<rparr>) = Inr s'"
      using assms(1) by (auto simp: commit_def res_simps)
    have "bio.more s3 = bio.more s"
      using efold_more [OF write_log_one_more c(1) [unfolded write_log_def]] write_head_more [OF c(2)]
        efold_more [OF install_one_more c(3) [unfolded install_trans_def]] by simp
    then have "bio.more (s3\<lparr>lh_n := 0\<rparr>) = bio.more (s\<lparr>lh_n := 0\<rparr>)" by (cases s3; cases s; simp)
    then show ?thesis using write_head_more [OF c(4)] by simp
  next
    case False
    then have "s' = s" "lh_n s = 0" using assms by (auto simp: commit_def)
    then show ?thesis by (cases s) simp
  qed
  note f = log_fields_cong [OF this]
  show "lh_n s' = 0" "outstanding s' = outstanding s" "committing s' = committing s"
    "log_size s' = log_size s" using f by simp_all
qed

section \<open>Absorption\<close>

definition logged :: "'a log_scheme \<Rightarrow> u32 set" where
  "logged s = lh_block s ` {..<nat (lh_n s)}"

lemma scan_logged:
  "scan (\<lambda>i. lh_block s i = b) 0 (nat (lh_n s)) = None \<longleftrightarrow> b \<notin> logged s"
  by (auto simp: scan_None_iff logged_def)

lemma log_write_cases:
  assumes "0 \<le> lh_n s"
  shows "log_write b s =
    (if lh_n s \<ge> int LOGSIZE \<or> lh_n s \<ge> log_size s - 1 then Inl (Panic ''too big a transaction'')
     else if outstanding s < 1 then Inl (Panic ''log_write outside of trans'')
     else if b_blockno (bufs s b) \<in> logged s then Inr s
     else Inr ((bpin b s)\<lparr>lh_block := (lh_block s)(nat (lh_n s) := b_blockno (bufs s b)),
                          lh_n := lh_n s + 1\<rparr>))"
proof (cases "scan (\<lambda>i. lh_block s i = b_blockno (bufs s b)) 0 (nat (lh_n s))")
  case None
  then have "b_blockno (bufs s b) \<notin> logged s" by (simp add: scan_logged)
  with None assms show ?thesis by (simp add: log_write_def bpin_def upd_buf_def)
next
  case (Some i)
  then have "b_blockno (bufs s b) \<in> logged s" "i < nat (lh_n s)" "lh_block s i = b_blockno (bufs s b)"
    using scan_logged [of s "b_blockno (bufs s b)"] by (auto dest: scan_SomeD)
  moreover then have "(lh_block s)(i := b_blockno (bufs s b)) = lh_block s" by (simp add: fun_upd_idem)
  ultimately show ?thesis using Some by (auto simp: log_write_def)
qed

text \<open>
  Claim C27. \<open>log_write\<close>, on every branch. It panics when the transaction is as large as the log
  or no system call is in a transaction. Otherwise a block that the transaction already has is
  absorbed, with no effect at all; a new block is appended to the header, pinned in the cache
  once, and the count grows by one.
\<close>

theorem log_write_absorbs:
  assumes "0 \<le> lh_n s"
  shows "log_write b s =
    (if lh_n s \<ge> int LOGSIZE \<or> lh_n s \<ge> log_size s - 1 then Inl (Panic ''too big a transaction'')
     else if outstanding s < 1 then Inl (Panic ''log_write outside of trans'')
     else if b_blockno (bufs s b) \<in> logged s then Inr s
     else Inr ((bpin b s)\<lparr>lh_block := (lh_block s)(nat (lh_n s) := b_blockno (bufs s b)),
                          lh_n := lh_n s + 1\<rparr>))"
  using assms by (rule log_write_cases)

definition small_log :: "int \<Rightarrow> log" where
  "small_log n = \<lparr>bufs = (\<lambda>_. zero_buf\<lparr>b_blockno := 50, b_refcnt := 1\<rparr>), bnext = (\<lambda>_. Head),
     bprev = (\<lambda>_. Head), disk = (\<lambda>_ _. 0), writes = [], log_start = 2, log_size = 31,
     outstanding = 1, committing = False, log_dev = ROOTDEV, lh_n = n, lh_block = (\<lambda>_. 50)\<rparr>"

theorem log_write_absorbs_witness:
  "log_write 0 (small_log 1) = Inr (small_log 1)"
  using log_write_absorbs [of "small_log 1" 0]
  by (simp add: small_log_def logged_def LOGSIZE_def)

section \<open>The reservation of log space\<close>

text \<open>
  System calls that run at the same time. \<open>quota\<close> gives, for each system call in a transaction,
  how many times it has called \<open>log_write\<close>; the contract of \<open>begin_op\<close> is that this is at most
  \<^verbatim>\<open>MAXOPBLOCKS\<close>. Between these steps other code may do anything to the buffers and the disk.
\<close>

record txn_sys =
  tlog :: log
  quota :: "nat \<rightharpoonup> nat"

definition txn_start :: "txn_sys \<Rightarrow> bool" where
  "txn_start t \<longleftrightarrow> lh_n (tlog t) = 0 \<and> outstanding (tlog t) = 0 \<and> \<not> committing (tlog t) \<and>
     quota t = Map.empty"

inductive txn_step :: "txn_sys \<Rightarrow> txn_sys \<Rightarrow> bool" where
  txn_begin: "begin_op (tlog t) = Inr l \<Longrightarrow> quota t c = None \<Longrightarrow>
    txn_step t \<lparr>tlog = l, quota = (quota t)(c \<mapsto> 0)\<rparr>"
| txn_write: "quota t c = Some u \<Longrightarrow> u < MAXOPBLOCKS \<Longrightarrow> log_write b (tlog t) = Inr l \<Longrightarrow>
    txn_step t \<lparr>tlog = l, quota = (quota t)(c \<mapsto> Suc u)\<rparr>"
| txn_end: "quota t c = Some u \<Longrightarrow> end_op pid (tlog t) = Inr l \<Longrightarrow>
    txn_step t \<lparr>tlog = l, quota = (quota t)(c := None)\<rparr>"
| txn_other: "bio.more l = bio.more (tlog t) \<Longrightarrow> txn_step t (t\<lparr>tlog := l\<rparr>)"

text \<open>The log space that the system calls in a transaction may still use.\<close>

definition reserved :: "(nat \<rightharpoonup> nat) \<Rightarrow> nat" where
  "reserved q = (\<Sum>c \<in> dom q. MAXOPBLOCKS - the (q c))"

definition txn_inv :: "txn_sys \<Rightarrow> bool" where
  "txn_inv t \<longleftrightarrow> finite (dom (quota t)) \<and> outstanding (tlog t) = int (card (dom (quota t))) \<and>
     \<not> committing (tlog t) \<and> 0 \<le> lh_n (tlog t) \<and>
     lh_n (tlog t) + int (reserved (quota t)) \<le> int LOGSIZE"

lemma reserved_upd:
  assumes "finite (dom q)"
  shows "reserved (q(c \<mapsto> u)) = (MAXOPBLOCKS - u) + reserved (q(c := None))"
proof -
  have "(\<Sum>x \<in> dom q - {c}. MAXOPBLOCKS - the ((q(c \<mapsto> u)) x)) = reserved (q(c := None))"
    unfolding reserved_def by (rule sum.cong) auto
  then show ?thesis using assms by (simp add: reserved_def sum.insert_remove)
qed

lemma reserved_remove:
  assumes "finite (dom q)" "q c = Some u"
  shows "reserved q = (MAXOPBLOCKS - u) + reserved (q(c := None))"
  using reserved_upd [OF assms(1), of c u] assms(2) by (simp add: fun_upd_idem)

lemma reserved_le: "finite (dom q) \<Longrightarrow> reserved q \<le> MAXOPBLOCKS * card (dom q)"
  unfolding reserved_def using sum_bounded_above [of "dom q" "\<lambda>c. MAXOPBLOCKS - the (q c)" MAXOPBLOCKS]
  by (simp add: mult.commute)

lemma log_write_n:
  assumes "log_write b s = Inr s'" "0 \<le> lh_n s"
  shows "lh_n s \<le> lh_n s'" "lh_n s' \<le> lh_n s + 1" "outstanding s' = outstanding s" "committing s' = committing s"
  using assms by (auto simp: log_write_def Let_def bpin_def upd_buf_def split: if_splits option.splits)

lemma txn_invD:
  assumes "txn_inv t"
  shows "finite (dom (quota t))" "outstanding (tlog t) = int (card (dom (quota t)))"
    "\<not> committing (tlog t)" "0 \<le> lh_n (tlog t)"
    "lh_n (tlog t) + int (reserved (quota t)) \<le> int LOGSIZE"
  using assms by (auto simp: txn_inv_def)

lemma txn_begin_inv:
  assumes i: "txn_inv s" and b: "begin_op (tlog s) = Inr l" and n: "quota s c = None"
  shows "txn_inv \<lparr>tlog = l, quota = (quota s)(c \<mapsto> 0)\<rparr>"
proof -
  note I = txn_invD [OF i]
  have g: "lh_n (tlog s) + (outstanding (tlog s) + 1) * int MAXOPBLOCKS \<le> int LOGSIZE"
    and l: "l = (tlog s)\<lparr>outstanding := outstanding (tlog s) + 1\<rparr>"
    using b by (auto simp: begin_op_def split: if_splits)
  have "reserved ((quota s)(c \<mapsto> 0)) = MAXOPBLOCKS + reserved (quota s)"
    using reserved_upd [OF I(1), of c 0] n by (simp add: fun_upd_idem)
  moreover have "int (reserved (quota s)) \<le> int MAXOPBLOCKS * outstanding (tlog s)"
    unfolding I(2) using reserved_le [OF I(1)] by (metis of_nat_le_iff of_nat_mult)
  ultimately have "lh_n l + int (reserved ((quota s)(c \<mapsto> 0))) \<le> int LOGSIZE"
    using g l by (simp add: algebra_simps)
  moreover have "c \<notin> dom (quota s)" using n by auto
  ultimately show ?thesis using I l by (simp add: txn_inv_def)
qed

lemma txn_write_inv:
  assumes i: "txn_inv s" and q: "quota s c = Some u" "u < MAXOPBLOCKS" and w: "log_write b (tlog s) = Inr l"
  shows "txn_inv \<lparr>tlog = l, quota = (quota s)(c \<mapsto> Suc u)\<rparr>"
proof -
  note I = txn_invD [OF i]
  note w = log_write_n [OF w I(4)]
  have "reserved (quota s) = Suc (reserved ((quota s)(c \<mapsto> Suc u)))"
    using reserved_upd [OF I(1), of c "Suc u"] reserved_remove [OF I(1) q(1)] q(2) by simp
  moreover have "dom ((quota s)(c \<mapsto> Suc u)) = dom (quota s)" using q(1) by auto
  ultimately show ?thesis using I w unfolding txn_inv_def by simp
qed

lemma txn_end_inv:
  assumes i: "txn_inv s" and q: "quota s c = Some u" and e: "end_op pid (tlog s) = Inr l"
  shows "txn_inv \<lparr>tlog = l, quota = (quota s)(c := None)\<rparr>"
proof -
  note I = txn_invD [OF i]
  have dom: "dom ((quota s)(c := None)) = dom (quota s) - {c}" by auto
  have "c \<in> dom (quota s)" using q by auto
  with I(1) have card: "card (dom (quota s)) = Suc (card (dom (quota s) - {c}))" by (rule card.remove)
  have r: "reserved ((quota s)(c := None)) \<le> reserved (quota s)" using reserved_remove [OF I(1) q] by simp
  have ee: "end_op pid (tlog s) = (if outstanding (tlog s) = 1
      then ebind (commit pid ((tlog s)\<lparr>outstanding := 0, committing := True\<rparr>)) (\<lambda>s. Inr (s\<lparr>committing := False\<rparr>))
      else Inr ((tlog s)\<lparr>outstanding := outstanding (tlog s) - 1\<rparr>))"
    using I(3) by (simp add: end_op_def)
  show ?thesis
  proof (cases "outstanding (tlog s) = 1")
    case True
    then have empty: "dom (quota s) - {c} = {}" using I(1,2) card by simp
    obtain l' where l': "commit pid ((tlog s)\<lparr>outstanding := 0, committing := True\<rparr>) = Inr l'"
        "l = l'\<lparr>committing := False\<rparr>"
      using e True unfolding ee ebind_eq_Inr if_P [OF True] by blast
    have "lh_n l' = 0" "outstanding l' = 0" using commit_fields [OF l'(1)] I(4) by auto
    then show ?thesis
      using l'(2) unfolding txn_inv_def reserved_def txn_sys.simps dom empty by (simp add: LOGSIZE_def)
  next
    case False
    then have "l = (tlog s)\<lparr>outstanding := outstanding (tlog s) - 1\<rparr>"
      using e unfolding ee by simp
    then show ?thesis using I r card dom by (simp add: txn_inv_def)
  qed
qed

lemma txn_inv_step: "txn_step s t \<Longrightarrow> txn_inv s \<Longrightarrow> txn_inv t"
proof (induction rule: txn_step.induct)
  case (txn_other l s)
  then show ?case using log_fields_cong [OF txn_other(1)] by (simp add: txn_inv_def)
qed (rule txn_begin_inv txn_write_inv txn_end_inv; assumption)+

interpretation txn: invariant_system txn_start txn_step txn_inv
proof
  show "txn_start s \<Longrightarrow> txn_inv s" for s by (simp add: txn_start_def txn_inv_def reserved_def LOGSIZE_def)
qed (rule txn_inv_step)

text \<open>
  Claim C4. The reservation is enough. However the system calls interleave, a system call that
  has called \<open>log_write\<close> fewer than \<^verbatim>\<open>MAXOPBLOCKS\<close> times can call it again and it does not panic,
  provided the log on disk has room for \<^verbatim>\<open>LOGSIZE\<close> blocks after its header.
\<close>

theorem reservation_suffices:
  assumes "reach txn_start txn_step t" "quota t c = Some u" "u < MAXOPBLOCKS"
    and "log_size (tlog t) > int LOGSIZE"
  shows "\<exists>l. log_write b (tlog t) = Inr l"
proof -
  have i: "txn_inv t" using txn.reach_inv [OF assms(1)] .
  then have fin: "finite (dom (quota t))" by (simp add: txn_inv_def)
  have "1 \<le> reserved (quota t)" using reserved_remove [OF fin assms(2)] assms(3) by simp
  moreover have "0 < card (dom (quota t))" using fin assms(2) by (auto simp: card_gt_0_iff)
  ultimately have "lh_n (tlog t) < int LOGSIZE" "outstanding (tlog t) \<ge> 1" using i by (auto simp: txn_inv_def)
  then show ?thesis using assms(4) by (auto simp: log_write_def Let_def)
qed

theorem reservation_suffices_witness:
  "\<exists>t l. reach txn_start txn_step t \<and> quota t 7 = Some 0 \<and> log_write 3 (tlog t) = Inr l"
proof -
  let ?l = "(small_log 0)\<lparr>outstanding := 0\<rparr>"
  let ?s = "\<lparr>tlog = ?l, quota = Map.empty\<rparr>"
  have "reach txn_start txn_step ?s" by (rule reach_start) (simp add: txn_start_def small_log_def)
  moreover have "begin_op ?l = Inr (small_log 0)"
    by (simp add: begin_op_def small_log_def LOGSIZE_def MAXOPBLOCKS_def)
  then have "txn_step ?s \<lparr>tlog = small_log 0, quota = (quota ?s)(7 \<mapsto> 0)\<rparr>"
    by (intro txn_begin) simp_all
  ultimately have "reach txn_start txn_step \<lparr>tlog = small_log 0, quota = (quota ?s)(7 \<mapsto> 0)\<rparr>"
    by (rule reach_step)
  from reservation_suffices [OF this, of 7 0 3] this show ?thesis
    by (force simp: small_log_def LOGSIZE_def MAXOPBLOCKS_def)
qed

end
