(* ===== verification/Log_Crash.thy ===== *)
theory Log_Crash
  imports Write_Log
begin

text \<open>
  Crash safety of \<^verbatim>\<open>kernel/log.c\<close>. The disk after a crash is the disk before the commit with some
  prefix of the writes of the commit applied. Booting from it runs \<open>initlog\<close>, which may itself be
  cut short by a crash, any number of times.
\<close>

section \<open>Disks after a crash\<close>

definition apply_writes :: "(u32 \<Rightarrow> block) \<Rightarrow> (u32 \<times> block) list \<Rightarrow> u32 \<Rightarrow> block" where
  "apply_writes d ws = fold (\<lambda>(b, x) m. m(b := x)) ws d"

lemma apply_writes_append: "apply_writes d (xs @ ys) = apply_writes (apply_writes d xs) ys"
  by (simp add: apply_writes_def)

lemma apply_writes_simps [simp]:
  "apply_writes d [] = d" "apply_writes d ((b, x) # ws) = apply_writes (d(b := x)) ws"
  by (simp_all add: apply_writes_def)

lemma apply_writes_map: "apply_writes d (map (\<lambda>k. (dst k, v k)) [0..<n]) = upds dst v n d"
  by (induction n) (simp_all add: apply_writes_append)

text \<open>The kernel's memory at boot: zeroed, then \<open>binit\<close>.\<close>

definition boot_log :: "(u32 \<Rightarrow> block) \<Rightarrow> log" where
  "boot_log d = binit \<lparr>bufs = (\<lambda>_. zero_buf), bnext = (\<lambda>_. Head), bprev = (\<lambda>_. Head),
     disk = d, writes = [], log_start = 0, log_size = 0, outstanding = 0, committing = False,
     log_dev = 0, lh_n = 0, lh_block = (\<lambda>_. 0)\<rparr>"

lemma boot_log_ok:
  "cache_ok (boot_log d)" "cview (boot_log d) = d" "disk (boot_log d) = d" "writes (boot_log d) = []"
  "refs (boot_log d) = (\<lambda>_. 0)" "held (boot_log d) = (\<lambda>_. False)"
  "outstanding (boot_log d) = 0" "committing (boot_log d) = False"
proof -
  let ?s = "\<lparr>bufs = (\<lambda>_. zero_buf), bnext = (\<lambda>_. Head), bprev = (\<lambda>_. Head),
     disk = d, writes = [], log_start = 0, log_size = 0, outstanding = 0, committing = False,
     log_dev = 0, lh_n = 0, lh_block = (\<lambda>_. 0)\<rparr> :: log"
  have b: "boot_log d = binit ?s" by (simp add: boot_log_def)
  have z: "bufs ?s i = zero_buf" for i by simp
  note B = binit_boot [of ?s, OF z]
  show "cache_ok (boot_log d)" unfolding b by (rule B(1))
  show "cview (boot_log d) = d" "disk (boot_log d) = d" "writes (boot_log d) = []"
    "refs (boot_log d) = (\<lambda>_. 0)" "held (boot_log d) = (\<lambda>_. False)"
    unfolding b using cabs_of_eqD [OF B(2)] by simp_all
  show "outstanding (boot_log d) = 0" "committing (boot_log d) = False"
    unfolding b using log_fields_cong [OF B(3)] by simp_all
qed

text \<open>A boot cut short after \<open>k\<close> of its disk writes.\<close>

inductive reboot :: "int \<Rightarrow> u32 \<Rightarrow> u32 \<Rightarrow> (u32 \<Rightarrow> block) \<Rightarrow> (u32 \<Rightarrow> block) \<Rightarrow> bool" for pid st nlog where
  reboot_cut: "initlog pid ROOTDEV st nlog (boot_log d) = Inr s \<Longrightarrow>
    reboot pid st nlog d (apply_writes d (take k (writes s)))"

inductive_cases reboot_cutE: "reboot pid st nlog d d'"

section \<open>Replaying a partly installed log\<close>

lemma upds_point: "f x = g x \<Longrightarrow> upds dst v n f x = upds dst v n g x"
  by (induction n) auto

lemma upds_twice:
  assumes "inj_on dst {..<n}" "m \<le> n"
  shows "upds dst v n (upds dst v m f) = upds dst v n f"
proof
  fix x show "upds dst v n (upds dst v m f) x = upds dst v n f x"
  proof (rule upds_cases [OF assms(1), of x v f])
    fix k assume "k < n" "x = dst k" "upds dst v n f x = v k"
    then show ?thesis using upds_at [OF assms(1)] by simp
  next
    assume *: "\<forall>k < n. dst k \<noteq> x" "upds dst v n f x = f x"
    then have "upds dst v m f x = f x" using assms(2) by (intro upds_other) auto
    with * show ?thesis by (simp add: upds_other)
  qed
qed

lemma lblk_area: "hdr_ok st d \<Longrightarrow> k < nat (hdr_n (d st)) \<Longrightarrow> lblk st k \<in> log_area st"
  by (auto simp: hdr_ok_def log_area_def)

text \<open>Installing some of the blocks changes neither the log nor what replaying it gives.\<close>

lemma replay_stable:
  assumes h: "hdr_ok st d" and m: "m \<le> nat (hdr_n (d st))"
  defines "d' \<equiv> upds (hdr_block (d st)) (\<lambda>k. d (lblk st k)) m d"
  shows "hdr_ok st d'" "replay st d' = replay st d"
proof -
  have area: "d' b = d b" if "b \<in> log_area st" for b
    unfolding d'_def using h m that by (intro upds_other) (auto simp: hdr_ok_def)
  have st: "d' st = d st" by (simp add: area)
  show "hdr_ok st d'" using h by (simp add: hdr_ok_def st)
  have "replay st d' = upds (hdr_block (d st)) (\<lambda>k. d (lblk st k)) (nat (hdr_n (d st))) d'"
    unfolding replay_def st using area lblk_area [OF h] by (auto intro!: upds_cong)
  also have "\<dots> = replay st d"
    unfolding d'_def replay_def using h m by (intro upds_twice) (auto simp: hdr_ok_def)
  finally show "replay st d' = replay st d" .
qed

text \<open>A disk with an empty log is its own replay.\<close>

lemma replay_empty: "hdr_n (d st) = 0 \<Longrightarrow> hdr_ok st d \<and> replay st d = d"
  by (simp add: hdr_ok_def replay_def)

lemma hdr_n_erased: "hdr_n (put32 0 0 d) = 0"
  by (simp add: hdr_n_def)

definition same_home :: "u32 \<Rightarrow> (u32 \<Rightarrow> block) \<Rightarrow> (u32 \<Rightarrow> block) \<Rightarrow> bool" where
  "same_home st d d' \<longleftrightarrow> (\<forall>b. b \<notin> log_area st \<longrightarrow> d b = d' b)"

lemma same_home_refl [simp]: "same_home st d d"
  by (simp add: same_home_def)

lemma same_home_trans: "same_home st d e \<Longrightarrow> same_home st e f \<Longrightarrow> same_home st d f"
  by (simp add: same_home_def)

text \<open>
  Installing a prefix of the log and then erasing it, the last phase of a commit and the whole of
  a recovery: after each prefix of the writes the log replays to the same contents.
\<close>

lemma install_prefix:
  fixes j :: nat
  assumes h: "hdr_ok st d"
    and ws: "ws = map (\<lambda>k. (hdr_block (d st) k, d (lblk st k))) [0..<nat (hdr_n (d st))] @ [(st, e)]"
    and e: "hdr_n e = 0"
  defines "d' \<equiv> apply_writes d (take j ws)"
  shows "hdr_ok st d' \<and> same_home st (replay st d') (replay st d)"
proof -
  let ?N = "nat (hdr_n (d st))"
  let ?f = "\<lambda>k. (hdr_block (d st) k, d (lblk st k))"
  show ?thesis
  proof (cases "j \<le> ?N")
    case True
    then have "take j ws = map ?f [0..<j]" by (simp add: ws take_map)
    then have "d' = upds (hdr_block (d st)) (\<lambda>k. d (lblk st k)) j d" by (simp add: d'_def apply_writes_map)
    then show ?thesis using replay_stable [OF h True] by simp
  next
    case False
    then have "take j ws = ws" by (simp add: ws)
    then have d': "d' = (replay st d)(st := e)"
      by (simp add: d'_def ws apply_writes_append apply_writes_map replay_def)
    then have "hdr_ok st d' \<and> replay st d' = d'" using e by (intro replay_empty) simp
    then show ?thesis using d' by (auto simp: same_home_def)
  qed
qed

lemma recovery:
  assumes "hdr_ok st d"
  obtains r where "initlog pid ROOTDEV st nlog (boot_log d) = Inr r" "cache_ok r"
    "writes r = recovery_writes st d" "same_home st (disk r) (replay st d)" "hdr_n (disk r st) = 0"
    "cview r = disk r" "refs r = (\<lambda>_. 0)" "held r = (\<lambda>_. False)" "lh_n r = 0" "log_start r = st"
proof -
  have h: "hdr_ok st (disk (boot_log d))" and v: "cview (boot_log d) = disk (boot_log d)"
    using assms by (simp_all add: boot_log_ok)
  obtain r where r: "initlog pid ROOTDEV st nlog (boot_log d) = Inr r" "cache_ok r"
    "writes r = writes (boot_log d) @ recovery_writes st (disk (boot_log d))"
    "disk r = (replay st (disk (boot_log d)))(st := put32 0 0 (disk (boot_log d) st))" "cview r = disk r"
    "refs r = (\<lambda>_. 0)" "held r = (\<lambda>_. False)" "lh_n r = 0" "log_start r = st"
    using initlog_step [OF boot_log_ok(1,5,6) v h, of pid nlog] by metis
  show thesis
  proof (rule that [OF r(1,2)])
    show "same_home st (disk r) (replay st d)" using r(4) by (auto simp: same_home_def boot_log_ok)
    show "hdr_n (disk r st) = 0" using r(4) by (simp add: hdr_n_erased)
  qed (use r in \<open>simp_all add: boot_log_ok\<close>)
qed

lemma reboot_stable:
  assumes "reboot pid st nlog d d'" "hdr_ok st d"
  shows "hdr_ok st d' \<and> same_home st (replay st d') (replay st d)"
  using assms(1)
proof (rule reboot_cutE)
  fix s k assume *: "d' = apply_writes d (take k (writes s))" "initlog pid ROOTDEV st nlog (boot_log d) = Inr s"
  obtain r where "initlog pid ROOTDEV st nlog (boot_log d) = Inr r" "writes r = recovery_writes st d"
    using recovery [OF assms(2)] by metis
  then have "writes s = recovery_writes st d" using *(2) by simp
  then show ?thesis
    using install_prefix [OF assms(2) recovery_writes_def hdr_n_erased, of k] *(1) by simp
qed

lemma reboots_stable:
  assumes "(reboot pid st nlog)\<^sup>*\<^sup>* d d'" "hdr_ok st d"
  shows "hdr_ok st d' \<and> same_home st (replay st d') (replay st d)"
  using assms(1)
proof (induction rule: rtranclp_induct)
  case (step d1 d2)
  then have "hdr_ok st d2 \<and> same_home st (replay st d2) (replay st d1)" using reboot_stable by blast
  with step.IH same_home_trans show ?case by blast
qed (use assms(2) in simp)

text \<open>The contents that a commit makes permanent.\<close>

definition committed :: "'a log_scheme \<Rightarrow> u32 \<Rightarrow> block" where
  "committed s b = (if b \<in> lh_block s ` {..<nat (lh_n s)} then cview s b else disk s b)"

lemma committed_upds:
  assumes "inj_on (lh_block s) {..<nat (lh_n s)}"
  shows "upds (lh_block s) (\<lambda>k. cview s (lh_block s k)) (nat (lh_n s)) (disk s) = committed s"
proof
  fix b show "upds (lh_block s) (\<lambda>k. cview s (lh_block s k)) (nat (lh_n s)) (disk s) b = committed s b"
    by (rule upds_cases [OF assms, of b "\<lambda>k. cview s (lh_block s k)" "disk s"])
      (auto simp: committed_def)
qed

lemma commit_prefix:
  fixes s :: "'a log_scheme" and j :: nat
  assumes r: "log_ready True s" and pos: "0 < lh_n s" and e: "hdr_n (disk s (log_start s)) = 0"
  defines "d \<equiv> apply_writes (disk s) (take j (commit_writes s))"
  shows "hdr_ok (log_start s) d \<and> (same_home (log_start s) (replay (log_start s) d) (disk s) \<or>
           same_home (log_start s) (replay (log_start s) d) (committed s))"
proof -
  note D = log_readyD [OF r]
  define st where "st = log_start s"
  define N where "N = nat (lh_n s)"
  define blk where "blk = lh_block s"
  define new where "new = (\<lambda>k. cview s (blk k))"
  define h where "h = put_hdr (lh_n s) blk (cview s st)"
  let ?L = "map (\<lambda>k. (lblk st k, new k)) [0..<N]" and ?I = "map (\<lambda>k. (blk k, new k)) [0..<N] @ [(st, put_hdr 0 blk h)]"
  have cw: "commit_writes s = ?L @ (st, h) # ?I"
    by (simp add: commit_writes_def Let_def st_def N_def blk_def new_def h_def)
  have out: "upds (lblk st) new m g b = g b" if "b \<notin> log_area st \<or> b = st" "m \<le> N" for m g b
    using that D(3) lblk_start [of _ st] by (intro upds_other) (auto simp: log_area_def N_def)
  show ?thesis
  proof (cases "j \<le> N")
    case True
    then have "d = upds (lblk st) new j (disk s)" by (simp add: d_def cw take_map apply_writes_map)
    then have "d st = disk s st" "same_home st d (disk s)" using out True by (auto simp: same_home_def)
    then show ?thesis using e replay_empty [of d st] by (simp add: st_def)
  next
    case False
    define dH where "dH = (upds (lblk st) new N (disk s))(st := h)"
    obtain i where i: "j - N = Suc i" using False by (cases "j - N") auto
    then have d: "d = apply_writes dH (take i ?I)"
      by (simp add: d_def cw dH_def apply_writes_append apply_writes_map)
    have hd: "nat (hdr_n (dH st)) = N" "k < N \<Longrightarrow> hdr_block (dH st) k = blk k" for k
      using D(3) pos by (simp_all add: dH_def h_def hdr_n_put_hdr get_put_hdr_block N_def)
    have dat: "dH (lblk st k) = new k" if "k < N" for k
      using that D(3) lblk_start [of k st] upds_at [OF lblk_inj [of N st] that] by (simp add: dH_def N_def)
    have ok: "hdr_ok st dH"
      unfolding hdr_ok_def hd(1) using D(3,4,5) hd(2) pos
      by (auto simp: inj_on_def blk_def st_def N_def dH_def h_def hdr_n_put_hdr)
    have "map (\<lambda>k. (hdr_block (dH st) k, dH (lblk st k))) [0..<nat (hdr_n (dH st))] @ [(st, put_hdr 0 blk h)] = ?I"
      using hd dat by simp
    from install_prefix [OF ok this [symmetric] hdr_n_put_hdr, of i]
    have p: "hdr_ok st d \<and> same_home st (replay st d) (replay st dH)" using d by simp
    have "replay st dH = upds blk new N dH"
      unfolding replay_def hd(1) using hd(2) dat by (auto intro!: upds_cong)
    moreover have "upds blk new N dH b = upds blk new N (disk s) b" if "b \<notin> log_area st" for b
      by (rule upds_point) (use that out [of b N "disk s"] in \<open>auto simp: dH_def\<close>)
    ultimately have "same_home st (replay st dH) (committed s)"
      using committed_upds [OF D(4)] by (simp add: same_home_def new_def blk_def N_def)
    then show ?thesis using p same_home_trans unfolding st_def by blast
  qed
qed

section \<open>A transaction of one block\<close>

text \<open>Block 50 is in the cache with new contents, pinned and logged; the disk is zeroed.\<close>

definition one_block :: log where
  "one_block = (upd_buf 0 (\<lambda>x. x\<lparr>b_valid := True, b_dev := ROOTDEV, b_blockno := 50, b_refcnt := 1,
       b_data := (\<lambda>_. 7)\<rparr>) (boot_log (\<lambda>_ _. 0)))
     \<lparr>log_start := 2, log_size := 30, log_dev := ROOTDEV, lh_n := 1, lh_block := (\<lambda>_. 50)\<rparr>"

lemma one_block_view:
  "cache_ok one_block" "cview one_block = (\<lambda>_ _. 0)(50 := (\<lambda>_. 7))" "refs one_block = (\<lambda>_. 0)(50 := 1)"
  "held one_block = (\<lambda>_. False)" "disk one_block = (\<lambda>_ _. 0)"
proof -
  let ?b = "boot_log (\<lambda>_ _. 0)"
  obtain xs where xs: "lru_list ?b xs" using cache_okD(1) [OF boot_log_ok(1)] by blast
  have c: "cached ?b 50 = None"
  proof (rule ccontr)
    assume "cached ?b 50 \<noteq> None"
    then obtain i where "i < NBUF" "is_for ?b 50 i" by (auto simp: cached_None)
    then show False
      by (simp add: is_for_def boot_log_def binit_def binit_bufs zero_buf_def ROOTDEV_def split: if_splits)
  qed
  have b0: "bufs ?b 0 = zero_buf" by (simp add: boot_log_def binit_def binit_bufs zero_buf_def initsleeplock_def NBUF_def)
  let ?nb = "zero_buf\<lparr>b_valid := True, b_dev := ROOTDEV, b_blockno := 50, b_refcnt := 1, b_data := (\<lambda>_. 7)\<rparr>"
  have cl: "claims ?b 0 50" using c b0 by (simp add: claims_def NBUF_def zero_buf_def)
  have bf: "bufs one_block = (bufs ?b)(0 := ?nb)" by (simp add: one_block_def upd_buf_def b0)
  have ptr: "bnext one_block = bnext ?b" "bprev one_block = bprev ?b" "disk one_block = disk ?b"
    by (simp_all add: one_block_def)
  have lr: "lru_list one_block xs" using xs lru_list_ptrs [OF ptr(1,2)] by simp
  note R = replace_buffer [OF boot_log_ok(1) cl lr bf]
  show "cache_ok one_block" by (rule R(1)) (simp_all add: ptr)
  show "cview one_block = (\<lambda>_ _. 0)(50 := (\<lambda>_. 7))" by (subst R(2)) (simp_all add: ptr boot_log_ok)
  show "refs one_block = (\<lambda>_. 0)(50 := 1)" by (subst R(3)) (simp_all add: ptr boot_log_ok)
  have "held one_block = (held ?b)(50 := sl_locked (b_lock ?nb))" by (rule R(4)) (simp_all add: ptr)
  then show "held one_block = (\<lambda>_. False)" by (auto simp: boot_log_ok zero_buf_def)
  show "disk one_block = (\<lambda>_ _. 0)" by (simp add: ptr boot_log_ok)
qed

lemma one_block_ready:
  "log_ready True one_block" "lh_n one_block = 1" "log_start one_block = 2" "lh_block one_block = (\<lambda>_. 50)"
  "hdr_n (disk one_block 2) = 0"
proof -
  show f: "lh_n one_block = 1" "log_start one_block = 2" "lh_block one_block = (\<lambda>_. 50)"
    by (simp_all add: one_block_def)
  have no: "(50 :: u32) \<notin> log_area 2"
  proof -
    have "(50 :: u32) \<noteq> lblk 2 k" if "k < LOGSIZE" for k
    proof
      assume "(50 :: u32) = lblk 2 k"
      then have "(of_nat k :: u32) = of_nat 47" by (simp add: lblk_def algebra_simps)
      then have "k = 47" using that by (subst (asm) of_nat_u32_eq) (auto simp: LOGSIZE_def)
      then show False using that by (simp add: LOGSIZE_def)
    qed
    then show ?thesis by (auto simp: log_area_def)
  qed
  have "log_dev one_block = ROOTDEV" by (simp add: one_block_def)
  moreover have "{b. 0 < ((\<lambda>_. 0 :: nat)(50 := 1)) b} = {50 :: u32}" by auto
  ultimately show "log_ready True one_block"
    unfolding log_ready_def using one_block_view f no by (auto simp: LOGSIZE_def NBUF_def inj_on_def)
  show "hdr_n (disk one_block 2) = 0" using one_block_view by (simp add: hdr_n_def)
qed

section \<open>Properties\<close>

text \<open>
  Claim C1. Crash atomicity of the log. A transaction is ready to commit, the log on disk is
  empty, and the machine stops after any number \<open>k\<close> of the disk writes of \<open>commit\<close>; then it
  boots any number of times, each boot itself cut short at any of its disk writes. The next boot
  whose \<open>initlog\<close> runs to its end does so without a failure, and leaves every block outside the
  log area as it was on disk before the commit, or every block with the contents the transaction
  gave it: never a mixture.
\<close>

theorem commit_crash_atomic:
  assumes "log_ready True s" "0 < lh_n s" "hdr_n (disk s (log_start s)) = 0"
    and "commit pid s = Inr s'" "ws = drop (length (writes s)) (writes s')"
    and "(reboot pid' (log_start s) nlog)\<^sup>*\<^sup>* (apply_writes (disk s) (take k ws)) d"
  shows "\<exists>r. initlog pid' ROOTDEV (log_start s) nlog (boot_log d) = Inr r \<and>
    ((\<forall>b. b \<notin> log_area (log_start s) \<longrightarrow> disk r b = disk s b) \<or>
     (\<forall>b. b \<notin> log_area (log_start s) \<longrightarrow>
        disk r b = (if b \<in> lh_block s ` {..<nat (lh_n s)} then cview s b else disk s b)))"
proof -
  let ?st = "log_start s" and ?d = "apply_writes (disk s) (take k (commit_writes s))"
  obtain t where "commit pid s = Inr t" "writes t = writes s @ commit_writes s"
    using commit_step [OF assms(1,2), of pid] by metis
  then have "ws = commit_writes s" using assms(4,5) by simp
  then have b: "hdr_ok ?st d \<and> same_home ?st (replay ?st d) (replay ?st ?d)"
    and c: "same_home ?st (replay ?st ?d) (disk s) \<or> same_home ?st (replay ?st ?d) (committed s)"
    using reboots_stable assms(6) commit_prefix [OF assms(1-3), of k] by blast+
  obtain r where r: "initlog pid' ROOTDEV ?st nlog (boot_log d) = Inr r" "same_home ?st (disk r) (replay ?st d)"
    using recovery [of ?st d pid' nlog] b by metis
  have "same_home ?st (disk r) (disk s) \<or> same_home ?st (disk r) (committed s)"
    using b c r(2) same_home_trans by blast
  then show ?thesis using r(1) unfolding same_home_def committed_def by blast
qed

theorem commit_crash_atomic_witness:
  "\<exists>s'. commit 1 one_block = Inr s' \<and>
    (\<exists>r. initlog 1 ROOTDEV 2 30 (boot_log (apply_writes (\<lambda>_ _. 0) (take 2 (writes s')))) = Inr r)"
proof -
  obtain s' where s': "commit 1 one_block = Inr s'"
    by (rule commit_step [OF one_block_ready(1)]) (use one_block_ready(2) in auto)
  have w: "writes one_block = []" by (simp add: one_block_def boot_log_ok)
  then have ws: "writes s' = drop (length (writes one_block)) (writes s')" by simp
  show ?thesis
    using commit_crash_atomic [OF one_block_ready(1) _ _ s' ws rtranclp.rtrancl_refl, where k = 2 and pid' = 1 and nlog = 30]
      one_block_ready one_block_view s' by auto
qed

text \<open>
  Claim C2. A commit that is not interrupted returns, makes the logged blocks on disk equal to
  their contents in the cache, changes no other block outside the log area, changes nothing that
  the clients of the cache see there, unpins each logged block once, and leaves an empty log both
  in memory and on disk.
\<close>

theorem commit_correct:
  assumes "log_ready True s" "0 < lh_n s"
  shows "\<exists>s'. commit pid s = Inr s' \<and> cache_ok s' \<and> lh_n s' = 0 \<and> hdr_n (disk s' (log_start s)) = 0 \<and>
    (\<forall>b. b \<notin> log_area (log_start s) \<longrightarrow> cview s' b = cview s b \<and>
       disk s' b = (if b \<in> lh_block s ` {..<nat (lh_n s)} then cview s b else disk s b)) \<and>
    (\<forall>b. refs s' b = (if b \<in> lh_block s ` {..<nat (lh_n s)} then refs s b - 1 else refs s b)) \<and>
    held s' = held s"
proof -
  note D = log_readyD [OF assms(1)]
  obtain s' where s': "commit pid s = Inr s'" "cache_ok s'" "bio.more s' = bio.more (s\<lparr>lh_n := 0\<rparr>)"
    "\<And>b. b \<notin> log_area (log_start s) \<Longrightarrow> cview s' b = cview s b"
    "\<And>b. b \<notin> log_area (log_start s) \<Longrightarrow>
       disk s' b = upds (lh_block s) (\<lambda>k. cview s (lh_block s k)) (nat (lh_n s)) (disk s) b"
    "hdr_n (disk s' (log_start s)) = 0"
    "refs s' = upds (lh_block s) (\<lambda>k. refs s (lh_block s k) - 1) (nat (lh_n s)) (refs s)" "held s' = held s"
    using commit_step [OF assms, of pid] by metis
  have "refs s' b = (if b \<in> lh_block s ` {..<nat (lh_n s)} then refs s b - 1 else refs s b)" for b
    unfolding s'(7) by (rule upds_cases [OF D(4), of b "\<lambda>k. refs s (lh_block s k) - 1" "refs s"]) auto
  then show ?thesis
    using s' log_fields_cong [OF s'(3)] committed_upds [OF D(4)] by (auto simp: committed_def)
qed

theorem commit_correct_witness:
  "\<exists>s'. commit 1 one_block = Inr s' \<and> disk s' 50 = (\<lambda>_. 7) \<and> refs s' 50 = 0"
proof -
  have "(50 :: u32) \<notin> log_area 2" using one_block_ready(1,2,3,4) by (auto simp: log_ready_def)
  then show ?thesis
    using commit_correct [OF one_block_ready(1), of 1] one_block_ready(2,3,4) one_block_view by auto
qed

end
