(* ===== verification/Block_Store.thy ===== *)
theory Block_Store
  imports Log_Txn Log_Crash
begin

text \<open>
  The block store: what \<open>bread\<close>, \<open>log_write\<close> and \<open>brelse\<close> are to the file system code inside a
  transaction. A \<^verbatim>\<open>struct buf *\<close> that the code holds is named by its block number, \<^verbatim>\<open>bp->data\<close> is
  \<open>blk s b\<close>, and the device is the root device.

  The store keeps the two mistakes that the interface allows: reading a block whose buffer is
  locked sleeps (for ever, when the caller itself holds it), and releasing a buffer that was
  changed but never given to \<open>log_write\<close> loses the change. It assumes the two resources that
  \<open>begin_op\<close> reserves, buffers and log space. The last section proves that the operations of the
  buffer cache and the log implement it.
\<close>

record bstore =
  blk :: "u32 \<Rightarrow> block"
  lockd :: "u32 set"
  touched :: "u32 set"
  dirty :: "u32 set"

definition blk_read :: "u32 \<Rightarrow> 'a bstore_scheme \<Rightarrow> 'a bstore_scheme res" where
  "blk_read b s =
     (if b \<in> lockd s then Inl (Asleep ''buffer'') else Inr (s\<lparr>lockd := insert b (lockd s)\<rparr>))"

definition blk_set :: "u32 \<Rightarrow> block \<Rightarrow> 'a bstore_scheme \<Rightarrow> 'a bstore_scheme" where
  "blk_set b d s = s\<lparr>blk := (blk s)(b := d), touched := insert b (touched s)\<rparr>"

definition blk_log :: "u32 \<Rightarrow> 'a bstore_scheme \<Rightarrow> 'a bstore_scheme" where
  "blk_log b s = s\<lparr>touched := touched s - {b}, dirty := insert b (dirty s)\<rparr>"

definition blk_relse :: "u32 \<Rightarrow> 'a bstore_scheme \<Rightarrow> 'a bstore_scheme res" where
  "blk_relse b s =
     (if b \<notin> lockd s then Inl (Panic ''brelse'')
      else if b \<in> touched s - dirty s then Inl (Undef ''lost update'')
      else Inr (s\<lparr>lockd := lockd s - {b}\<rparr>))"

section \<open>The two ways the file system uses a block\<close>

text \<open>Read it and release it; or read it, change it, log it and release it.\<close>

lemma blk_read_ok [simp]: "b \<notin> lockd s \<Longrightarrow> blk_read b s = Inr (s\<lparr>lockd := insert b (lockd s)\<rparr>)"
  by (simp add: blk_read_def)

lemma blk_relse_read [simp]:
  assumes "b \<notin> L" "b \<notin> touched s"
  shows "blk_relse b (s\<lparr>lockd := insert b L\<rparr>) = Inr (s\<lparr>lockd := L\<rparr>)"
proof -
  have "insert b L - {b} = L" using assms(1) by auto
  then show ?thesis using assms(2) by (simp add: blk_relse_def)
qed

lemma blk_update [simp]:
  assumes "b \<notin> L" "b \<notin> touched s"
  shows "blk_relse b (blk_log b (blk_set b d (s\<lparr>lockd := insert b L\<rparr>))) =
    Inr (s\<lparr>blk := (blk s)(b := d), lockd := L, dirty := insert b (dirty s)\<rparr>)"
proof -
  have "insert b L - {b} = L" "insert b (touched s) - {b} = touched s" using assms by auto
  then show ?thesis by (cases s) (simp add: blk_relse_def blk_log_def blk_set_def)
qed

section \<open>The cache and the log implement the store\<close>

text \<open>
  \<open>implements s t\<close>: the cache and log \<open>s\<close> are in a transaction and show the blocks of the store
  \<open>t\<close>. A reference to a buffer is a pin of the log or a buffer held; a block that is neither
  logged nor touched is on disk as it stands.
\<close>

definition implements :: "'a log_scheme \<Rightarrow> 'b bstore_scheme \<Rightarrow> bool" where
  "implements s t \<longleftrightarrow> cache_ok s \<and> 0 \<le> lh_n s \<and> 1 \<le> outstanding s \<and>
     cview s = blk t \<and> (\<forall>b. held s b = (b \<in> lockd t)) \<and> logged s = dirty t \<and>
     (\<forall>b. refs s b = of_bool (b \<in> dirty t) + of_bool (b \<in> lockd t)) \<and>
     (\<forall>b. b \<notin> dirty t \<longrightarrow> b \<notin> touched t \<longrightarrow> disk s b = blk t b)"

text \<open>The resources that \<open>begin_op\<close> reserves.\<close>

definition log_room :: "'a log_scheme \<Rightarrow> bool" where
  "log_room s \<longleftrightarrow> lh_n s < int LOGSIZE \<and> lh_n s < log_size s - 1"

definition buf_room :: "u32 \<Rightarrow> 'b bstore_scheme \<Rightarrow> bool" where
  "buf_room b t \<longleftrightarrow> b \<in> dirty t \<or> card (dirty t \<union> lockd t) < NBUF"

lemma implementsD:
  assumes "implements s t"
  shows "cache_ok s" "0 \<le> lh_n s" "1 \<le> outstanding s" "cview s = blk t" "held s b \<longleftrightarrow> b \<in> lockd t"
    "logged s = dirty t" "refs s b = of_bool (b \<in> dirty t) + of_bool (b \<in> lockd t)"
    "b \<notin> dirty t \<Longrightarrow> b \<notin> touched t \<Longrightarrow> disk s b = blk t b"
  using assms by (auto simp: implements_def)

lemma implements_read:
  fixes s :: "'a log_scheme" and t :: "'b bstore_scheme"
  assumes i: "implements s t" and r: "buf_room b t" and ok: "blk_read b t = Inr t'"
  obtains i s' where "bread pid ROOTDEV b s = Inr (i, s')" "implements s' t'" "owns pid i b s'"
    "b_data (bufs s' i) = blk t b" "\<And>p j c. c \<noteq> b \<Longrightarrow> owns p j c s \<Longrightarrow> owns p j c s'"
proof -
  note I = implementsD [OF i]
  have b: "b \<notin> lockd t" and t': "t' = t\<lparr>lockd := insert b (lockd t)\<rparr>"
    using ok by (auto simp: blk_read_def split: if_splits)
  have "{c. 0 < refs s c} = dirty t \<union> lockd t" using I(7) by auto
  then have "\<not> c_held (cabs_of s) b" "room b (cabs_of s)"
    using b r I(5,7) by (auto simp: room_def buf_room_def)
  then obtain i s' where s': "bread pid ROOTDEV b s = Inr (i, s')"
    "cache_step b (a_bread b (cabs_of s)) s s'" "owns pid i b s'"
    using bread_step [OF I(1)] by blast
  have k: "cache_ok s'" "cabs_of s' = a_bread b (cabs_of s)" "bio.more s' = bio.more s"
    "\<And>p j c. c \<noteq> b \<Longrightarrow> owns p j c s \<Longrightarrow> owns p j c s'"
    using s'(2) by (auto simp: cache_step_def)
  note v = cabs_of_eqD [OF k(2), unfolded a_bread_def, simplified] and f = log_fields_cong [OF k(3)]
  have "logged s' = logged s" using f by (simp add: logged_def)
  then have "implements s' t'" using k(1) v f I b by (auto simp: implements_def t')
  moreover have "b_data (bufs s' i) = blk t b" using owns_view(1) [OF k(1) s'(3)] v I(4) by simp
  ultimately show thesis using that s'(1,3) k(4) by blast
qed

lemma implements_set:
  fixes s :: "'a log_scheme" and t :: "'b bstore_scheme"
  assumes i: "implements s t" and o: "owns pid i b s"
  shows "implements (set_data i d s) (blk_set b d t)" "owns pid i b (set_data i d s)"
    "c \<noteq> b \<Longrightarrow> owns p j c s \<Longrightarrow> owns p j c (set_data i d s)"
proof -
  note I = implementsD [OF i]
  have st: "cache_step b (a_set_data b d (cabs_of s)) s (set_data i d s)"
    and own: "owns pid i b (set_data i d s)"
    using set_data_step [OF I(1) o] by auto
  have k: "cache_ok (set_data i d s)" "cabs_of (set_data i d s) = a_set_data b d (cabs_of s)"
    "bio.more (set_data i d s) = bio.more s"
    using st by (auto simp: cache_step_def)
  note v = cabs_of_eqD [OF k(2), unfolded a_set_data_def, simplified] and f = log_fields_cong [OF k(3)]
  have "logged (set_data i d s) = logged s" using f by (simp add: logged_def)
  then show "implements (set_data i d s) (blk_set b d t)"
    using k(1) v f I by (auto simp: implements_def blk_set_def)
  show "owns pid i b (set_data i d s)" by (rule own)
  show "c \<noteq> b \<Longrightarrow> owns p j c s \<Longrightarrow> owns p j c (set_data i d s)" using st by (auto simp: cache_step_def)
qed

lemma implements_log:
  fixes s :: "'a log_scheme" and t :: "'b bstore_scheme"
  assumes i: "implements s t" and o: "owns pid i b s" and r: "log_room s"
  obtains s' where "log_write i s = Inr s'" "implements s' (blk_log b t)" "owns pid i b s'"
    "\<And>p j c. c \<noteq> b \<Longrightarrow> owns p j c s \<Longrightarrow> owns p j c s'"
proof -
  note I = implementsD [OF i]
  have bn: "b_blockno (bufs s i) = b" using owned_buf [OF o] by simp
  have ok: "log_write i s = (if b \<in> logged s then Inr s
      else Inr ((bpin i s)\<lparr>lh_block := (lh_block s)(nat (lh_n s) := b), lh_n := lh_n s + 1\<rparr>))"
    unfolding log_write_cases [OF I(2)] using r I(3) bn by (auto simp: log_room_def)
  show thesis
  proof (cases "b \<in> logged s")
    case True
    have "implements s (blk_log b t)"
      using i True I(6) by (auto simp: implements_def blk_log_def insert_absorb)
    then show thesis using that [of s] ok True o by simp
  next
    case False
    let ?s' = "(bpin i s)\<lparr>lh_block := (lh_block s)(nat (lh_n s) := b), lh_n := lh_n s + 1\<rparr>"
    have st: "cache_step b (a_bpin b (cabs_of s)) s (bpin i s)" and own: "owns pid i b (bpin i s)"
      using bpin_step [OF I(1) o] by auto
    have k: "cache_ok (bpin i s)" "cabs_of (bpin i s) = a_bpin b (cabs_of s)" "bio.more (bpin i s) = bio.more s"
      using st by (auto simp: cache_step_def)
    have "cabs_of ?s' = a_bpin b (cabs_of s)" using k(2) by simp
    note v = cabs_of_eqD [OF this, unfolded a_bpin_def, simplified] and f = log_fields_cong [OF k(3)]
    have n: "nat (lh_n s + 1) = Suc (nat (lh_n s))" using I(2) by simp
    have lg: "logged ?s' = insert b (logged s)"
      unfolding logged_def using n by (auto simp: lessThan_Suc image_iff)
    have "implements ?s' (blk_log b t)"
      using k(1) v f I lg False by (auto simp: implements_def blk_log_def)
    moreover have "owns pid i b ?s'" using own by simp
    moreover have "owns p j c ?s'" if "c \<noteq> b" "owns p j c s" for p j c
      using st that by (simp add: cache_step_def)
    ultimately show thesis using that [of ?s'] ok False by simp
  qed
qed

lemma implements_relse:
  fixes s :: "'a log_scheme" and t :: "'b bstore_scheme"
  assumes i: "implements s t" and o: "owns pid i b s" and ok: "blk_relse b t = Inr t'"
  obtains s' where "brelse pid i s = Inr s'" "implements s' t'"
    "\<And>p j c. c \<noteq> b \<Longrightarrow> owns p j c s \<Longrightarrow> owns p j c s'"
proof -
  note I = implementsD [OF i]
  have b: "b \<in> lockd t" "b \<in> touched t \<Longrightarrow> b \<in> dirty t" and t': "t' = t\<lparr>lockd := lockd t - {b}\<rparr>"
    using ok by (auto simp: blk_relse_def split: if_splits)
  have "1 < c_refs (cabs_of s) b \<or> c_view (cabs_of s) b = c_disk (cabs_of s) b"
    using I(4) I(7) [of b] I(8) [of b] b by (cases "b \<in> dirty t"; cases "b \<in> touched t") auto
  then obtain s' where s': "brelse pid i s = Inr s'" "cache_step b (a_brelse b (cabs_of s)) s s'"
    using brelse_step [OF I(1) o] by blast
  have k: "cache_ok s'" "cabs_of s' = a_brelse b (cabs_of s)" "bio.more s' = bio.more s"
    using s'(2) by (auto simp: cache_step_def)
  note v = cabs_of_eqD [OF k(2), unfolded a_brelse_def, simplified] and f = log_fields_cong [OF k(3)]
  have "logged s' = logged s" using f by (simp add: logged_def)
  then have "implements s' t'" using k(1) v f I b(1) by (auto simp: implements_def t')
  moreover have "owns p j c s'" if "c \<noteq> b" "owns p j c s" for p j c
    using s'(2) that by (auto simp: cache_step_def)
  ultimately show thesis using that s'(1) by blast
qed

text \<open>
  Claim C10. The cache and the log implement the block store. Inside a transaction, and with a
  buffer and a place in the log to spare, the sequence by which the file system changes a block
  (\<open>bread\<close>, assignments to the data, \<open>log_write\<close>, \<open>brelse\<close>) runs to its end on the cache and the
  log whenever it does on the store, and shows the same blocks afterwards: the changed block is
  part of the transaction, and no other block changes.
\<close>

theorem update_refines:
  fixes s :: "'a log_scheme" and t :: "'b bstore_scheme"
  assumes "implements s t" "buf_room b t" "log_room s" "b \<notin> lockd t" "b \<notin> touched t"
  shows "\<exists>i s1 s2 s3. bread pid ROOTDEV b s = Inr (i, s1) \<and> b_data (bufs s1 i) = blk t b \<and>
    log_write i (set_data i d s1) = Inr s2 \<and> brelse pid i s2 = Inr s3 \<and>
    implements s3 (t\<lparr>blk := (blk t)(b := d), dirty := insert b (dirty t)\<rparr>)"
proof -
  let ?t1 = "t\<lparr>lockd := insert b (lockd t)\<rparr>"
  obtain i s1 where s1: "bread pid ROOTDEV b s = Inr (i, s1)" "implements s1 ?t1" "owns pid i b s1"
    "b_data (bufs s1 i) = blk t b"
    by (rule implements_read [OF assms(1,2) blk_read_ok [OF assms(4)]])
  have f: "lh_n s1 = lh_n s" "log_size s1 = log_size s"
    using log_fields_cong [OF bread_more [OF s1(1)]] by simp_all
  note u = implements_set [OF s1(2,3), where d = d]
  have "log_room (set_data i d s1)"
    using assms(3) f log_fields_cong [OF bio_more_ops(4) [of i d s1]] by (simp add: log_room_def)
  then obtain s2 where s2: "log_write i (set_data i d s1) = Inr s2"
      "implements s2 (blk_log b (blk_set b d ?t1))" "owns pid i b s2"
    by (rule implements_log [OF u(1,2)])
  obtain s3 where "brelse pid i s2 = Inr s3"
      "implements s3 (t\<lparr>blk := (blk t)(b := d), lockd := lockd t, dirty := insert b (dirty t)\<rparr>)"
    by (rule implements_relse [OF s2(2,3) blk_update [OF assms(4,5)]])
  then show ?thesis using s1 s2(1) by simp
qed

theorem update_refines_witness:
  "\<exists>i s1 s2 s3. bread 1 ROOTDEV 9 ((boot_log (\<lambda>_ _. 0))\<lparr>outstanding := 1, log_size := 31\<rparr>) = Inr (i, s1) \<and>
    log_write i (set_data i (\<lambda>_. 5) s1) = Inr s2 \<and> brelse 1 i s2 = Inr s3 \<and>
    implements s3 \<lparr>blk = (\<lambda>_ _. 0)(9 := (\<lambda>_. 5)), lockd = {}, touched = {}, dirty = {9}\<rparr>"
proof -
  let ?s = "(boot_log (\<lambda>_ _. 0))\<lparr>outstanding := 1, log_size := 31\<rparr>"
  let ?t = "\<lparr>blk = (\<lambda>_ _. 0), lockd = {}, touched = {}, dirty = {}\<rparr> :: bstore"
  have n: "lh_n (boot_log d) = 0" for d
    by (simp add: boot_log_def log_fields_cong [OF binit_boot(3)])
  have "cache_ok ?s" using boot_log_ok(1) [of "\<lambda>_ _. 0"] by (simp add: cache_ok_def lru_list_def is_for_def)
  moreover have "is_for ?s = is_for (boot_log (\<lambda>_ _. 0))" by (simp add: is_for_def fun_eq_iff)
  then have "cached ?s = cached (boot_log (\<lambda>_ _. 0))" by (simp only: cached_def [abs_def])
  then have "cview ?s = cview (boot_log (\<lambda>_ _. 0))" "refs ?s = refs (boot_log (\<lambda>_ _. 0))"
    "held ?s = held (boot_log (\<lambda>_ _. 0))"
    by (simp_all add: cview_def refs_def held_def fun_eq_iff cong: option.case_cong if_cong)
  ultimately have i: "implements ?s ?t" using n by (simp add: implements_def logged_def boot_log_ok)
  have "log_room ?s" using n by (simp add: log_room_def LOGSIZE_def)
  with update_refines [OF i, of 9 1 "\<lambda>_. 5"] show ?thesis by (auto simp: buf_room_def NBUF_def)
qed

end
