(* ===== verification/Pipe_Buffer.thy ===== *)
theory Pipe_Buffer
  imports Kernel_Prelude
begin

text \<open>
  Pipes (\<^verbatim>\<open>kernel/pipe.c\<close>), and the ring buffer that pipes, the console and the UART share: an
  array indexed by free-running counters that are only reduced modulo the size of the array when
  they are used. The locale \<open>ring_buffer\<close> gives the list of entries in such a buffer and the effect
  of storing and taking one, across the wrap-around of the counters.

  \<^verbatim>\<open>copyin\<close> and \<^verbatim>\<open>copyout\<close> of one byte are parameters (\<open>None\<close>, \<open>False\<close> for the result -1). A writer
  or reader that has to wait returns \<open>PSleep\<close> with the number of bytes done; the loop goes on from
  there when the process is woken up.
\<close>

section \<open>Ring buffers\<close>

locale ring_buffer =
  fixes size :: nat and width :: "'w::len itself"
  assumes size_pos: "0 < size" and size_dvd: "size dvd 2 ^ LENGTH('w)" and size_lt: "size < 2 ^ LENGTH('w)"
begin

definition contents :: "(nat \<Rightarrow> 'b) \<Rightarrow> 'w word \<Rightarrow> 'w word \<Rightarrow> 'b list" where
  "contents d r w = map (\<lambda>k. d ((unat r + k) mod size)) [0..<unat (w - r)]"

lemma unat_mod: "unat (a + b :: 'w word) mod size = (unat a + unat b) mod size"
  using size_dvd by (simp add: unat_word_ariths mod_mod_cancel)

lemma unat_Suc_mod: "(unat (r + 1 :: 'w word) + k) mod size = (unat r + Suc k) mod size"
proof -
  have "unat (r + 1 :: 'w word) mod size = (unat r + 1) mod size"
    using size_dvd by (simp add: unat_word_ariths mod_mod_cancel)
  then show ?thesis by (metis add.assoc mod_add_left_eq plus_1_eq_Suc)
qed

lemma count_Suc: "unat (w - r :: 'w word) < size \<Longrightarrow> unat (w + 1 - r) = Suc (unat (w - r))"
proof -
  assume "unat (w - r) < size"
  then have "unat (w - r) + 1 < 2 ^ LENGTH('w)" using size_lt by simp
  then have "unat ((w - r) + 1) = Suc (unat (w - r))" by (simp add: unat_word_ariths)
  then show ?thesis by (simp add: algebra_simps)
qed

lemma count_pred: "(r :: 'w word) \<noteq> w \<Longrightarrow> unat (w - r) = Suc (unat (w - (r + 1)))"
proof -
  assume "r \<noteq> w"
  then have "w - r \<noteq> 0" by simp
  then have "unat ((w - r) - 1) = unat (w - r) - 1" "0 < unat (w - r)"
    by (simp_all add: unat_minus_one unat_gt_0)
  then show ?thesis by (simp add: algebra_simps)
qed

lemma contents_empty [simp]: "contents d r r = []"
  by (simp add: contents_def)

lemma contents_put:
  assumes "unat (w - r) < size"
  shows "contents (d(unat w mod size := c)) r (w + 1) = contents d r w @ [c]"
proof -
  let ?n = "unat (w - r)"
  have "unat (r + (w - r)) mod size = (unat r + ?n) mod size" by (rule unat_mod)
  then have w: "unat w mod size = (unat r + ?n) mod size" by simp
  have "(unat r + k) mod size \<noteq> (unat r + ?n) mod size" if "k < ?n" for k
  proof
    assume "(unat r + k) mod size = (unat r + ?n) mod size"
    then have "size dvd (unat r + ?n) - (unat r + k)" using that mod_eq_dvd_iff_nat [of "unat r + k" "unat r + ?n" size] by simp
    then have "size dvd ?n - k" by simp
    then show False using that assms by (auto dest: dvd_imp_le)
  qed
  then show ?thesis unfolding contents_def count_Suc [OF assms] w by simp
qed

lemma contents_get:
  assumes "r \<noteq> w"
  shows "contents d r w = d (unat r mod size) # contents d (r + 1) w"
proof -
  have "map (\<lambda>k. d ((unat r + k) mod size)) [0..<Suc (unat (w - (r + 1)))] =
      d (unat r mod size) # map (\<lambda>k. d ((unat r + Suc k) mod size)) [0..<unat (w - (r + 1))]"
    by (simp add: upt_conv_Cons map_Suc_upt [symmetric] comp_def del: upt_Suc)
  then show ?thesis unfolding contents_def count_pred [OF assms] unat_Suc_mod by simp
qed

lemma count_le_get: "(r :: 'w word) \<noteq> w \<Longrightarrow> unat (w - r) \<le> size \<Longrightarrow> unat (w - (r + 1)) < size"
  using count_pred by fastforce

lemma full_iff: "(w :: 'w word) = r + of_nat size \<longleftrightarrow> unat (w - r) = size"
proof
  assume "w = r + of_nat size"
  then show "unat (w - r) = size" using size_lt by (simp add: unat_of_nat)
next
  assume "unat (w - r) = size"
  then have "of_nat size = w - r" by (metis of_nat_unat ucast_id)
  then show "w = r + of_nat size" by (simp add: algebra_simps)
qed

lemma length_contents [simp]: "length (contents d r w) = unat (w - r)"
  by (simp add: contents_def)

end

section \<open>Pipes\<close>

definition PIPESIZE :: nat where [layout_simps]: "PIPESIZE = 512"

record pipe =
  p_data :: "nat \<Rightarrow> byte"
  nread :: u32
  nwrite :: u32
  readopen :: bool
  writeopen :: bool

text \<open>The result of a call: a value for the caller, or asleep with \<open>i\<close> bytes done.\<close>

datatype pres = PRet int | PSleep nat

definition pipe_init :: "(nat \<Rightarrow> byte) \<Rightarrow> pipe" where
  "pipe_init d = \<lparr>p_data = d, nread = 0, nwrite = 0, readopen = True, writeopen = True\<rparr>"

text \<open>\<open>pipeclose\<close>, and whether it frees the page of the pipe.\<close>

definition pipeclose :: "bool \<Rightarrow> pipe \<Rightarrow> pipe \<times> bool" where
  "pipeclose writable pi =
     (let pi = (if writable then pi\<lparr>writeopen := False\<rparr> else pi\<lparr>readopen := False\<rparr>)
      in (pi, \<not> readopen pi \<and> \<not> writeopen pi))"

text \<open>\<open>copyin i\<close> is the byte at \<^verbatim>\<open>addr + i\<close> of the user, or \<open>None\<close>; \<open>n\<close> may be negative.\<close>

function pipewrite_from :: "bool \<Rightarrow> (nat \<Rightarrow> byte option) \<Rightarrow> int \<Rightarrow> nat \<Rightarrow> pipe \<Rightarrow> pres \<times> pipe" where
  "pipewrite_from killed copyin n i pi =
     (if int i < n then
        if \<not> readopen pi \<or> killed then (PRet (- 1), pi)
        else if nwrite pi = nread pi + of_nat PIPESIZE then (PSleep i, pi)
        else case copyin i of
            None \<Rightarrow> (PRet (int i), pi)
          | Some ch \<Rightarrow> pipewrite_from killed copyin n (i + 1)
              (pi\<lparr>p_data := (p_data pi)(unat (nwrite pi) mod PIPESIZE := ch), nwrite := nwrite pi + 1\<rparr>)
      else (PRet (int i), pi))"
  by pat_completeness auto
termination
  by (relation "measure (\<lambda>(killed, copyin, n, i, pi). nat n - i)") auto

declare pipewrite_from.simps [simp del]

definition pipewrite :: "bool \<Rightarrow> (nat \<Rightarrow> byte option) \<Rightarrow> int \<Rightarrow> pipe \<Rightarrow> pres \<times> pipe" where
  "pipewrite killed copyin n pi = pipewrite_from killed copyin n 0 pi"

text \<open>The copying loop of \<open>piperead\<close>: the bytes it takes, oldest first, and the count returned.\<close>

function piperead_loop :: "(nat \<Rightarrow> byte \<Rightarrow> bool) \<Rightarrow> int \<Rightarrow> nat \<Rightarrow> pipe \<Rightarrow> byte list \<times> nat \<times> pipe" where
  "piperead_loop copyout n i pi =
     (if int i < n then
        if nread pi = nwrite pi then ([], i, pi)
        else
          let ch = p_data pi (unat (nread pi) mod PIPESIZE);
              pi = pi\<lparr>nread := nread pi + 1\<rparr>
          in if \<not> copyout i ch then ([], i, pi)
             else let (out, j, pi) = piperead_loop copyout n (i + 1) pi in (ch # out, j, pi)
      else ([], i, pi))"
  by pat_completeness auto
termination
  by (relation "measure (\<lambda>(copyout, n, i, pi). nat n - i)") auto

declare piperead_loop.simps [simp del]

definition piperead :: "bool \<Rightarrow> (nat \<Rightarrow> byte \<Rightarrow> bool) \<Rightarrow> int \<Rightarrow> pipe \<Rightarrow> byte list \<times> pres \<times> pipe" where
  "piperead killed copyout n pi =
     (if nread pi = nwrite pi \<and> writeopen pi
      then ([], if killed then PRet (- 1) else PSleep 0, pi)
      else let (out, i, pi) = piperead_loop copyout n 0 pi in (out, PRet (int i), pi))"

interpretation pipe_ring: ring_buffer PIPESIZE "TYPE(32)"
  by unfold_locales (simp_all add: PIPESIZE_def)

text \<open>The bytes written and not yet read, and the invariant: never more than the array holds.\<close>

definition pipe_bytes :: "pipe \<Rightarrow> byte list" where
  "pipe_bytes pi = pipe_ring.contents (p_data pi) (nread pi) (nwrite pi)"

definition pipe_ok :: "pipe \<Rightarrow> bool" where
  "pipe_ok pi \<longleftrightarrow> unat (nwrite pi - nread pi) \<le> PIPESIZE"

lemma length_pipe_bytes: "length (pipe_bytes pi) = unat (nwrite pi - nread pi)"
  by (simp add: pipe_bytes_def)

text \<open>What a write takes from the user: up to \<open>n\<close> bytes, up to the first that faults, up to the room.\<close>

lemma pipewrite_from_fifo:
  assumes "pipe_ok pi" "pipewrite_from killed copyin n i pi = (r, pi')"
  shows "\<exists>k. (\<forall>j < k. \<exists>c. copyin (i + j) = Some c) \<and>
    pipe_bytes pi' = pipe_bytes pi @ map (\<lambda>j. the (copyin (i + j))) [0..<k] \<and> pipe_ok pi' \<and>
    readopen pi' = readopen pi \<and> writeopen pi' = writeopen pi \<and> nread pi' = nread pi \<and>
    (case r of
       PRet v \<Rightarrow> if v = - 1 then int (i + k) < n \<and> (\<not> readopen pi \<or> killed)
                else v = int (i + k) \<and> (int (i + k) < n \<longrightarrow> copyin (i + k) = None)
     | PSleep m \<Rightarrow> m = i + k \<and> int m < n \<and> length (pipe_bytes pi') = PIPESIZE)"
  using assms
proof (induction killed copyin n i pi arbitrary: r pi' rule: pipewrite_from.induct)
  case (1 killed copyin n i pi)
  note unf = pipewrite_from.simps [of killed copyin n i pi]
  show ?case
  proof (cases "int i < n \<and> readopen pi \<and> \<not> killed \<and> nwrite pi \<noteq> nread pi + of_nat PIPESIZE \<and> copyin i \<noteq> None")
    case False
    have full: "length (pipe_bytes pi) = PIPESIZE" if "nwrite pi = nread pi + of_nat PIPESIZE"
      using that pipe_ring.full_iff [of "nwrite pi" "nread pi"] by (simp add: length_pipe_bytes)
    show ?thesis
      by (rule exI [of _ 0]) (use False "1.prems" full in \<open>auto simp: unf split: if_splits option.splits\<close>)
  next
    case True
    then obtain ch where ch: "copyin i = Some ch" by blast
    let ?p = "pi\<lparr>p_data := (p_data pi)(unat (nwrite pi) mod PIPESIZE := ch), nwrite := nwrite pi + 1\<rparr>"
    have lt: "unat (nwrite pi - nread pi) < PIPESIZE"
      using True "1.prems"(1) pipe_ring.full_iff [of "nwrite pi" "nread pi"] by (auto simp: pipe_ok_def)
    have ok: "pipe_ok ?p" using pipe_ring.count_Suc [OF lt] lt by (simp add: pipe_ok_def)
    have b: "pipe_bytes ?p = pipe_bytes pi @ [ch]" using pipe_ring.contents_put [OF lt] by (simp add: pipe_bytes_def)
    have e: "pipewrite_from killed copyin n (i + 1) ?p = (r, pi')" using "1.prems"(2) True ch unfolding unf by simp
    obtain k where k: "(\<forall>j < k. \<exists>c. copyin (i + 1 + j) = Some c) \<and>
      pipe_bytes pi' = pipe_bytes ?p @ map (\<lambda>j. the (copyin (i + 1 + j))) [0..<k] \<and> pipe_ok pi' \<and>
      readopen pi' = readopen ?p \<and> writeopen pi' = writeopen ?p \<and> nread pi' = nread ?p \<and>
      (case r of
         PRet v \<Rightarrow> if v = - 1 then int (i + 1 + k) < n \<and> (\<not> readopen ?p \<or> killed)
                  else v = int (i + 1 + k) \<and> (int (i + 1 + k) < n \<longrightarrow> copyin (i + 1 + k) = None)
       | PSleep m \<Rightarrow> m = i + 1 + k \<and> int m < n \<and> length (pipe_bytes pi') = PIPESIZE)"
      using "1.IH" [OF _ _ _ ch ok e] True by blast
    have all: "\<forall>j < Suc k. \<exists>c. copyin (i + j) = Some c"
      using k ch by (auto simp: less_Suc_eq_0_disj)
    have "map (\<lambda>j. the (copyin (i + j))) [0..<Suc k] = ch # map (\<lambda>j. the (copyin (i + 1 + j))) [0..<k]"
      using ch by (simp add: upt_conv_Cons map_Suc_upt [symmetric] comp_def del: upt_Suc)
    then have "pipe_bytes pi' = pipe_bytes pi @ map (\<lambda>j. the (copyin (i + j))) [0..<Suc k]" using k b by simp
    then show ?thesis
      by (intro exI [of _ "Suc k"]) (use k all in \<open>auto split: pres.splits if_splits\<close>)
  qed
qed

lemma pipe_bytes_read:
  assumes "nread pi \<noteq> nwrite pi"
  shows "pipe_bytes pi = p_data pi (unat (nread pi) mod PIPESIZE) # pipe_bytes (pi\<lparr>nread := nread pi + 1\<rparr>)"
  using pipe_ring.contents_get [OF assms] by (simp add: pipe_bytes_def)

lemma pipe_ok_read: "pipe_ok pi \<Longrightarrow> nread pi \<noteq> nwrite pi \<Longrightarrow> pipe_ok (pi\<lparr>nread := nread pi + 1\<rparr>)"
  using pipe_ring.count_le_get [of "nread pi" "nwrite pi"] by (simp add: pipe_ok_def)

lemma piperead_loop_fifo:
  assumes "pipe_ok pi" "piperead_loop copyout n i pi = (out, j, pi')"
  shows "\<exists>lost. pipe_bytes pi = out @ lost @ pipe_bytes pi' \<and> j = i + length out \<and> pipe_ok pi' \<and>
    (lost = [] \<or> (\<exists>c. lost = [c] \<and> \<not> copyout j c)) \<and>
    (int j < n \<longrightarrow> lost = [] \<longrightarrow> pipe_bytes pi' = []) \<and>
    nwrite pi' = nwrite pi \<and> readopen pi' = readopen pi \<and> writeopen pi' = writeopen pi"
  using assms
proof (induction copyout n i pi arbitrary: out j pi' rule: piperead_loop.induct)
  case (1 copyout n i pi)
  note unf = piperead_loop.simps [of copyout n i pi]
  let ?ch = "p_data pi (unat (nread pi) mod PIPESIZE)" and ?p = "pi\<lparr>nread := nread pi + 1\<rparr>"
  consider "\<not> int i < n" | "int i < n" "nread pi = nwrite pi"
    | "int i < n" "nread pi \<noteq> nwrite pi" "\<not> copyout i ?ch" | "int i < n" "nread pi \<noteq> nwrite pi" "copyout i ?ch"
    by blast
  then show ?case
  proof cases
    case 2
    then have "pipe_bytes pi = []" by (simp add: pipe_bytes_def)
    then show ?thesis using 2 "1.prems" unfolding unf by simp
  next
    case 3
    then have "out = []" "j = i" "pi' = ?p" using "1.prems"(2) unfolding unf by (auto simp: Let_def)
    then show ?thesis
      using pipe_bytes_read [OF 3(2)] pipe_ok_read [OF "1.prems"(1) 3(2)] 3(3) by (intro exI [of _ "[?ch]"]) simp
  next
    case 4
    obtain out1 where r: "piperead_loop copyout n (i + 1) ?p = (out1, j, pi')" "out = ?ch # out1"
      using 4 "1.prems"(2) unfolding unf by (auto simp: Let_def split: prod.splits)
    have "\<exists>lost. pipe_bytes ?p = out1 @ lost @ pipe_bytes pi' \<and> j = i + 1 + length out1 \<and> pipe_ok pi' \<and>
      (lost = [] \<or> (\<exists>c. lost = [c] \<and> \<not> copyout j c)) \<and>
      (int j < n \<longrightarrow> lost = [] \<longrightarrow> pipe_bytes pi' = []) \<and>
      nwrite pi' = nwrite ?p \<and> readopen pi' = readopen ?p \<and> writeopen pi' = writeopen ?p"
      using 4 "1.IH" [OF 4(1,2) refl refl _ pipe_ok_read [OF "1.prems"(1) 4(2)] r(1)] by simp
    then show ?thesis using pipe_bytes_read [OF 4(2)] r(2) by auto
  qed (use "1.prems" in \<open>simp add: unf\<close>)
qed

section \<open>Properties\<close>

text \<open>
  Claim C23. A pipe is a queue: writing. \<open>pipewrite\<close> appends the bytes of the user to the queue in
  order and touches nothing else. It returns \<open>n\<close> after all of them, fewer only when the next byte
  of the user cannot be read, and -1 only when the read end is closed or the process is killed;
  it goes to sleep only on a full pipe. The queue never exceeds \<^verbatim>\<open>PIPESIZE\<close>, also when the 32-bit
  counters wrap around.
\<close>

theorem pipewrite_fifo:
  assumes "pipe_ok pi" "0 \<le> n"
  shows "\<exists>k r pi'. pipewrite killed copyin n pi = (r, pi') \<and> (\<forall>j < k. \<exists>c. copyin j = Some c) \<and>
    pipe_bytes pi' = pipe_bytes pi @ map (\<lambda>j. the (copyin j)) [0..<k] \<and> length (pipe_bytes pi') \<le> PIPESIZE \<and>
    (case r of
       PRet v \<Rightarrow> if v = - 1 then int k < n \<and> (\<not> readopen pi \<or> killed)
                else v = int k \<and> (int k < n \<longrightarrow> copyin k = None)
     | PSleep m \<Rightarrow> m = k \<and> int k < n \<and> length (pipe_bytes pi') = PIPESIZE)"
proof -
  obtain r pi' where e: "pipewrite_from killed copyin n 0 pi = (r, pi')" by (cases "pipewrite_from killed copyin n 0 pi")
  have len: "pipe_ok pi' \<longleftrightarrow> length (pipe_bytes pi') \<le> PIPESIZE" by (simp add: pipe_ok_def length_pipe_bytes)
  from pipewrite_from_fifo [OF assms(1) e]
  obtain k where k: "\<forall>j < k. \<exists>c. copyin (0 + j) = Some c"
    "pipe_bytes pi' = pipe_bytes pi @ map (\<lambda>j. the (copyin (0 + j))) [0..<k]" "pipe_ok pi'"
    "case r of
       PRet v \<Rightarrow> if v = - 1 then int (0 + k) < n \<and> (\<not> readopen pi \<or> killed)
                else v = int (0 + k) \<and> (int (0 + k) < n \<longrightarrow> copyin (0 + k) = None)
     | PSleep m \<Rightarrow> m = 0 + k \<and> int m < n \<and> length (pipe_bytes pi') = PIPESIZE" by blast
  show ?thesis
    by (rule exI [of _ k], rule exI [of _ r], rule exI [of _ pi'])
      (use e k len in \<open>auto simp: pipewrite_def split: pres.splits\<close>)
qed

theorem pipewrite_fifo_witness:
  "\<exists>k r pi'. pipewrite False (\<lambda>_. Some 65) 5 (pipe_init (\<lambda>_. 0)) = (r, pi') \<and>
     pipe_bytes pi' = map (\<lambda>_. 65) [0..<k]"
proof -
  let ?p = "pipe_init (\<lambda>_. 0)"
  have "pipe_ok ?p" "pipe_bytes ?p = []" by (simp_all add: pipe_ok_def pipe_init_def pipe_bytes_def)
  with pipewrite_fifo [of ?p 5 False "\<lambda>_. Some 65"] show ?thesis by simp blast
qed



text \<open>
  \<open>pipeclose\<close> frees the page of the pipe exactly when the other end is already closed,
  and otherwise leaves the bytes in the pipe for that end.
\<close>

lemma pipeclose_frees:
  "pipeclose w pi = (pi', fr) \<Longrightarrow>
    fr = (if w then \<not> readopen pi else \<not> writeopen pi) \<and> pipe_bytes pi' = pipe_bytes pi \<and>
    (\<not> fr \<longrightarrow> (if w then readopen pi' \<and> \<not> writeopen pi' else writeopen pi' \<and> \<not> readopen pi'))"
  by (auto simp: pipeclose_def Let_def pipe_bytes_def split: if_splits)

end
