(* ===== verification/Kernel_String.thy ===== *)
theory Kernel_String
  imports Kernel_Prelude
begin

text \<open>
  The memory and string routines (\<^verbatim>\<open>kernel/string.c\<close>). Memory is a function from addresses to
  bytes; a \<^verbatim>\<open>while(n-- > 0)\<close> loop is a recursion on \<open>n\<close>. Each routine is proved equal to what it
  is for, stated without its loop; \<open>memmove\<close> also where source and destination overlap.
\<close>

type_synonym mem = bytes

section \<open>Operations\<close>

fun memset_loop :: "nat \<Rightarrow> byte \<Rightarrow> nat \<Rightarrow> nat \<Rightarrow> mem \<Rightarrow> mem" where
  "memset_loop dst c i 0 m = m"
| "memset_loop dst c i (Suc k) m = memset_loop dst c (Suc i) k (m(dst + i := c))"

definition memset :: "nat \<Rightarrow> byte \<Rightarrow> nat \<Rightarrow> mem \<Rightarrow> mem" where
  "memset dst c n m = memset_loop dst c 0 n m"

fun memcmp :: "mem \<Rightarrow> nat \<Rightarrow> nat \<Rightarrow> nat \<Rightarrow> int" where
  "memcmp m s1 s2 0 = 0"
| "memcmp m s1 s2 (Suc n) =
     (if m s1 \<noteq> m s2 then uint (m s1) - uint (m s2) else memcmp m (s1 + 1) (s2 + 1) n)"

text \<open>The two loops of \<open>memmove\<close>.\<close>

fun copy_up :: "nat \<Rightarrow> nat \<Rightarrow> nat \<Rightarrow> mem \<Rightarrow> mem" where
  "copy_up d s 0 m = m"
| "copy_up d s (Suc n) m = copy_up (d + 1) (s + 1) n (m(d := m s))"

fun copy_down :: "nat \<Rightarrow> nat \<Rightarrow> nat \<Rightarrow> mem \<Rightarrow> mem" where
  "copy_down d s 0 m = m"
| "copy_down d s (Suc n) m = copy_down (d - 1) (s - 1) n (m(d - 1 := m (s - 1)))"

definition memmove :: "nat \<Rightarrow> nat \<Rightarrow> nat \<Rightarrow> mem \<Rightarrow> mem" where
  "memmove dst src n m =
     (if n = 0 then m
      else if src < dst \<and> src + n > dst then copy_down (dst + n) (src + n) n m
      else copy_up dst src n m)"

definition memcpy :: "nat \<Rightarrow> nat \<Rightarrow> nat \<Rightarrow> mem \<Rightarrow> mem" where
  "memcpy dst src n m = memmove dst src n m"

fun strncmp :: "mem \<Rightarrow> nat \<Rightarrow> nat \<Rightarrow> nat \<Rightarrow> int" where
  "strncmp m p q 0 = 0"
| "strncmp m p q (Suc n) =
     (if m p \<noteq> 0 \<and> m p = m q then strncmp m (p + 1) (q + 1) n else uint (m p) - uint (m q))"

text \<open>The two loops of \<open>strncpy\<close>: the copy, and the padding with zeros.\<close>

fun zero_pad :: "nat \<Rightarrow> nat \<Rightarrow> mem \<Rightarrow> mem" where
  "zero_pad s 0 m = m"
| "zero_pad s (Suc n) m = zero_pad (s + 1) n (m(s := 0))"

fun strncpy_loop :: "nat \<Rightarrow> nat \<Rightarrow> nat \<Rightarrow> mem \<Rightarrow> mem" where
  "strncpy_loop s t 0 m = m"
| "strncpy_loop s t (Suc n) m =
     (if m t \<noteq> 0 then strncpy_loop (s + 1) (t + 1) n (m(s := m t))
      else zero_pad (s + 1) n (m(s := m t)))"

definition strncpy :: "nat \<Rightarrow> nat \<Rightarrow> int \<Rightarrow> mem \<Rightarrow> mem" where
  "strncpy s t n m = strncpy_loop s t (nat n) m"

text \<open>The loop of \<open>safestrcpy\<close> ends with \<^verbatim>\<open>s\<close> after the last byte it wrote.\<close>

fun safestrcpy_loop :: "nat \<Rightarrow> nat \<Rightarrow> nat \<Rightarrow> mem \<Rightarrow> mem" where
  "safestrcpy_loop s t 0 m = m(s := 0)"
| "safestrcpy_loop s t (Suc n) m =
     (if m t \<noteq> 0 then safestrcpy_loop (s + 1) (t + 1) n (m(s := m t))
      else (m(s := m t))(s + 1 := 0))"

definition safestrcpy :: "nat \<Rightarrow> nat \<Rightarrow> int \<Rightarrow> mem \<Rightarrow> mem" where
  "safestrcpy s t n m = (if n \<le> 0 then m else safestrcpy_loop s t (nat n - 1) m)"

text \<open>\<open>strlen\<close> runs until it finds a zero byte; \<open>None\<close> is not returning.\<close>

partial_function (option) strlen_from :: "mem \<Rightarrow> nat \<Rightarrow> nat \<Rightarrow> nat option" where
  "strlen_from m s n = (if m (s + n) = 0 then Some n else strlen_from m s (n + 1))"

definition strlen :: "mem \<Rightarrow> nat \<Rightarrow> nat option" where
  "strlen m s = strlen_from m s 0"

section \<open>Memory\<close>

lemma memset_loop_eq:
  "memset_loop dst c i k m a = (if dst + i \<le> a \<and> a < dst + i + k then c else m a)"
  by (induction k arbitrary: i m) auto

text \<open>
  \<open>memset\<close> writes \<open>c\<close> to the \<open>n\<close> bytes from \<open>dst\<close> and to no other.
\<close>

lemma memset_fills: "memset dst c n m a = (if dst \<le> a \<and> a < dst + n then c else m a)"
  by (simp add: memset_def memset_loop_eq)

lemma copy_up_eq:
  assumes "d \<le> s \<or> s + n \<le> d"
  shows "copy_up d s n m a = (if d \<le> a \<and> a < d + n then m (s + (a - d)) else m a)"
  using assms
proof (induction n arbitrary: d s m)
  case (Suc n)
  have "d + 1 \<le> s + 1 \<or> s + 1 + n \<le> d + 1" using Suc.prems by auto
  note IH = Suc.IH [OF this, of "m(d := m s)"]
  consider "a < d" | "a = d" | "d < a" "a < d + Suc n" | "d + Suc n \<le> a" by linarith
  then show ?case
  proof cases
    case 3
    then have "s + 1 + (a - (d + 1)) = s + (a - d)" "s + (a - d) \<noteq> d" using Suc.prems by auto
    with 3 show ?thesis unfolding copy_up.simps IH by simp
  qed (unfold copy_up.simps IH, auto)
qed auto

lemma copy_down_eq:
  assumes "s < d"
  shows "copy_down (d + n) (s + n) n m a = (if d \<le> a \<and> a < d + n then m (s + (a - d)) else m a)"
proof (induction n arbitrary: m)
  case (Suc n)
  have e: "copy_down (d + Suc n) (s + Suc n) (Suc n) m = copy_down (d + n) (s + n) n (m(d + n := m (s + n)))"
    by simp
  show ?case unfolding e Suc.IH using assms by (auto simp: less_Suc_eq)
qed auto

text \<open>
  Claim C30. \<open>memmove\<close> copies the \<open>n\<close> bytes at \<open>src\<close>, as they were before the call, to \<open>dst\<close> and
  changes no other byte, also where the two ranges overlap, in either direction.
\<close>

theorem memmove_overlap:
  "memmove dst src n m a = (if dst \<le> a \<and> a < dst + n then m (src + (a - dst)) else m a)"
proof (cases "src < dst \<and> src + n > dst")
  case True
  then show ?thesis using copy_down_eq [of src dst n m a] by (simp add: memmove_def)
next
  case False
  then have "dst \<le> src \<or> src + n \<le> dst" by auto
  then show ?thesis using copy_up_eq [of dst src n m a] False by (auto simp: memmove_def)
qed

lemma memcmp_zero: "memcmp m s1 s2 n = 0 \<longleftrightarrow> (\<forall>i < n. m (s1 + i) = m (s2 + i))"
proof (induction n arbitrary: s1 s2)
  case (Suc n)
  have u: "uint (m s1) = uint (m s2) \<longleftrightarrow> m s1 = m s2" by (simp add: word_uint_eq_iff)
  show ?case
    by (auto simp: Suc.IH u less_Suc_eq_0_disj)
qed simp

section \<open>Strings\<close>

text \<open>The C string at \<open>p\<close>, cut off after \<open>n\<close> characters.\<close>

fun cstr :: "mem \<Rightarrow> nat \<Rightarrow> nat \<Rightarrow> byte list" where
  "cstr m p 0 = []"
| "cstr m p (Suc n) = (if m p = 0 then [] else m p # cstr m (p + 1) n)"

lemma length_cstr: "length (cstr m p n) \<le> n"
  by (induction n arbitrary: p) auto

lemma cstr_nonzero: "0 \<notin> set (cstr m p n)"
  by (induction n arbitrary: p) auto

lemma cstr_cong: "(\<And>i. i < n \<Longrightarrow> m (p + i) = m' (q + i)) \<Longrightarrow> cstr m p n = cstr m' q n"
proof (induction n arbitrary: p q)
  case (Suc n)
  have "m p = m' q" using Suc.prems [of 0] by simp
  moreover have "cstr m (p + 1) n = cstr m' (q + 1) n"
    using Suc.prems [of "Suc i" for i] by (intro Suc.IH) auto
  ultimately show ?case by simp
qed simp

text \<open>
  \<open>strncmp\<close> returns 0 exactly when the two strings, each cut off after \<open>n\<close> characters,
  are equal.
\<close>

theorem strncmp_equal: "strncmp m p q n = 0 \<longleftrightarrow> cstr m p n = cstr m q n"
proof (induction n arbitrary: p q)
  case (Suc n)
  have u: "uint (m p) = uint (m q) \<longleftrightarrow> m p = m q" by (simp add: word_uint_eq_iff)
  show ?case using Suc.IH by (auto simp: u uint_0_iff)
qed simp

lemma zero_pad_eq: "zero_pad s n m a = (if s \<le> a \<and> a < s + n then 0 else m a)"
  by (induction n arbitrary: s m) auto

text \<open>Ranges that do not overlap.\<close>

definition apart :: "nat \<Rightarrow> nat \<Rightarrow> nat \<Rightarrow> bool" where
  "apart p q n \<longleftrightarrow> p + n \<le> q \<or> q + n \<le> p"

lemma strncpy_loop_eq:
  assumes "apart s t n"
  shows "strncpy_loop s t n m a =
    (if s \<le> a \<and> a < s + n
     then (if a - s < length (cstr m t n) then cstr m t n ! (a - s) else 0) else m a)"
  using assms
proof (induction n arbitrary: s t m)
  case (Suc n)
  have ap: "apart (s + 1) (t + 1) n" using Suc.prems by (auto simp: apart_def)
  have c: "cstr (m(s := v)) (t + 1) n = cstr m (t + 1) n" for v
    using Suc.prems by (intro cstr_cong) (auto simp: apart_def)
  show ?case
  proof (cases "m t = 0")
    case True
    then show ?thesis unfolding strncpy_loop.simps by (auto simp: zero_pad_eq)
  next
    case False
    have e: "a - s = Suc (a - Suc s)" if "s < a" using that by simp
    have u: "strncpy_loop s t (Suc n) m a = strncpy_loop (s + 1) (t + 1) n (m(s := m t)) a" using False by simp
    show ?thesis
      unfolding u Suc.IH [OF ap] c using False
      by (cases "a = s"; cases "s < a") (auto simp: e)
  qed
qed auto

text \<open>
  \<open>strncpy\<close> makes the \<open>n\<close> bytes at \<open>s\<close> the string at \<open>t\<close>, cut off after \<open>n\<close> characters and
  padded with zeros, and changes no other byte; with no room for the terminating zero there is
  none. A negative \<open>n\<close> writes nothing.
\<close>

theorem strncpy_pads:
  assumes "apart s t (nat n)"
  shows "strncpy s t n m a =
    (if s \<le> a \<and> a < s + nat n
     then (let c = cstr m t (nat n) in if a - s < length c then c ! (a - s) else 0) else m a)"
  unfolding strncpy_def using strncpy_loop_eq [OF assms, of m a] by (simp add: Let_def)

theorem strncpy_pads_witness:
  "map (strncpy 10 20 4 ((\<lambda>_. 9)(20 := 65, 21 := 66, 22 := 0))) [9..<15] = [9, 65, 66, 0, 0, 9]"
proof -
  let ?m = "(\<lambda>_. 9)(20 := 65, 21 := 66, 22 := 0) :: mem"
  have "cstr ?m 20 (Suc (Suc (Suc (Suc 0)))) = [65, 66]" by simp
  then have c: "cstr ?m 20 4 = [65, 66]" by (simp add: eval_nat_numeral)
  have "apart 10 20 (nat 4)" by (simp add: apart_def)
  note t = strncpy_pads [OF this, of ?m]
  have "nat 4 = 4" by simp
  then show ?thesis unfolding t Let_def using c by (simp add: upt_rec)
qed

lemma safestrcpy_loop_eq:
  assumes "apart s t (Suc n)"
  shows "cstr (safestrcpy_loop s t n m) s (Suc n) = cstr m t n \<and>
    (\<exists>i \<le> n. safestrcpy_loop s t n m (s + i) = 0) \<and>
    (\<forall>a. a < s \<or> s + n < a \<longrightarrow> safestrcpy_loop s t n m a = m a)"
  using assms
proof (induction n arbitrary: s t m)
  case (Suc n)
  have ap: "apart (s + 1) (t + 1) (Suc n)" using Suc.prems by (auto simp: apart_def)
  show ?case
  proof (cases "m t = 0")
    case False
    let ?L = "safestrcpy_loop (s + 1) (t + 1) n (m(s := m t))"
    have u: "safestrcpy_loop s t (Suc n) m = ?L" using False by simp
    have c: "cstr (m(s := m t)) (t + 1) n = cstr m (t + 1) n"
      using Suc.prems by (intro cstr_cong) (auto simp: apart_def)
    note IH = Suc.IH [OF ap, of "m(s := m t)"]
    have fr: "?L a = (m(s := m t)) a" if "a < s + 1 \<or> s + 1 + n < a" for a using IH that by blast
    have "?L s = m t" using fr [of s] by simp
    then have "cstr ?L s (Suc (Suc n)) = cstr m t (Suc n)"
      using conjunct1 [OF IH] False unfolding c by (simp only: cstr.simps)
    moreover obtain i where "i \<le> n" "?L (s + 1 + i) = 0" using IH by blast
    then have "\<exists>i \<le> Suc n. ?L (s + i) = 0" by (intro exI [of _ "Suc i"]) (simp del: fun_upd_apply)
    moreover have "?L a = m a" if "a < s \<or> s + Suc n < a" for a using fr [of a] that by auto
    ultimately show ?thesis unfolding u by blast
  qed auto
qed auto

text \<open>
  \<open>safestrcpy\<close> always leaves a zero-terminated string in the \<open>n\<close> bytes at \<open>s\<close>, the string
  at \<open>t\<close> cut off after \<open>n - 1\<close> characters, and writes no byte outside them.
\<close>

theorem safestrcpy_terminates:
  assumes "0 < n" "apart s t (nat n)"
  shows "cstr (safestrcpy s t n m) s (nat n) = cstr m t (nat n - 1) \<and>
    (\<exists>i < nat n. safestrcpy s t n m (s + i) = 0) \<and>
    (\<forall>a. a < s \<or> s + nat n \<le> a \<longrightarrow> safestrcpy s t n m a = m a)"
proof -
  obtain k where k: "nat n = Suc k" using assms(1) by (cases "nat n") auto
  have ap: "apart s t (Suc k)" using assms(2) k by simp
  note L = safestrcpy_loop_eq [OF ap, of m]
  have e: "safestrcpy s t n m = safestrcpy_loop s t k m" using assms(1) k by (simp add: safestrcpy_def)
  show ?thesis using L unfolding e k by (auto simp: less_Suc_eq_le Suc_le_eq)
qed

theorem safestrcpy_terminates_witness:
  "cstr (safestrcpy 10 20 3 ((\<lambda>_. 9)(20 := 65, 21 := 66, 22 := 67, 23 := 0))) 10 3 = [65, 66]"
proof -
  let ?m = "(\<lambda>_. 9)(20 := 65, 21 := 66, 22 := 67, 23 := 0) :: mem"
  have "cstr ?m 20 (Suc (Suc 0)) = [65, 66]" by simp
  then have "cstr ?m 20 (nat 3 - 1) = [65, 66]" by (simp add: eval_nat_numeral)
  moreover have "apart 10 20 (nat 3)" by (simp add: apart_def)
  ultimately show ?thesis using safestrcpy_terminates [of 3 10 20 ?m] by simp
qed

text \<open>
  \<open>strlen\<close> returns, with the distance to the first zero byte, exactly when there is a
  zero byte at or after \<open>s\<close>.
\<close>

theorem strlen_first_zero:
  "strlen m s = Some n \<longleftrightarrow> m (s + n) = 0 \<and> (\<forall>i < n. m (s + i) \<noteq> 0)"
proof -
  have a: "(\<forall>i < k. m (s + j + i) \<noteq> 0) \<Longrightarrow> m (s + j + k) = 0 \<Longrightarrow> strlen_from m s j = Some (j + k)" for j k
  proof (induction k arbitrary: j)
    case 0
    then show ?case by (simp add: strlen_from.simps [of m s j])
  next
    case (Suc k)
    have "m (s + j) \<noteq> 0" using Suc.prems(1) by (metis add_0_right zero_less_Suc)
    moreover have "strlen_from m s (Suc j) = Some (Suc j + k)"
      using Suc.prems by (intro Suc.IH) (auto simp: add.assoc dest: spec [of _ "Suc i" for i])
    ultimately show ?case by (simp add: strlen_from.simps [of m s j])
  qed
  have b: "j \<le> n \<and> m (s + n) = 0 \<and> (\<forall>i. j \<le> i \<and> i < n \<longrightarrow> m (s + i) \<noteq> 0)"
    if "strlen_from m s j = Some n" for j n
  proof (rule strlen_from.raw_induct [OF _ that, where P = "\<lambda>m s j n. j \<le> n \<and> m (s + n) = 0 \<and>
      (\<forall>i. j \<le> i \<and> i < n \<longrightarrow> m (s + i) \<noteq> 0)"])
    fix f :: "mem \<Rightarrow> nat \<Rightarrow> nat \<Rightarrow> nat option" and m s j n
    assume IH: "\<And>m s j n. f m s j = Some n \<Longrightarrow> j \<le> n \<and> m (s + n) = 0 \<and> (\<forall>i. j \<le> i \<and> i < n \<longrightarrow> m (s + i) \<noteq> 0)"
      and e: "(if m (s + j) = 0 then Some j else f m s (j + 1)) = Some n"
    show "j \<le> n \<and> m (s + n) = 0 \<and> (\<forall>i. j \<le> i \<and> i < n \<longrightarrow> m (s + i) \<noteq> 0)"
    proof (cases "m (s + j) = 0")
      case False
      then have k: "j + 1 \<le> n \<and> m (s + n) = 0 \<and> (\<forall>i. j + 1 \<le> i \<and> i < n \<longrightarrow> m (s + i) \<noteq> 0)"
        using e by (intro IH) simp
      have "m (s + i) \<noteq> 0" if "j \<le> i" "i < n" for i using that k False by (cases "i = j") auto
      then show ?thesis using k by auto
    qed (use e in auto)
  qed
  show ?thesis using a [of n 0] b [of 0 n] by (auto simp: strlen_def)
qed

theorem strlen_first_zero_witness: "strlen ((\<lambda>_. 7)(5 := 0)) 3 = Some 2"
  by (subst strlen_first_zero) auto

end
