(* ===== verification/Page_Alloc.thy ===== *)
theory Page_Alloc
  imports Kernel_String
begin

text \<open>
  The physical page allocator (\<^verbatim>\<open>kernel/kalloc.c\<close>). The free list runs through the free pages
  themselves: \<^verbatim>\<open>struct run\<close> is a pointer in the first eight bytes of a page. Memory is one function
  from addresses to bytes, so writing junk over a page, and the link of the list, are writes to
  the same memory that its users see.

  \<open>kend\<close> is the address of the linker symbol \<^verbatim>\<open>end\<close>.
\<close>

section \<open>Data and operations\<close>

definition PGSIZE :: nat where [layout_simps]: "PGSIZE = 4096"
definition KERNBASE :: nat where [layout_simps]: "KERNBASE = 0x80000000"
definition PHYSTOP :: nat where [layout_simps]: "PHYSTOP = KERNBASE + 128 * 1024 * 1024"

definition PGROUNDUP :: "nat \<Rightarrow> nat" where
  "PGROUNDUP sz = (sz + PGSIZE - 1) div PGSIZE * PGSIZE"

definition PGROUNDDOWN :: "nat \<Rightarrow> nat" where
  "PGROUNDDOWN a = a div PGSIZE * PGSIZE"

record kmem =
  kmemory :: mem
  freelist :: u64

definition kfree :: "nat \<Rightarrow> u64 \<Rightarrow> 'a kmem_scheme \<Rightarrow> 'a kmem_scheme res" where
  "kfree kend pa s =
     (if unat pa mod PGSIZE \<noteq> 0 \<or> unat pa < kend \<or> unat pa \<ge> PHYSTOP then Inl (Panic ''kfree'')
      else
        let m = memset (unat pa) 1 PGSIZE (kmemory s);
            m = put64 (unat pa) (freelist s) m
        in Inr (s\<lparr>kmemory := m, freelist := pa\<rparr>))"

definition kalloc :: "'a kmem_scheme \<Rightarrow> u64 \<times> 'a kmem_scheme" where
  "kalloc s =
     (let r = freelist s;
          s = (if r \<noteq> 0 then s\<lparr>freelist := get64 (kmemory s) (unat r)\<rparr> else s);
          s = (if r \<noteq> 0 then s\<lparr>kmemory := memset (unat r) 5 PGSIZE (kmemory s)\<rparr> else s)
      in (r, s))"

function freerange_from :: "nat \<Rightarrow> nat \<Rightarrow> nat \<Rightarrow> 'a kmem_scheme \<Rightarrow> 'a kmem_scheme res" where
  "freerange_from kend p pa_end s =
     (if p + PGSIZE \<le> pa_end
      then ebind (kfree kend (of_nat p) s) (freerange_from kend (p + PGSIZE) pa_end)
      else Inr s)"
  by pat_completeness auto
termination
  by (relation "measure (\<lambda>(kend, p, pa_end, s). pa_end - p)") (auto simp: PGSIZE_def)

declare freerange_from.simps [simp del]

definition freerange :: "nat \<Rightarrow> nat \<Rightarrow> nat \<Rightarrow> 'a kmem_scheme \<Rightarrow> 'a kmem_scheme res" where
  "freerange kend pa_start pa_end s = freerange_from kend (PGROUNDUP pa_start) pa_end s"

definition kinit :: "nat \<Rightarrow> 'a kmem_scheme \<Rightarrow> 'a kmem_scheme res" where
  "kinit kend s = freerange kend kend PHYSTOP s"

section \<open>The free list\<close>

text \<open>\<open>chain m p xs\<close>: following the links from \<open>p\<close> goes through the pages \<open>xs\<close> and ends at 0.\<close>

fun chain :: "mem \<Rightarrow> u64 \<Rightarrow> u64 list \<Rightarrow> bool" where
  "chain m p [] \<longleftrightarrow> p = 0"
| "chain m p (x # xs) \<longleftrightarrow> p = x \<and> p \<noteq> 0 \<and> chain m (get64 m (unat p)) xs"

definition page_ok :: "nat \<Rightarrow> u64 \<Rightarrow> bool" where
  "page_ok kend p \<longleftrightarrow> unat p mod PGSIZE = 0 \<and> kend \<le> unat p \<and> unat p < PHYSTOP"

definition in_page :: "u64 \<Rightarrow> nat \<Rightarrow> bool" where
  "in_page p a \<longleftrightarrow> unat p \<le> a \<and> a < unat p + PGSIZE"

text \<open>The invariant: the free list is a chain of distinct pages of the heap.\<close>

definition kmem_ok :: "nat \<Rightarrow> u64 list \<Rightarrow> 'a kmem_scheme \<Rightarrow> bool" where
  "kmem_ok kend xs s \<longleftrightarrow> chain (kmemory s) (freelist s) xs \<and> distinct xs \<and> (\<forall>x \<in> set xs. page_ok kend x)"

lemma pages_apart:
  assumes "unat p mod PGSIZE = 0" "unat q mod PGSIZE = 0" "in_page p a" "in_page q a"
  shows "p = q"
proof -
  obtain i j where ij: "unat p = PGSIZE * i" "unat q = PGSIZE * j" using assms(1,2) by (auto simp: mod_eq_0_iff_dvd elim!: dvdE)
  have "i = j" using assms(3,4) unfolding in_page_def ij PGSIZE_def by linarith
  then have "unat p = unat q" using ij by simp
  then show ?thesis by (simp add: word_unat_eq_iff)
qed

lemma chain_cong:
  assumes "\<And>x a. x \<in> set xs \<Longrightarrow> in_page x a \<Longrightarrow> m a = m' a"
  shows "chain m p xs = chain m' p xs"
  using assms
proof (induction xs arbitrary: p)
  case (Cons x xs)
  have "getle 8 m (unat x) = (getle 8 m' (unat x) :: u64)"
    by (rule getle_cong) (use Cons.prems [of x] in \<open>auto simp: in_page_def PGSIZE_def\<close>)
  moreover have "chain m q xs = chain m' q xs" for q
  proof (rule Cons.IH)
    fix y a assume "y \<in> set xs" "in_page y a"
    then show "m a = m' a" using Cons.prems [of y a] by simp
  qed
  ultimately show ?case by (simp cong: conj_cong)
qed simp

lemma put64_other: "\<not> (p \<le> a \<and> a < p + 8) \<Longrightarrow> put64 p v m a = m a"
  by (rule putle_other) auto

lemma kfree_ok:
  assumes ok: "kmem_ok kend xs s" and pg: "page_ok kend pa" and fresh: "pa \<notin> set xs" and nz: "0 < kend"
  obtains s' where "kfree kend pa s = Inr s'" "kmem_ok kend (pa # xs) s'" "kmem.more s' = kmem.more s"
    "\<And>a. \<not> in_page pa a \<Longrightarrow> kmemory s' a = kmemory s a"
proof -
  let ?m = "put64 (unat pa) (freelist s) (memset (unat pa) 1 PGSIZE (kmemory s))"
  let ?s' = "s\<lparr>kmemory := ?m, freelist := pa\<rparr>"
  have frame: "?m a = kmemory s a" if "\<not> in_page pa a" for a
    using that by (auto simp: in_page_def put64_other memset_fills PGSIZE_def)
  have "chain ?m (freelist s) xs = chain (kmemory s) (freelist s) xs"
  proof (rule chain_cong)
    fix x a assume "x \<in> set xs" "in_page x a"
    moreover then have "unat x mod PGSIZE = 0" "x \<noteq> pa" using ok fresh by (auto simp: kmem_ok_def page_ok_def)
    ultimately show "?m a = kmemory s a" using pages_apart [of x pa a] pg frame by (auto simp: page_ok_def)
  qed
  moreover have "pa \<noteq> 0" using pg nz by (auto simp: page_ok_def)
  ultimately have "kmem_ok kend (pa # xs) ?s'" using ok pg fresh by (simp add: kmem_ok_def)
  moreover have "kfree kend pa s = Inr ?s'" using pg by (auto simp: kfree_def page_ok_def Let_def)
  ultimately show thesis using that frame by simp
qed

lemma kalloc_ok:
  assumes ok: "kmem_ok kend (x # xs) s"
  shows "\<exists>s'. kalloc s = (x, s') \<and> kmem_ok kend xs s' \<and> kmem.more s' = kmem.more s \<and>
    (\<forall>a. kmemory s' a = (if in_page x a then 5 else kmemory s a))"
proof -
  let ?s' = "s\<lparr>kmemory := memset (unat x) 5 PGSIZE (kmemory s), freelist := get64 (kmemory s) (unat x)\<rparr>"
  have x: "freelist s = x" "x \<noteq> 0" "unat x mod PGSIZE = 0" using ok by (auto simp: kmem_ok_def page_ok_def)
  have "chain (memset (unat x) 5 PGSIZE (kmemory s)) p xs = chain (kmemory s) p xs" for p
  proof (rule chain_cong)
    fix y a assume "y \<in> set xs" "in_page y a"
    moreover then have "unat y mod PGSIZE = 0" "y \<noteq> x" using ok by (auto simp: kmem_ok_def page_ok_def)
    ultimately show "memset (unat x) 5 PGSIZE (kmemory s) a = kmemory s a"
      using pages_apart [of y x a] x(3) by (auto simp: memset_fills in_page_def)
  qed
  then have "kmem_ok kend xs ?s'" using ok x by (simp add: kmem_ok_def)
  moreover have "kalloc s = (x, ?s')" using x by (simp add: kalloc_def Let_def)
  ultimately show ?thesis by (simp add: memset_fills in_page_def)
qed

lemma kalloc_empty: "kmem_ok kend [] s \<Longrightarrow> kalloc s = (0, s)"
  by (simp add: kmem_ok_def kalloc_def)

section \<open>Initialisation\<close>

definition pages :: "nat \<Rightarrow> nat \<Rightarrow> u64 list" where
  "pages i j = map (\<lambda>k. of_nat (k * PGSIZE)) [i..<j]"

lemma unat_page: "k * PGSIZE < PHYSTOP \<Longrightarrow> unat (of_nat (k * PGSIZE) :: u64) = k * PGSIZE"
  by (rule of_nat_inverse) (auto simp: PHYSTOP_def KERNBASE_def)

lemma freerange_pages:
  assumes "kmem_ok kend xs s" "0 < kend" "kend \<le> i * PGSIZE" "i \<le> j" "j * PGSIZE = PHYSTOP"
    "\<forall>x \<in> set xs. unat x < i * PGSIZE"
  shows "\<exists>s'. freerange_from kend (i * PGSIZE) PHYSTOP s = Inr s' \<and>
    kmem_ok kend (rev (pages i j) @ xs) s' \<and> kmem.more s' = kmem.more s"
  using assms
proof (induction "j - i" arbitrary: i xs s)
  case 0
  then have "i = j" by simp
  then show ?case using 0 by (subst freerange_from.simps) (simp add: pages_def PGSIZE_def)
next
  case (Suc n)
  then have ij: "i < j" by simp
  then have le: "i * PGSIZE + PGSIZE \<le> PHYSTOP"
    using Suc.prems(5) by (metis Suc_leI add.commute mult_Suc mult_le_mono1)
  then have lt: "i * PGSIZE < PHYSTOP" by (simp add: PGSIZE_def)
  let ?p = "of_nat (i * PGSIZE) :: u64"
  have up: "unat ?p = i * PGSIZE" by (rule unat_page [OF lt])
  have pg: "page_ok kend ?p" using Suc.prems(3) lt unfolding page_ok_def up by simp
  have "?p \<notin> set xs" using Suc.prems(6) up by fastforce
  then obtain s1 where s1: "kfree kend ?p s = Inr s1" "kmem_ok kend (?p # xs) s1" "kmem.more s1 = kmem.more s"
    using kfree_ok [OF Suc.prems(1) pg _ Suc.prems(2)] by blast
  have gt: "i * PGSIZE < Suc i * PGSIZE" by (simp add: PGSIZE_def)
  have "\<exists>s'. freerange_from kend (Suc i * PGSIZE) PHYSTOP s1 = Inr s' \<and>
      kmem_ok kend (rev (pages (Suc i) j) @ (?p # xs)) s' \<and> kmem.more s' = kmem.more s1"
  proof (rule Suc.hyps(1))
    show "\<forall>x \<in> set (?p # xs). unat x < Suc i * PGSIZE" using Suc.prems(6) up gt by (auto intro: less_trans)
  qed (use Suc ij s1 gt in auto)
  moreover have "rev (pages i j) = rev (pages (Suc i) j) @ [?p]" using ij by (simp add: pages_def upt_conv_Cons)
  ultimately show ?case
    using le s1 by (subst freerange_from.simps) (simp add: add.commute)
qed

lemma physpages: "PHYSTOP div PGSIZE * PGSIZE = PHYSTOP"
  by (simp add: PHYSTOP_def KERNBASE_def PGSIZE_def)

lemma PGROUNDUP_le: "a \<le> PGROUNDUP a" "PGROUNDUP a \<le> a + PGSIZE - 1"
  by (simp_all add: PGROUNDUP_def PGSIZE_def)

lemma kinit_pages:
  assumes "0 < kend" "kend \<le> PHYSTOP" "freelist s = 0"
  shows "\<exists>s'. kinit kend s = Inr s' \<and>
    kmem_ok kend (rev (pages ((kend + PGSIZE - 1) div PGSIZE) (PHYSTOP div PGSIZE))) s' \<and> kmem.more s' = kmem.more s"
proof -
  let ?i = "(kend + PGSIZE - 1) div PGSIZE"
  have "?i \<le> (PHYSTOP + PGSIZE - 1) div PGSIZE" using assms(2) by (intro div_le_mono) simp
  also have "\<dots> = PHYSTOP div PGSIZE" by (simp add: PHYSTOP_def KERNBASE_def PGSIZE_def)
  finally have i: "?i \<le> PHYSTOP div PGSIZE" .
  have "kmem_ok kend [] s" using assms(3) by (simp add: kmem_ok_def)
  from freerange_pages [OF this assms(1) PGROUNDUP_le(1) [unfolded PGROUNDUP_def] i physpages]
  show ?thesis by (simp add: kinit_def freerange_def PGROUNDUP_def)
qed

section \<open>Exclusive ownership\<close>

text \<open>
  The kernel and its callers: a page in \<open>given\<close> was returned by \<open>kalloc\<close> and not yet freed. Its
  owner may write to it, and frees it at most once.
\<close>

record alloc_sys =
  heap :: kmem
  given :: "u64 set"

inductive alloc_step :: "nat \<Rightarrow> alloc_sys \<Rightarrow> alloc_sys \<Rightarrow> bool" for kend where
  step_alloc: "kalloc (heap t) = (p, h) \<Longrightarrow> p \<noteq> 0 \<Longrightarrow>
    alloc_step kend t \<lparr>heap = h, given = insert p (given t)\<rparr>"
| step_none: "kalloc (heap t) = (0, h) \<Longrightarrow> alloc_step kend t (t\<lparr>heap := h\<rparr>)"
| step_free: "p \<in> given t \<Longrightarrow> kfree kend p (heap t) = Inr h \<Longrightarrow>
    alloc_step kend t \<lparr>heap = h, given = given t - {p}\<rparr>"
| step_write: "p \<in> given t \<Longrightarrow> in_page p a \<Longrightarrow>
    alloc_step kend t (t\<lparr>heap := (heap t)\<lparr>kmemory := (kmemory (heap t))(a := v)\<rparr>\<rparr>)"

definition alloc_start :: "nat \<Rightarrow> alloc_sys \<Rightarrow> bool" where
  "alloc_start kend t \<longleftrightarrow> 0 < kend \<and> kend \<le> PHYSTOP \<and> given t = {} \<and>
     (\<exists>s. freelist s = 0 \<and> kinit kend s = Inr (heap t))"

definition alloc_inv :: "nat \<Rightarrow> alloc_sys \<Rightarrow> bool" where
  "alloc_inv kend t \<longleftrightarrow> 0 < kend \<and> (\<exists>xs. kmem_ok kend xs (heap t) \<and> set xs \<inter> given t = {} \<and>
     set xs \<union> given t = set (pages ((kend + PGSIZE - 1) div PGSIZE) (PHYSTOP div PGSIZE)) \<and>
     (\<forall>p \<in> given t. page_ok kend p))"

lemma alloc_inv_step: "alloc_step kend s t \<Longrightarrow> alloc_inv kend s \<Longrightarrow> alloc_inv kend t"
proof (induction rule: alloc_step.induct)
  case (step_alloc t p h)
  then obtain xs where xs: "kmem_ok kend xs (heap t)" "set xs \<inter> given t = {}" "0 < kend"
      "set xs \<union> given t = set (pages ((kend + PGSIZE - 1) div PGSIZE) (PHYSTOP div PGSIZE))"
      "\<forall>p \<in> given t. page_ok kend p" by (auto simp: alloc_inv_def)
  then obtain y ys where y: "xs = y # ys" using step_alloc(1,2) kalloc_empty [of kend "heap t"] by (cases xs) auto
  then have "p = y \<and> kmem_ok kend ys h" using kalloc_ok [of kend y ys "heap t"] xs(1) step_alloc(1) by auto
  moreover have "y \<notin> set ys" "page_ok kend y" using xs(1) y by (auto simp: kmem_ok_def)
  ultimately show ?case unfolding alloc_inv_def using xs y by (intro conjI exI [of _ ys]) auto
next
  case (step_none t h)
  then obtain xs where xs: "kmem_ok kend xs (heap t)" by (auto simp: alloc_inv_def)
  then have "xs = []" using kalloc_ok [of kend _ _ "heap t"] step_none(1) by (cases xs) (auto simp: kmem_ok_def)
  then have "h = heap t" using kalloc_empty [of kend "heap t"] xs step_none(1) by simp
  then show ?case using step_none by simp
next
  case (step_free p t h)
  then obtain xs where xs: "kmem_ok kend xs (heap t)" "set xs \<inter> given t = {}" "0 < kend"
      "set xs \<union> given t = set (pages ((kend + PGSIZE - 1) div PGSIZE) (PHYSTOP div PGSIZE))"
      "\<forall>p \<in> given t. page_ok kend p" by (auto simp: alloc_inv_def)
  obtain h' where "kfree kend p (heap t) = Inr h'" "kmem_ok kend (p # xs) h'"
    by (rule kfree_ok [OF xs(1), of p]) (use xs step_free in auto)
  then have "kmem_ok kend (p # xs) h" using step_free(2) by simp
  then show ?case unfolding alloc_inv_def using xs step_free(1)
    by (intro conjI exI [of _ "p # xs"]) auto
next
  case (step_write p t a v)
  then obtain xs where xs: "kmem_ok kend xs (heap t)" "set xs \<inter> given t = {}" "0 < kend"
      "set xs \<union> given t = set (pages ((kend + PGSIZE - 1) div PGSIZE) (PHYSTOP div PGSIZE))"
      "\<forall>p \<in> given t. page_ok kend p" by (auto simp: alloc_inv_def)
  have "chain ((kmemory (heap t))(a := v)) (freelist (heap t)) xs = chain (kmemory (heap t)) (freelist (heap t)) xs"
  proof (rule chain_cong)
    fix x b assume x: "x \<in> set xs" "in_page x b"
    then have "x \<noteq> p" "unat x mod PGSIZE = 0" "unat p mod PGSIZE = 0"
      using xs step_write(1) by (auto simp: kmem_ok_def page_ok_def)
    then have "b \<noteq> a" using pages_apart [of x p a] x(2) step_write(2) by auto
    then show "((kmemory (heap t))(a := v)) b = kmemory (heap t) b" by simp
  qed
  then have "kmem_ok kend xs ((heap t)\<lparr>kmemory := (kmemory (heap t))(a := v)\<rparr>)" using xs(1) by (simp add: kmem_ok_def)
  then show ?case unfolding alloc_inv_def using xs by auto
qed

interpretation alloc: invariant_system "alloc_start kend" "alloc_step kend" "alloc_inv kend"
proof
  show "alloc_start kend s \<Longrightarrow> alloc_inv kend s" for s
  proof -
    assume a: "alloc_start kend s"
    then obtain s0 where s0: "freelist s0 = 0" "kinit kend s0 = Inr (heap s)" "0 < kend" "kend \<le> PHYSTOP" "given s = {}"
      by (auto simp: alloc_start_def)
    then have "kmem_ok kend (rev (pages ((kend + PGSIZE - 1) div PGSIZE) (PHYSTOP div PGSIZE))) (heap s)"
      using kinit_pages [OF s0(3,4,1)] by auto
    then show ?thesis unfolding alloc_inv_def using s0 by auto
  qed
qed (rule alloc_inv_step)

text \<open>
  Claim C9. Exclusive ownership. From \<open>kinit\<close> on, in any sequence of allocations, frees of pages
  that are in use and writes by their owners to such pages, \<open>kalloc\<close> never returns a page that is
  in use: it returns a page of the kernel heap that nobody has, filled with the byte 5, and
  returns 0 only when every page between \<^verbatim>\<open>end\<close> and \<^verbatim>\<open>PHYSTOP\<close> is in use. A free of a page in use
  never panics.
\<close>

theorem kalloc_exclusive:
  assumes "reach (alloc_start kend) (alloc_step kend) t"
  shows "(case kalloc (heap t) of (p, h) \<Rightarrow>
      if p = 0 then given t = set (pages ((kend + PGSIZE - 1) div PGSIZE) (PHYSTOP div PGSIZE)) \<and> h = heap t
      else p \<notin> given t \<and> page_ok kend p \<and> (\<forall>a. kmemory h a = (if in_page p a then 5 else kmemory (heap t) a))) \<and>
    (\<forall>p \<in> given t. \<exists>h. kfree kend p (heap t) = Inr h)"
proof -
  have "alloc_inv kend t" using alloc.reach_inv [OF assms] .
  then obtain xs where xs: "kmem_ok kend xs (heap t)" "set xs \<inter> given t = {}" "0 < kend"
      "set xs \<union> given t = set (pages ((kend + PGSIZE - 1) div PGSIZE) (PHYSTOP div PGSIZE))"
      "\<forall>p \<in> given t. page_ok kend p" by (auto simp: alloc_inv_def)
  have free: "\<forall>p \<in> given t. \<exists>h. kfree kend p (heap t) = Inr h"
  proof
    fix p assume "p \<in> given t"
    then show "\<exists>h. kfree kend p (heap t) = Inr h"
      by (rule_tac kfree_ok [OF xs(1), of p]) (use xs in auto)
  qed
  show ?thesis
  proof (cases xs)
    case Nil
    then show ?thesis using kalloc_empty [of kend "heap t"] xs free by simp
  next
    case (Cons y ys)
    then have y: "y \<noteq> 0" "y \<notin> given t" "page_ok kend y" using xs by (auto simp: kmem_ok_def)
    obtain h where h: "kalloc (heap t) = (y, h)" "\<forall>a. kmemory h a = (if in_page y a then 5 else kmemory (heap t) a)"
      using kalloc_ok [of kend y ys "heap t"] xs(1) Cons by blast
    show ?thesis unfolding h(1) prod.case if_not_P [OF y(1)] using y h(2) free by blast
  qed
qed

theorem kalloc_exclusive_witness:
  "\<exists>t. reach (alloc_start 0x87ffe000) (alloc_step 0x87ffe000) t \<and> (\<exists>p h. kalloc (heap t) = (p, h) \<and> p \<notin> given t)"
proof -
  let ?s = "\<lparr>kmemory = (\<lambda>_. 0), freelist = 0\<rparr> :: kmem"
  obtain h where h: "kinit 0x87ffe000 ?s = Inr h"
    using kinit_pages [of "0x87ffe000" ?s] by (auto simp: PHYSTOP_def KERNBASE_def)
  let ?t = "\<lparr>heap = h, given = {}\<rparr>"
  have "alloc_start 0x87ffe000 ?t"
    unfolding alloc_start_def using h by (auto simp: PHYSTOP_def KERNBASE_def intro: exI [of _ ?s])
  then have r: "reach (alloc_start 0x87ffe000) (alloc_step 0x87ffe000) ?t" by (rule reach_start)
  have "snd (kalloc h) = snd (kalloc h)" ..
  with kalloc_exclusive [OF r] r show ?thesis
    by (intro exI [of _ ?t]) (auto split: prod.splits if_splits)
qed

text \<open>
  \<open>kfree\<close> panics exactly on an address that is not the start of a page between \<^verbatim>\<open>end\<close>
  and \<^verbatim>\<open>PHYSTOP\<close>, and a page that is freed is the next one allocated.
\<close>

theorem kfree_kalloc:
  assumes "0 < kend"
  shows "(\<not> page_ok kend pa \<longrightarrow> kfree kend pa s = Inl (Panic ''kfree'')) \<and>
    (page_ok kend pa \<longrightarrow> (\<exists>s'. kfree kend pa s = Inr s' \<and> fst (kalloc s') = pa \<and>
       freelist (snd (kalloc s')) = freelist s))"
proof (cases "page_ok kend pa")
  case True
  let ?m = "put64 (unat pa) (freelist s) (memset (unat pa) 1 PGSIZE (kmemory s))"
  have "kfree kend pa s = Inr (s\<lparr>kmemory := ?m, freelist := pa\<rparr>)" using True by (auto simp: kfree_def page_ok_def Let_def)
  moreover have "pa \<noteq> 0" using True assms by (auto simp: page_ok_def)
  ultimately show ?thesis using True by (simp add: kalloc_def Let_def)
qed (auto simp: kfree_def page_ok_def)

theorem kfree_kalloc_witness:
  "\<exists>s'. kfree 0x80020000 0x80021000 \<lparr>kmemory = (\<lambda>_. 0), freelist = 0\<rparr> = Inr s' \<and> fst (kalloc s') = 0x80021000"
  using kfree_kalloc [of "0x80020000" "0x80021000" "\<lparr>kmemory = (\<lambda>_. 0), freelist = 0\<rparr> :: kmem"]
  by (auto simp: page_ok_def PGSIZE_def PHYSTOP_def KERNBASE_def)

end
