(* ===== verification/User_Grep.thy ===== *)
theory User_Grep
  imports Kernel_Prelude
begin

text \<open>
  The pattern matcher and the line loop of \<^verbatim>\<open>user/grep.c\<close>. A C string is the list of its characters
  before the terminating zero, so \<^verbatim>\<open>*text == 0\<close> is \<open>text = []\<close>. The matcher is proved to decide a
  declarative meaning of patterns, and the line loop to print exactly the matching lines.
\<close>

section \<open>The matcher\<close>

function (sequential) matchhere :: "string \<Rightarrow> string \<Rightarrow> bool"
  and matchstar :: "char \<Rightarrow> string \<Rightarrow> string \<Rightarrow> bool" where
  "matchhere [] text = True"
| "matchhere (c # re) text =
     (if re \<noteq> [] \<and> hd re = CHR ''*'' then matchstar c (tl re) text
      else if c = CHR ''$'' \<and> re = [] then text = []
      else if text \<noteq> [] \<and> (c = CHR ''.'' \<or> c = hd text) then matchhere re (tl text)
      else False)"
| "matchstar c re text =
     (if matchhere re text then True
      else if text \<noteq> [] \<and> (hd text = c \<or> c = CHR ''.'') then matchstar c re (tl text)
      else False)"
  by pat_completeness auto
termination
  by (relation "measures [\<lambda>x. case x of Inl (re, text) \<Rightarrow> length re | Inr (c, re, text) \<Rightarrow> length re,
      \<lambda>x. case x of Inl (re, text) \<Rightarrow> length text | Inr (c, re, text) \<Rightarrow> Suc (length text)]")
    (auto simp: neq_Nil_conv)

declare matchhere.simps [simp del] matchstar.simps [simp del]

text \<open>The loop of \<open>match\<close> tries every suffix of the text, the empty one included.\<close>

fun match_loop :: "string \<Rightarrow> string \<Rightarrow> bool" where
  "match_loop re [] = matchhere re []"
| "match_loop re (c # text) = (matchhere re (c # text) \<or> match_loop re text)"

definition match :: "string \<Rightarrow> string \<Rightarrow> bool" where
  "match re text = (if re \<noteq> [] \<and> hd re = CHR ''^'' then matchhere (tl re) text else match_loop re text)"

section \<open>What patterns mean\<close>

text \<open>
  \<open>means re u v\<close>: pattern \<open>re\<close> accepts the string \<open>u\<close> when \<open>v\<close> follows it. A character accepts
  itself and a dot any character; \<open>c*\<close> accepts any number of them; a final dollar accepts the end.
\<close>

definition accepts :: "char \<Rightarrow> char \<Rightarrow> bool" where
  "accepts c x \<longleftrightarrow> c = CHR ''.'' \<or> c = x"

inductive means :: "string \<Rightarrow> string \<Rightarrow> string \<Rightarrow> bool" where
  means_Nil: "means [] [] v"
| means_Star: "\<forall>x \<in> set xs. accepts c x \<Longrightarrow> means re u v \<Longrightarrow> means (c # CHR ''*'' # re) (xs @ u) v"
| means_End: "means [CHR ''$''] [] []"
| means_Char: "accepts c x \<Longrightarrow> \<not> (re \<noteq> [] \<and> hd re = CHR ''*'') \<Longrightarrow> \<not> (c = CHR ''$'' \<and> re = []) \<Longrightarrow>
    means re u v \<Longrightarrow> means (c # re) (x # u) v"

inductive_simps means_Nil_iff: "means [] u v"
inductive_simps means_Cons_iff: "means (c # re) u v"

lemma means_star:
  "means (c # CHR ''*'' # re) u v \<longleftrightarrow> (\<exists>xs w. u = xs @ w \<and> (\<forall>x \<in> set xs. accepts c x) \<and> means re w v)"
  by (auto simp: means_Cons_iff)

lemma means_end: "means [CHR ''$''] u v \<longleftrightarrow> u = [] \<and> v = []"
  by (auto simp: means_Cons_iff)

lemma means_char:
  "\<not> (re \<noteq> [] \<and> hd re = CHR ''*'') \<Longrightarrow> \<not> (c = CHR ''$'' \<and> re = []) \<Longrightarrow>
    means (c # re) u v \<longleftrightarrow> (\<exists>x w. u = x # w \<and> accepts c x \<and> means re w v)"
  by (subst means_Cons_iff) auto

definition star_means :: "char \<Rightarrow> string \<Rightarrow> string \<Rightarrow> bool" where
  "star_means c re t \<longleftrightarrow> (\<exists>xs u v. t = xs @ u @ v \<and> (\<forall>x \<in> set xs. accepts c x) \<and> means re u v)"

lemma star_means_Nil: "star_means c re [] \<longleftrightarrow> means re [] []"
  by (auto simp: star_means_def)

lemma star_means_Cons:
  "star_means c re (t # ts) \<longleftrightarrow> (\<exists>u v. t # ts = u @ v \<and> means re u v) \<or> accepts c t \<and> star_means c re ts"
proof
  assume "star_means c re (t # ts)"
  then obtain xs u v where x: "t # ts = xs @ u @ v" "\<forall>x \<in> set xs. accepts c x" "means re u v"
    by (auto simp: star_means_def)
  show "(\<exists>u v. t # ts = u @ v \<and> means re u v) \<or> accepts c t \<and> star_means c re ts"
  proof (cases xs)
    case Nil
    then show ?thesis using x by auto
  next
    case (Cons y ys)
    then have "accepts c t" "ts = ys @ u @ v" "\<forall>x \<in> set ys. accepts c x" using x by auto
    then have "accepts c t" "star_means c re ts" unfolding star_means_def using x(3) by blast+
    then show ?thesis by blast
  qed
next
  assume "(\<exists>u v. t # ts = u @ v \<and> means re u v) \<or> accepts c t \<and> star_means c re ts"
  then show "star_means c re (t # ts)"
  proof
    assume "\<exists>u v. t # ts = u @ v \<and> means re u v"
    then obtain u v where "t # ts = [] @ u @ v" "means re u v" by auto
    then show ?thesis unfolding star_means_def by fastforce
  next
    assume "accepts c t \<and> star_means c re ts"
    then obtain xs u v where "t # ts = (t # xs) @ u @ v" "\<forall>x \<in> set (t # xs). accepts c x" "means re u v"
      by (auto simp: star_means_def)
    then show ?thesis unfolding star_means_def by blast
  qed
qed

lemma means_star_text:
  "(\<exists>u v. t = u @ v \<and> means (c # CHR ''*'' # re) u v) \<longleftrightarrow> star_means c re t"
proof
  assume "\<exists>u v. t = u @ v \<and> means (c # CHR ''*'' # re) u v"
  then obtain xs w v where "t = xs @ w @ v" "\<forall>x \<in> set xs. accepts c x" "means re w v" by (auto simp: means_star)
  then show "star_means c re t" unfolding star_means_def by blast
next
  assume "star_means c re t"
  then obtain xs u v where "t = (xs @ u) @ v" "\<forall>x \<in> set xs. accepts c x" "means re u v" by (auto simp: star_means_def)
  then show "\<exists>u v. t = u @ v \<and> means (c # CHR ''*'' # re) u v" unfolding means_star by blast
qed

lemma match_sound_complete:
  "matchhere re tx \<longleftrightarrow> (\<exists>u v. tx = u @ v \<and> means re u v)"
  "matchstar c re tx \<longleftrightarrow> star_means c re tx"
proof (induction re tx and c re tx rule: matchhere_matchstar.induct)
  case (1 tx)
  then show ?case by (simp add: matchhere.simps means_Nil_iff)
next
  case (2 c re tx)
  consider (star) re' where "re = CHR ''*'' # re'" | (stop) "c = CHR ''$''" "re = []"
    | (char) "\<not> (re \<noteq> [] \<and> hd re = CHR ''*'')" "\<not> (c = CHR ''$'' \<and> re = [])"
    by (cases re) auto
  then show ?case
  proof cases
    case star
    then have "matchhere (c # re) tx = matchstar c re' tx" by (simp add: matchhere.simps)
    then show ?thesis using "2.IH"(1) star means_star_text by simp
  next
    case stop
    then show ?thesis by (simp add: matchhere.simps means_end)
  next
    case char
    note m = means_char [OF char]
    show ?thesis
    proof (cases tx)
      case Nil
      then show ?thesis using char m by (auto simp: matchhere.simps)
    next
      case (Cons t ts)
      have "matchhere (c # re) tx \<longleftrightarrow> accepts c t \<and> matchhere re ts"
        using char Cons by (auto simp: matchhere.simps accepts_def)
      moreover have "accepts c t \<Longrightarrow> matchhere re ts \<longleftrightarrow> (\<exists>u v. ts = u @ v \<and> means re u v)"
        using "2.IH"(2) char Cons by (auto simp: accepts_def)
      moreover have "(\<exists>u v. tx = u @ v \<and> means (c # re) u v) \<longleftrightarrow> accepts c t \<and> (\<exists>u v. ts = u @ v \<and> means re u v)"
        unfolding Cons m by (auto simp: Cons_eq_append_conv)
      ultimately show ?thesis by blast
    qed
  qed
next
  case (3 c re tx)
  show ?case
  proof (cases tx)
    case Nil
    then show ?thesis using "3.IH"(1) by (subst matchstar.simps) (simp add: star_means_Nil)
  next
    case (Cons t ts)
    have "matchstar c re tx \<longleftrightarrow> matchhere re tx \<or> accepts c t \<and> matchstar c re ts"
      using Cons by (subst matchstar.simps) (auto simp: accepts_def)
    moreover have "matchstar c re ts \<longleftrightarrow> star_means c re ts" if "\<not> matchhere re tx" "accepts c t"
      using "3.IH"(2) that Cons by (auto simp: accepts_def)
    ultimately show ?thesis using "3.IH"(1) unfolding Cons star_means_Cons by blast
  qed
qed

lemma match_loop_suffix: "match_loop re t \<longleftrightarrow> (\<exists>w s. t = w @ s \<and> matchhere re s)"
  by (induction t) (auto simp: Cons_eq_append_conv)

text \<open>
  Claim C25. The matcher decides the meaning of patterns. With a leading caret the rest of the
  pattern has to accept a prefix of the text, and otherwise a substring at any place; a final
  dollar ties it to the end of the text.
\<close>

theorem match_meaning:
  "match re tx \<longleftrightarrow>
    (if re \<noteq> [] \<and> hd re = CHR ''^'' then \<exists>u v. tx = u @ v \<and> means (tl re) u v
     else \<exists>w u v. tx = w @ u @ v \<and> means re u v)"
  unfolding match_def match_loop_suffix match_sound_complete by auto

section \<open>The line loop\<close>

definition NL :: char where "NL = CHR 0x0A"
definition NUL :: char where "NUL = CHR 0x00"

text \<open>\<^verbatim>\<open>strchr\<close>, as the distance to the character found.\<close>

fun strchr_pos :: "char \<Rightarrow> string \<Rightarrow> nat option" where
  "strchr_pos c [] = None"
| "strchr_pos c (x # xs) =
     (if x = NUL then None else if x = c then Some 0 else map_option Suc (strchr_pos c xs))"

lemma strchr_pos_less: "strchr_pos c b = Some q \<Longrightarrow> q < length b"
  by (induction b arbitrary: q) (auto split: if_splits)

text \<open>The inner loop: what it prints, and the rest of the buffer, which has no whole line.\<close>

function grep_lines :: "string \<Rightarrow> string \<Rightarrow> string \<times> string" where
  "grep_lines re b =
     (case strchr_pos NL b of
        None \<Rightarrow> ([], b)
      | Some q \<Rightarrow>
          let (out, rest) = grep_lines re (drop (Suc q) b)
          in ((if match re (take q b) then take (Suc q) b else []) @ out, rest))"
  by pat_completeness auto
termination
  by (relation "measure (\<lambda>(re, b). length b)") (auto dest: strchr_pos_less)

declare grep_lines.simps [simp del]

text \<open>
  The outer loop. \<open>inp\<close> is what the file still holds and \<open>rd k inp\<close> the number of bytes that
  \<^verbatim>\<open>read(fd, buf+m, k)\<close> chooses to return, cut down to \<open>k\<close> and to what there is.
\<close>

function grep :: "(nat \<Rightarrow> string \<Rightarrow> nat) \<Rightarrow> string \<Rightarrow> string \<Rightarrow> string \<Rightarrow> string" where
  "grep rd re buf inp =
     (let k = 1024 - length buf - 1; chunk = take (min k (rd k inp)) inp in
      if chunk = [] then []
      else let (out, rest) = grep_lines re (buf @ chunk)
           in out @ grep rd re rest (drop (length chunk) inp))"
  by pat_completeness auto
termination
  by (relation "measure (\<lambda>(rd, re, buf, inp). length inp)") auto

declare grep.simps [simp del]

text \<open>The whole lines of a text, without their newlines.\<close>

fun lines_acc :: "string \<Rightarrow> string \<Rightarrow> string list" where
  "lines_acc acc [] = []"
| "lines_acc acc (c # cs) = (if c = NL then rev acc # lines_acc [] cs else lines_acc (c # acc) cs)"

lemma strchr_pos_split:
  "NUL \<notin> set b \<Longrightarrow> strchr_pos NL b = (if NL \<in> set b then Some (length (takeWhile (\<lambda>c. c \<noteq> NL) b)) else None)"
  by (induction b) auto

lemma NL_split: "NL \<in> set b \<Longrightarrow> \<exists>l r. b = l @ NL # r \<and> NL \<notin> set l"
  by (meson split_list_first)

lemma grep_lines_Cons:
  assumes "NL \<notin> set l" "NUL \<notin> set l"
  shows "grep_lines re (l @ NL # r) =
    (let (out, rest) = grep_lines re r in ((if match re l then l @ [NL] else []) @ out, rest))"
proof -
  have "strchr_pos NL (l @ NL # r) = Some (length l)"
    using assms by (induction l) (auto simp: NL_def NUL_def)
  then show ?thesis by (subst grep_lines.simps) simp
qed

lemma grep_lines_none: "NL \<notin> set b \<Longrightarrow> NUL \<notin> set b \<Longrightarrow> grep_lines re b = ([], b)"
  by (subst grep_lines.simps) (simp add: strchr_pos_split)

lemma grep_lines_append:
  assumes "NUL \<notin> set a" "NUL \<notin> set b" "grep_lines re a = (o1, r1)"
  shows "grep_lines re (a @ b) = (let (o2, r2) = grep_lines re (r1 @ b) in (o1 @ o2, r2)) \<and>
    NL \<notin> set r1 \<and> (\<exists>w. a = w @ r1)"
  using assms
proof (induction "length a" arbitrary: a o1 rule: less_induct)
  case less
  show ?case
  proof (cases "NL \<in> set a")
    case False
    then have "grep_lines re a = ([], a)" using less.prems by (intro grep_lines_none)
    then show ?thesis using less.prems False by (auto split: prod.splits)
  next
    case True
    then obtain l r where a: "a = l @ NL # r" "NL \<notin> set l" using NL_split by blast
    then have nul: "NUL \<notin> set l" "NUL \<notin> set r" using less.prems(1) by auto
    obtain o' where o': "grep_lines re r = (o', r1)" "o1 = (if match re l then l @ [NL] else []) @ o'"
      using less.prems(3) grep_lines_Cons [OF a(2) nul(1)] a(1) by (auto split: prod.splits)
    have "length r < length a" using a by simp
    then have IH: "grep_lines re (r @ b) = (let (o2, r2) = grep_lines re (r1 @ b) in (o' @ o2, r2))"
      "NL \<notin> set r1" "\<exists>w. r = w @ r1"
      using less.hyps [OF _ nul(2) less.prems(2) o'(1)] by blast+
    have "grep_lines re (a @ b) = (let (o2, r2) = grep_lines re (r1 @ b) in (o1 @ o2, r2))"
      using grep_lines_Cons [OF a(2) nul(1), of re "r @ b"] IH(1) a(1) o'(2) by (auto split: prod.splits)
    moreover have "\<exists>w. a = w @ r1" using IH(3) a(1) by (metis append.assoc append_Cons)
    ultimately show ?thesis using IH(2) by blast
  qed
qed

text \<open>No run of 1023 characters without a newline.\<close>

definition short_lines :: "string \<Rightarrow> bool" where
  "short_lines t \<longleftrightarrow> (\<forall>u v w. t = u @ v @ w \<longrightarrow> NL \<notin> set v \<longrightarrow> length v < 1023)"

lemma short_lines_suffix:
  assumes "short_lines (w @ t)"
  shows "short_lines t"
  unfolding short_lines_def
proof (intro allI impI)
  fix u v x assume "t = u @ v @ x" and nl: "NL \<notin> set v"
  then have "w @ t = (w @ u) @ v @ x" by simp
  then show "length v < 1023" using assms nl unfolding short_lines_def by blast
qed

lemma short_lines_prefix: "short_lines (b @ t) \<Longrightarrow> NL \<notin> set b \<Longrightarrow> length b < 1023"
  unfolding short_lines_def by (drule spec [of _ "[]"], drule spec [of _ b], drule spec [of _ t]) simp

lemma grep_chunks:
  assumes "NUL \<notin> set (buf @ inp)" "short_lines (buf @ inp)" "NL \<notin> set buf"
    and "\<And>k t. 0 < k \<Longrightarrow> t \<noteq> [] \<Longrightarrow> 0 < rd k t"
  shows "grep rd re buf inp = fst (grep_lines re (buf @ inp))"
  using assms(1-3)
proof (induction "length inp" arbitrary: buf inp rule: less_induct)
  case less
  define k where "k = 1024 - length buf - 1"
  define chunk where "chunk = take (min k (rd k inp)) inp"
  define rest_inp where "rest_inp = drop (length chunk) inp"
  have k: "0 < k" using short_lines_prefix [OF less.prems(2,3)] by (simp add: k_def)
  have unf: "grep rd re buf inp = (if chunk = [] then []
      else let (out, rest) = grep_lines re (buf @ chunk) in out @ grep rd re rest rest_inp)"
    unfolding rest_inp_def chunk_def k_def by (subst grep.simps) (simp only: Let_def)
  show ?case
  proof (cases "inp = []")
    case True
    then have "chunk = []" by (simp add: chunk_def)
    then show ?thesis using less.prems True unf by (simp add: grep_lines_none)
  next
    case False
    then have c: "chunk \<noteq> []" using k assms(4) [OF k False] by (simp add: chunk_def)
    obtain out rest where r: "grep_lines re (buf @ chunk) = (out, rest)" by (cases "grep_lines re (buf @ chunk)")
    have "inp = take n inp @ drop (length (take n inp)) inp" for n by (simp add: min_def)
    then have inp: "inp = chunk @ rest_inp" unfolding rest_inp_def chunk_def .
    then have nul: "NUL \<notin> set (buf @ chunk)" "NUL \<notin> set rest_inp" using less.prems(1) by simp_all
    have A: "grep_lines re ((buf @ chunk) @ rest_inp) =
        (let (o2, r2) = grep_lines re (rest @ rest_inp) in (out @ o2, r2))" "NL \<notin> set rest"
      and "\<exists>w. buf @ chunk = w @ rest"
      using grep_lines_append [OF nul r] by simp_all
    then obtain w where w: "buf @ chunk = w @ rest" by blast
    have e: "buf @ inp = w @ rest @ rest_inp" using w inp by (metis append.assoc)
    have "short_lines (rest @ rest_inp)" using less.prems(2) short_lines_suffix unfolding e by blast
    moreover have "NUL \<notin> set (rest @ rest_inp)" using less.prems(1) unfolding e by simp
    moreover have "length rest_inp < length inp" using c inp by simp
    ultimately have "grep rd re rest rest_inp = fst (grep_lines re (rest @ rest_inp))"
      using less.hyps A(2) by simp
    moreover have "buf @ inp = (buf @ chunk) @ rest_inp" using inp by simp
    ultimately show ?thesis using A(1) c r unfolding unf by (simp add: case_prod_unfold Let_def)
  qed
qed

lemma grep_lines_spec:
  assumes "NUL \<notin> set t"
  shows "fst (grep_lines re t) = concat (map (\<lambda>l. l @ [NL]) (filter (match re) (lines_acc [] t)))"
proof -
  have acc: "NL \<notin> set l \<Longrightarrow> lines_acc acc (l @ NL # r) = (rev acc @ l) # lines_acc [] r" for acc l r
    by (induction l arbitrary: acc) auto
  have none: "NL \<notin> set l \<Longrightarrow> lines_acc acc l = []" for acc l
    by (induction l arbitrary: acc) auto
  show ?thesis
    using assms
  proof (induction "length t" arbitrary: t rule: less_induct)
    case less
    show ?case
    proof (cases "NL \<in> set t")
      case False
      then show ?thesis using less.prems by (simp add: grep_lines_none none)
    next
      case True
      then obtain l r where t: "t = l @ NL # r" "NL \<notin> set l" using NL_split by blast
      then have n: "NUL \<notin> set l" "NUL \<notin> set r" "length r < length t" using less.prems by auto
      show ?thesis
        using less.hyps [OF n(3,2)] grep_lines_Cons [OF t(2) n(1), of re r] acc [OF t(2), of "[]" r] t(1)
        by (simp add: case_prod_unfold Let_def)
    qed
  qed
qed



end
