(* ===== verification/Fs_Layout.thy ===== *)
theory Fs_Layout
  imports Block_Store Kernel_String
begin

text \<open>
  The file system on disk (\<^verbatim>\<open>kernel/fs.h\<close>, \<^verbatim>\<open>kernel/file.h\<close>, \<^verbatim>\<open>kernel/stat.h\<close>): constants, the superblock, the
  in-memory inode, and the layout of \<^verbatim>\<open>struct dinode\<close> and \<^verbatim>\<open>struct dirent\<close> in a block. The fields of
  an on-disk inode that were written are the ones read back, and writing one inode of a block
  changes no other.
\<close>

section \<open>Constants\<close>

definition ROOTINO :: u32 where [layout_simps]: "ROOTINO = 1"
definition FSMAGIC :: u32 where [layout_simps]: "FSMAGIC = 0x10203040"
definition NDIRECT :: nat where [layout_simps]: "NDIRECT = 11"
definition NINDIRECT :: nat where [layout_simps]: "NINDIRECT = 256"
definition DOUBLEINDIRECT :: nat where [layout_simps]: "DOUBLEINDIRECT = 256 * 256"
definition MAXFILE :: nat where [layout_simps]: "MAXFILE = NDIRECT + NINDIRECT + DOUBLEINDIRECT"
definition NADDRS :: nat where [layout_simps]: "NADDRS = NDIRECT + 2"
definition DINODE_SIZE :: nat where [layout_simps]: "DINODE_SIZE = 64"
definition IPB :: nat where [layout_simps]: "IPB = 16"
definition BPB :: nat where [layout_simps]: "BPB = 8192"
definition DIRSIZ :: nat where [layout_simps]: "DIRSIZ = 14"
definition DIRENT_SIZE :: nat where [layout_simps]: "DIRENT_SIZE = 16"
definition NINODE :: nat where [layout_simps]: "NINODE = 50"
definition T_DIR :: u16 where [layout_simps]: "T_DIR = 1"
definition T_FILE :: u16 where [layout_simps]: "T_FILE = 2"
definition T_DEVICE :: u16 where [layout_simps]: "T_DEVICE = 3"
definition T_SYMLINK :: u16 where [layout_simps]: "T_SYMLINK = 4"

section \<open>Data\<close>

record superblock =
  sb_magic :: u32
  sb_size :: u32
  sb_nblocks :: u32
  sb_ninodes :: u32
  sb_nlog :: u32
  sb_logstart :: u32
  sb_inodestart :: u32
  sb_bmapstart :: u32

text \<open>\<^verbatim>\<open>struct inode\<close>: a \<^verbatim>\<open>short\<close> is the 16-bit word of its bits.\<close>

record inode =
  i_dev :: u32
  i_inum :: u32
  i_ref :: int
  i_lock :: sleeplock
  i_valid :: bool
  i_type :: u16
  i_major :: u16
  i_minor :: u16
  i_nlink :: u16
  i_size :: u32
  i_addrs :: "nat \<Rightarrow> u32"

text \<open>The block store with \<^verbatim>\<open>sb\<close> and \<^verbatim>\<open>itable\<close>; a \<^verbatim>\<open>struct inode *\<close> is an index into \<open>itab\<close>.\<close>

record fs = bstore +
  sb :: superblock
  itab :: "nat \<Rightarrow> inode"

definition IBLOCK :: "u32 \<Rightarrow> superblock \<Rightarrow> u32" where
  "IBLOCK i b = i div of_nat IPB + sb_inodestart b"

definition BBLOCK :: "nat \<Rightarrow> superblock \<Rightarrow> u32" where
  "BBLOCK n b = of_nat (n div BPB) + sb_bmapstart b"

definition upd_inode :: "nat \<Rightarrow> (inode \<Rightarrow> inode) \<Rightarrow> 'a fs_scheme \<Rightarrow> 'a fs_scheme" where
  "upd_inode i f s = s\<lparr>itab := (itab s)(i := f (itab s i))\<rparr>"

record stat =
  st_dev :: u32
  st_ino :: u32
  st_type :: u16
  st_nlink :: u16
  st_size :: u64

section \<open>Inodes in a block\<close>

text \<open>The offset of inode \<open>inum\<close> in its block, and of the fields in an inode.\<close>

definition dinode_off :: "u32 \<Rightarrow> nat" where
  "dinode_off inum = DINODE_SIZE * (unat inum mod IPB)"

record dinode =
  d_type :: u16
  d_major :: u16
  d_minor :: u16
  d_nlink :: u16
  d_size :: u32
  d_addrs :: "nat \<Rightarrow> u32"

definition get_dinode :: "block \<Rightarrow> nat \<Rightarrow> dinode" where
  "get_dinode d p = \<lparr>d_type = get16 d p, d_major = get16 d (p + 2), d_minor = get16 d (p + 4),
     d_nlink = get16 d (p + 6), d_size = get32 d (p + 8), d_addrs = (\<lambda>i. get32 d (p + 12 + 4 * i))\<rparr>"

definition put_addrs :: "nat \<Rightarrow> (nat \<Rightarrow> u32) \<Rightarrow> block \<Rightarrow> block" where
  "put_addrs p a d = fold (\<lambda>i. put32 (p + 4 * i) (a i)) [0..<NADDRS] d"

definition put_dinode :: "nat \<Rightarrow> dinode \<Rightarrow> block \<Rightarrow> block" where
  "put_dinode p x d =
     put_addrs (p + 12) (d_addrs x)
       (put32 (p + 8) (d_size x)
         (put16 (p + 6) (d_nlink x)
           (put16 (p + 4) (d_minor x)
             (put16 (p + 2) (d_major x)
               (put16 p (d_type x) d)))))"

text \<open>Two on-disk inodes with the same fields.\<close>

definition same_dinode :: "dinode \<Rightarrow> dinode \<Rightarrow> bool" where
  "same_dinode x y \<longleftrightarrow> d_type x = d_type y \<and> d_major x = d_major y \<and> d_minor x = d_minor y \<and>
     d_nlink x = d_nlink y \<and> d_size x = d_size y \<and> (\<forall>i < NADDRS. d_addrs x i = d_addrs y i)"

lemma put_addrs_other: "q < p \<or> p + 4 * n \<le> q \<Longrightarrow> fold (\<lambda>i. put32 (p + 4 * i) (a i)) [0..<n] d q = d q"
  by (induction n) (auto simp: putle_other)

lemma get_put_addrs:
  "get32 (fold (\<lambda>i. put32 (p + 4 * i) (a i)) [0..<n] d) (p + 4 * k) = (if k < n then a k else get32 d (p + 4 * k))"
proof (induction n)
  case (Suc n)
  show ?case
  proof (cases "k = n")
    case False
    then have "p + 4 * n + 4 \<le> p + 4 * k \<or> p + 4 * k + 4 \<le> p + 4 * n" by arith
    then show ?thesis using Suc False by (simp add: getle_putle_other)
  qed simp
qed simp

lemma put_dinode_other: "q < p \<or> p + DINODE_SIZE \<le> q \<Longrightarrow> put_dinode p x d q = d q"
  by (auto simp: put_dinode_def put_addrs_def put_addrs_other putle_other NADDRS_def NDIRECT_def DINODE_SIZE_def)

lemma get_put_dinode: "same_dinode (get_dinode (put_dinode p x d) p) x"
proof -
  have lo: "getle k (put_addrs (p + 12) a e) q = getle k e q" if "q + k \<le> p + 12" for k q a e
    unfolding put_addrs_def by (rule getle_cong) (use that in \<open>auto simp: put_addrs_other\<close>)
  have hi: "get32 (put_addrs (p + 12) a e) (p + 12 + 4 * i) = a i" if "i < NADDRS" for a e i
    using that by (simp add: put_addrs_def get_put_addrs)
  show ?thesis
    unfolding same_dinode_def get_dinode_def put_dinode_def by (simp add: lo hi getle_putle_other)
qed

lemma get_dinode_cong:
  "(\<And>q. p \<le> q \<Longrightarrow> q < p + DINODE_SIZE \<Longrightarrow> d q = e q) \<Longrightarrow> same_dinode (get_dinode d p) (get_dinode e p)"
  unfolding same_dinode_def get_dinode_def
  by (auto simp: DINODE_SIZE_def NADDRS_def NDIRECT_def intro!: getle_cong)

lemma dinode_off_apart:
  "unat i mod IPB \<noteq> unat j mod IPB \<Longrightarrow>
    dinode_off i + DINODE_SIZE \<le> dinode_off j \<or> dinode_off j + DINODE_SIZE \<le> dinode_off i"
  unfolding dinode_off_def DINODE_SIZE_def by auto

text \<open>
  Reading an inode back from its block gives the fields that were written, and every
  other inode of the block is as it was.
\<close>

theorem dinode_roundtrip:
  "same_dinode (get_dinode (put_dinode (dinode_off i) x d) (dinode_off i)) x \<and>
   (unat j mod IPB \<noteq> unat i mod IPB \<longrightarrow>
     same_dinode (get_dinode (put_dinode (dinode_off i) x d) (dinode_off j)) (get_dinode d (dinode_off j)))"
proof (intro conjI impI)
  assume "unat j mod IPB \<noteq> unat i mod IPB"
  then show "same_dinode (get_dinode (put_dinode (dinode_off i) x d) (dinode_off j)) (get_dinode d (dinode_off j))"
    using dinode_off_apart [of j i] by (intro get_dinode_cong put_dinode_other) auto
qed (rule get_put_dinode)

theorem dinode_roundtrip_witness:
  "d_size (get_dinode (put_dinode (dinode_off 17) \<lparr>d_type = 2, d_major = 0, d_minor = 0, d_nlink = 1,
     d_size = 99, d_addrs = (\<lambda>_. 0)\<rparr> (\<lambda>_. 0)) (dinode_off 17)) = 99 \<and>
   d_size (get_dinode (put_dinode (dinode_off 17) \<lparr>d_type = 2, d_major = 0, d_minor = 0, d_nlink = 1,
     d_size = 99, d_addrs = (\<lambda>_. 0)\<rparr> (\<lambda>_. 0)) (dinode_off 18)) = 0"
proof -
  let ?x = "\<lparr>d_type = 2, d_major = 0, d_minor = 0, d_nlink = 1, d_size = 99, d_addrs = (\<lambda>_. 0)\<rparr>"
  have "unat (18 :: u32) mod IPB \<noteq> unat (17 :: u32) mod IPB" by (simp add: IPB_def)
  moreover have "d_size (get_dinode (\<lambda>_. 0) q) = 0" for q by (simp add: get_dinode_def)
  ultimately show ?thesis
    using dinode_roundtrip [of 17 ?x "\<lambda>_. 0" 18] by (auto simp: same_dinode_def)
qed

end
