(* ===== verification/Fs_Alloc.thy ===== *)
theory Fs_Alloc
  imports Fs_Layout
begin

text \<open>
  The block allocator and the superblock (\<^verbatim>\<open>kernel/fs.c\<close>: \<open>readsb\<close>, \<open>fsinit\<close>, \<open>bzero\<close>, \<open>balloc\<close>,
  \<open>bfree\<close>). Block numbers that the code keeps in an \<^verbatim>\<open>int\<close> are natural numbers, which is exact for
  a disk of fewer than \<^verbatim>\<open>2^31\<close> blocks.
\<close>

section \<open>Operations\<close>

definition get_sb :: "block \<Rightarrow> superblock" where
  "get_sb d = \<lparr>sb_magic = get32 d 0, sb_size = get32 d 4, sb_nblocks = get32 d 8,
     sb_ninodes = get32 d 12, sb_nlog = get32 d 16, sb_logstart = get32 d 20,
     sb_inodestart = get32 d 24, sb_bmapstart = get32 d 28\<rparr>"

definition readsb :: "'a fs_scheme \<Rightarrow> 'a fs_scheme res" where
  "readsb s = ebind (blk_read 1 s) (\<lambda>s. blk_relse 1 (s\<lparr>sb := get_sb (blk s 1)\<rparr>))"

text \<open>\<open>recover\<close> is \<open>initlog\<close>, the log's part of it.\<close>

definition fsinit :: "(superblock \<Rightarrow> 'a fs_scheme \<Rightarrow> 'a fs_scheme res) \<Rightarrow> 'a fs_scheme \<Rightarrow> 'a fs_scheme res" where
  "fsinit recover s =
     ebind (readsb s) (\<lambda>s.
     if sb_magic (sb s) \<noteq> FSMAGIC then Inl (Panic ''invalid file system'')
     else recover (sb s) s)"

definition bzero :: "u32 \<Rightarrow> 'a fs_scheme \<Rightarrow> 'a fs_scheme res" where
  "bzero bno s =
     ebind (blk_read bno s) (\<lambda>s. blk_relse bno (blk_log bno (blk_set bno (\<lambda>_. 0) s)))"

text \<open>\<^verbatim>\<open>data[bi/8] & m\<close>, \<^verbatim>\<open>data[bi/8] |= m\<close> and \<^verbatim>\<open>data[bi/8] &= ~m\<close> with \<^verbatim>\<open>m = 1 << (bi % 8)\<close>.\<close>

definition bit_used :: "block \<Rightarrow> nat \<Rightarrow> bool" where
  "bit_used d bi \<longleftrightarrow> d (bi div 8) AND push_bit (bi mod 8) 1 \<noteq> 0"

definition mark_used :: "nat \<Rightarrow> block \<Rightarrow> block" where
  "mark_used bi d = d(bi div 8 := d (bi div 8) OR push_bit (bi mod 8) 1)"

definition mark_free :: "nat \<Rightarrow> block \<Rightarrow> block" where
  "mark_free bi d = d(bi div 8 := d (bi div 8) AND NOT (push_bit (bi mod 8) 1))"

function balloc_from :: "superblock \<Rightarrow> nat \<Rightarrow> 'a fs_scheme \<Rightarrow> (u32 \<times> 'a fs_scheme) res" where
  "balloc_from sblk b s =
     (if b < unat (sb_size sblk) then
        let bp = BBLOCK b sblk in
        ebind (blk_read bp s) (\<lambda>s.
        case scan (\<lambda>bi. \<not> bit_used (blk s bp) bi) 0 (min BPB (unat (sb_size sblk) - b)) of
          Some bi \<Rightarrow>
            ebind (blk_relse bp (blk_log bp (blk_set bp (mark_used bi (blk s bp)) s))) (\<lambda>s.
            ebind (bzero (of_nat (b + bi)) s) (\<lambda>s.
            Inr (of_nat (b + bi), s)))
        | None \<Rightarrow> ebind (blk_relse bp s) (balloc_from sblk (b + BPB)))
      else Inr (0, s))"
  by pat_completeness auto
termination
  by (relation "measure (\<lambda>(sblk, b, s). unat (sb_size sblk) - b)") (auto simp: BPB_def)

declare balloc_from.simps [simp del]

definition balloc :: "'a fs_scheme \<Rightarrow> (u32 \<times> 'a fs_scheme) res" where
  "balloc s = balloc_from (sb s) 0 s"

definition bfree :: "u32 \<Rightarrow> 'a fs_scheme \<Rightarrow> 'a fs_scheme res" where
  "bfree b s =
     (let bb = BBLOCK (unat b) (sb s); bi = unat b mod BPB in
      ebind (blk_read bb s) (\<lambda>s.
      if \<not> bit_used (blk s bb) bi then Inl (Panic ''freeing free block'')
      else blk_relse bb (blk_log bb (blk_set bb (mark_free bi (blk s bb)) s))))"

section \<open>The bitmap\<close>

lemma and_push_bit_1: "w AND push_bit n 1 \<noteq> 0 \<longleftrightarrow> n < LENGTH('w) \<and> bit (w :: 'w::len word) n"
proof -
  have z: "(x = 0) = (\<forall>k. \<not> bit x k)" for x :: "'w word" by (auto simp: bit_eq_iff dest: bit_imp_le_length)
  show ?thesis unfolding z by (auto simp: bit_simps dest: bit_imp_le_length)
qed

lemma bit_used_iff: "bit_used d n \<longleftrightarrow> bit (d (n div 8)) (n mod 8)"
  unfolding bit_used_def by (subst and_push_bit_1) auto

lemma div_mod_8: "(i div 8 = j div 8 \<and> i mod 8 = j mod 8) \<longleftrightarrow> i = (j :: nat)"
  by (metis mult_div_mod_eq)

lemma bit_used_mark: "bit_used (mark_used i d) j \<longleftrightarrow> j = i \<or> bit_used d j"
  unfolding bit_used_iff mark_used_def using div_mod_8 [of i j]
  by (auto simp: bit_simps)

lemma bit_used_unmark: "bit_used (mark_free i d) j \<longleftrightarrow> j \<noteq> i \<and> bit_used d j"
  unfolding bit_used_iff mark_free_def using div_mod_8 [of i j]
  by (auto simp: bit_simps)

text \<open>Whether the bitmap of the file system has block \<open>n\<close> in use.\<close>

definition in_use :: "'a fs_scheme \<Rightarrow> nat \<Rightarrow> bool" where
  "in_use s n \<longleftrightarrow> bit_used (blk s (BBLOCK n (sb s))) (n mod BPB)"

text \<open>
  The layout of a mounted file system, as far as the allocator relies on it: the bitmap blocks
  are distinct, inside the disk, unlocked, and in use themselves, and so is block 0.
\<close>

definition bmap_ok :: "'a fs_scheme \<Rightarrow> bool" where
  "bmap_ok s \<longleftrightarrow> unat (sb_size (sb s)) < 2 ^ 31 \<and>
     unat (sb_bmapstart (sb s)) + unat (sb_size (sb s)) div BPB < unat (sb_size (sb s)) \<and>
     (\<forall>n < unat (sb_size (sb s)). BBLOCK n (sb s) \<notin> lockd s \<and> BBLOCK n (sb s) \<notin> touched s \<and>
        in_use s (unat (BBLOCK n (sb s)))) \<and> in_use s 0 \<and> (\<forall>b. b \<in> lockd s \<or> b \<in> touched s \<longrightarrow> in_use s (unat b))"

lemma unat_BBLOCK:
  assumes "unat (sb_size b) < 2 ^ 31" "unat (sb_bmapstart b) + unat (sb_size b) div BPB < unat (sb_size b)"
    "n < unat (sb_size b)"
  shows "unat (BBLOCK n b) = n div BPB + unat (sb_bmapstart b)" "unat (BBLOCK n b) < unat (sb_size b)"
proof -
  have "n div BPB \<le> unat (sb_size b) div BPB" using assms(3) by (intro div_le_mono) simp
  then have *: "n div BPB + unat (sb_bmapstart b) < unat (sb_size b)" using assms(2) by simp
  then have lt: "n div BPB + unat (sb_bmapstart b) < 2 ^ 32" using assms(1) by simp
  then have "n div BPB < 2 ^ LENGTH(32)" by simp
  then have "unat (of_nat (n div BPB) :: u32) = n div BPB" by (simp add: unat_of_nat)
  then show u: "unat (BBLOCK n b) = n div BPB + unat (sb_bmapstart b)"
    unfolding BBLOCK_def using lt by (simp add: unat_word_ariths)
  show "unat (BBLOCK n b) < unat (sb_size b)" unfolding u by (rule *)
qed

lemma BBLOCK_eq:
  assumes "bmap_ok s" "i < unat (sb_size (sb s))" "j < unat (sb_size (sb s))"
  shows "BBLOCK i (sb s) = BBLOCK j (sb s) \<longleftrightarrow> i div BPB = j div BPB"
proof -
  have "unat (BBLOCK i (sb s)) = unat (BBLOCK j (sb s)) \<longleftrightarrow> i div BPB = j div BPB"
    using unat_BBLOCK(1) [of "sb s"] assms by (simp add: bmap_ok_def)
  then show ?thesis by (simp add: word_unat_eq_iff)
qed

lemma block_index: "i div BPB = j div BPB \<Longrightarrow> i mod BPB = j mod BPB \<Longrightarrow> i = j"
  by (metis mult_div_mod_eq)

text \<open>The state after block \<open>n\<close> has been allocated.\<close>

definition allocated :: "nat \<Rightarrow> 'a fs_scheme \<Rightarrow> 'a fs_scheme" where
  "allocated n s =
     (let bb = BBLOCK n (sb s) in
      s\<lparr>blk := (blk s)(bb := mark_used (n mod BPB) (blk s bb), of_nat n := (\<lambda>_. 0)),
        dirty := insert (of_nat n) (insert bb (dirty s))\<rparr>)"

lemma bmap_okD:
  assumes "bmap_ok s"
  shows "unat (sb_size (sb s)) < 2 ^ 31" "n < unat (sb_size (sb s)) \<Longrightarrow> BBLOCK n (sb s) \<notin> lockd s"
    "n < unat (sb_size (sb s)) \<Longrightarrow> BBLOCK n (sb s) \<notin> touched s"
    "n < unat (sb_size (sb s)) \<Longrightarrow> in_use s (unat (BBLOCK n (sb s)))" "in_use s 0"
    "b \<in> lockd s \<Longrightarrow> in_use s (unat b)" "b \<in> touched s \<Longrightarrow> in_use s (unat b)"
  using assms by (auto simp: bmap_ok_def)

lemma unat_block_number: "n < 2 ^ 31 \<Longrightarrow> unat (of_nat n :: u32) = n"
  by (rule of_nat_inverse) auto

lemma balloc_from_spec:
  assumes "bmap_ok s" "b mod BPB = 0" "\<forall>m < min b (unat (sb_size (sb s))). in_use s m"
  shows "(\<exists>n < unat (sb_size (sb s)). \<not> in_use s n \<and> (\<forall>m < n. in_use s m) \<and>
            balloc_from (sb s) b s = Inr (of_nat n, allocated n s)) \<or>
         ((\<forall>n < unat (sb_size (sb s)). in_use s n) \<and> balloc_from (sb s) b s = Inr (0, s))"
  using assms(2,3)
proof (induction "unat (sb_size (sb s)) - b" arbitrary: b rule: less_induct)
  case less
  let ?N = "unat (sb_size (sb s))"
  note K = bmap_okD [OF assms(1)]
  show ?case
  proof (cases "b < ?N")
    case False
    then have "\<forall>n < ?N. in_use s n" using less.prems(2) by simp
    moreover have "balloc_from (sb s) b s = Inr (0, s)" using False by (subst balloc_from.simps) simp
    ultimately show ?thesis by blast
  next
    case True
    define bp where "bp = BBLOCK b (sb s)"
    have bp: "bp \<notin> lockd s" "bp \<notin> touched s" using K(2,3) [OF True] by (simp_all add: bp_def)
    have idx: "(b + bi) div BPB = b div BPB" "(b + bi) mod BPB = bi" if "bi < BPB" for bi
      using that less.prems(1) by (auto simp: mod_eq_0_iff_dvd elim!: dvdE simp: BPB_def)
    have use: "in_use s (b + bi) \<longleftrightarrow> bit_used (blk s bp) bi" if "bi < BPB" for bi
      using idx [OF that] by (simp add: in_use_def BBLOCK_def bp_def)
    let ?sc = "scan (\<lambda>bi. \<not> bit_used (blk s bp) bi) 0 (min BPB (?N - b))"
    have unf: "balloc_from (sb s) b s = (case ?sc of
          Some bi \<Rightarrow> ebind (bzero (of_nat (b + bi)) (s\<lparr>blk := (blk s)(bp := mark_used bi (blk s bp)),
              dirty := insert bp (dirty s)\<rparr>)) (\<lambda>s. Inr (of_nat (b + bi), s))
        | None \<Rightarrow> balloc_from (sb s) (b + BPB) s)"
      using True bp by (subst balloc_from.simps) (simp add: Let_def bp_def [symmetric] split: option.splits)
    show ?thesis
    proof (cases ?sc)
      case (Some bi)
      then have bi: "bi < BPB" "b + bi < ?N" "\<not> bit_used (blk s bp) bi" "\<forall>j < bi. bit_used (blk s bp) j"
        using scan_SomeD [OF Some] by auto
      let ?n = "b + bi" let ?w = "of_nat (b + bi) :: u32"
      have nfree: "\<not> in_use s ?n" using use bi by simp
      have un: "unat ?w = ?n" using bi(2) K(1) by (intro unat_block_number) simp
      have "in_use s m" if "m < ?n" for m
      proof (cases "m < b")
        case False
        then have "m - b < bi" "m - b < BPB" "b + (m - b) = m" using that bi(1) by auto
        then show ?thesis using use [of "m - b"] bi(4) by auto
      qed (use less.prems(2) True in simp)
      moreover have w: "?w \<notin> lockd s" "?w \<notin> touched s" "?w \<noteq> bp"
        using K(6) [of ?w] K(7) [of ?w] K(4) [OF True] nfree un by (auto simp: bp_def)
      have bn: "BBLOCK ?n (sb s) = bp" using idx [OF bi(1)] by (simp add: BBLOCK_def bp_def)
      have "balloc_from (sb s) b s = Inr (?w, allocated ?n s)"
        using w unfolding unf Some allocated_def bn idx(2) [OF bi(1)]
        by (simp add: bzero_def fun_upd_twist)
      ultimately show ?thesis using nfree bi(2) by blast
    next
      case None
      have all: "in_use s m" if "m < min (b + BPB) ?N" for m
      proof (cases "m < b")
        case False
        then have "m - b < min BPB (?N - b)" using that by auto
        then have "bit_used (blk s bp) (m - b)" "m - b < BPB" using None by (auto simp: scan_None_iff)
        then show ?thesis using use [of "m - b"] False by simp
      qed (use less.prems(2) True in simp)
      show ?thesis unfolding unf None option.case
        by (rule less.hyps) (use True less.prems(1) all in \<open>auto simp: BPB_def\<close>)
    qed
  qed
qed

lemma balloc_spec:
  assumes "bmap_ok s"
  shows "(\<exists>n < unat (sb_size (sb s)). \<not> in_use s n \<and> (\<forall>m < n. in_use s m) \<and>
            balloc s = Inr (of_nat n, allocated n s)) \<or>
         ((\<forall>n < unat (sb_size (sb s)). in_use s n) \<and> balloc s = Inr (0, s))"
  unfolding balloc_def by (rule balloc_from_spec [OF assms]) auto

lemma in_use_allocated:
  assumes "bmap_ok s" "n < unat (sb_size (sb s))" "\<not> in_use s n" "m < unat (sb_size (sb s))"
  shows "in_use (allocated n s) m \<longleftrightarrow> m = n \<or> in_use s m"
proof -
  note K = bmap_okD [OF assms(1)]
  have "unat (of_nat n :: u32) = n" using assms(2) K(1) by (intro unat_block_number) simp
  then have ne: "BBLOCK m (sb s) \<noteq> of_nat n"
    if "m < unat (sb_size (sb s))" for m using K(4) [OF that] assms(3) by metis
  have b: "blk (allocated n s) (BBLOCK m (sb s)) =
      (if BBLOCK m (sb s) = BBLOCK n (sb s) then mark_used (n mod BPB) (blk s (BBLOCK n (sb s))) else blk s (BBLOCK m (sb s)))"
    using ne [OF assms(4)] by (simp add: allocated_def Let_def)
  have sb: "sb (allocated n s) = sb s" by (simp add: allocated_def Let_def)
  show ?thesis
    unfolding in_use_def sb b using BBLOCK_eq [OF assms(1,4,2)] block_index [of m n]
    by (auto simp: bit_used_mark)
qed

lemma allocated_blk:
  "b \<noteq> of_nat n \<Longrightarrow> b \<noteq> BBLOCK n (sb s) \<Longrightarrow> blk (allocated n s) b = blk s b"
  "blk (allocated n s) (of_nat n) = (\<lambda>_. 0)" "sb (allocated n s) = sb s" "itab (allocated n s) = itab s"
  "lockd (allocated n s) = lockd s" "touched (allocated n s) = touched s"
  by (simp_all add: allocated_def Let_def)

text \<open>A disk of 8192 blocks with its bitmap in block 45, the first 46 blocks in use.\<close>

definition small_fs :: fs where
  "small_fs = \<lparr>blk = (\<lambda>b. if b = 45 then (\<lambda>k. if k < 5 then 255 else if k = 5 then 63 else 0) else (\<lambda>_. 7)),
     lockd = {}, touched = {}, dirty = {},
     sb = \<lparr>sb_magic = FSMAGIC, sb_size = 8192, sb_nblocks = 8146, sb_ninodes = 200, sb_nlog = 30,
           sb_logstart = 2, sb_inodestart = 32, sb_bmapstart = 45\<rparr>,
     itab = (\<lambda>_. \<lparr>i_dev = 0, i_inum = 0, i_ref = 0, i_lock = \<lparr>sl_locked = False, sl_pid = 0\<rparr>, i_valid = False,
        i_type = 0, i_major = 0, i_minor = 0, i_nlink = 0, i_size = 0, i_addrs = (\<lambda>_. 0)\<rparr>)\<rparr>"

lemma small_fs_bmap: "n < 8192 \<Longrightarrow> BBLOCK n (sb small_fs) = 45"
  by (simp add: BBLOCK_def small_fs_def BPB_def)

lemma small_fs_ok: "bmap_ok small_fs" "in_use small_fs 45" "\<not> in_use small_fs 46"
proof -
  have u: "in_use small_fs 45" "in_use small_fs 0" "\<not> in_use small_fs 46"
    by (simp_all add: in_use_def BBLOCK_def BPB_def small_fs_def bit_used_def)
  have f: "unat (sb_size (sb small_fs)) = 8192" "unat (sb_bmapstart (sb small_fs)) = 45"
    "lockd small_fs = {}" "touched small_fs = {}"
    by (simp_all add: small_fs_def)
  show "bmap_ok small_fs" unfolding bmap_ok_def f using u small_fs_bmap by (auto simp: BPB_def)
  show "in_use small_fs 45" "\<not> in_use small_fs 46" using u by auto
qed

section \<open>Properties\<close>

text \<open>
  Claim C16. \<open>balloc\<close> allocates the first free block: it returns its number, marks it and no other
  block as used, zeroes it, and changes no block but it and one bitmap block. It returns 0, and
  changes nothing, exactly when every block of the disk is in use; the bitmap stays well formed.
\<close>

theorem balloc_correct:
  assumes "bmap_ok s"
  shows "\<exists>b s'. balloc s = Inr (b, s') \<and>
    (if \<forall>n < unat (sb_size (sb s)). in_use s n then b = 0 \<and> s' = s
     else unat b < unat (sb_size (sb s)) \<and> \<not> in_use s (unat b) \<and> (\<forall>m < unat b. in_use s m) \<and>
       blk s' b = (\<lambda>_. 0) \<and>
       (\<forall>m < unat (sb_size (sb s)). in_use s' m \<longleftrightarrow> m = unat b \<or> in_use s m) \<and>
       (\<forall>c. c \<noteq> b \<longrightarrow> c \<noteq> BBLOCK (unat b) (sb s) \<longrightarrow> blk s' c = blk s c) \<and>
       lockd s' = lockd s)"
proof (cases "\<forall>n < unat (sb_size (sb s)). in_use s n")
  case True
  then show ?thesis using balloc_spec [OF assms] by auto
next
  case False
  then obtain n where n: "n < unat (sb_size (sb s))" "\<not> in_use s n" "\<forall>m < n. in_use s m"
    "balloc s = Inr (of_nat n, allocated n s)"
    using balloc_spec [OF assms] by blast
  have "unat (of_nat n :: u32) = n" using n(1) bmap_okD(1) [OF assms] by (intro unat_block_number) simp
  then show ?thesis
    using n False in_use_allocated [OF assms n(1,2)] allocated_blk(1) [of _ n s] allocated_blk(2-6) [of n s]
    by (intro exI [of _ "of_nat n"] exI [of _ "allocated n s"]) auto
qed

theorem balloc_correct_witness:
  "\<exists>b s'. balloc small_fs = Inr (b, s') \<and> \<not> in_use small_fs (unat b) \<and> blk s' b = (\<lambda>_. 0)"
proof -
  have "46 < unat (sb_size (sb small_fs))" by (simp add: small_fs_def)
  then have "\<not> (\<forall>n < unat (sb_size (sb small_fs)). in_use small_fs n)" using small_fs_ok(3) by blast
  then show ?thesis using balloc_correct [OF small_fs_ok(1)] by (metis (no_types, lifting))
qed

text \<open>
  Claim C31. \<open>bfree\<close> panics exactly on a block that is free already, and otherwise marks that block
  and no other as free and changes nothing but one bitmap block.
\<close>

theorem bfree_correct:
  assumes "bmap_ok s" "unat b < unat (sb_size (sb s))"
  shows "bfree b s = (if \<not> in_use s (unat b) then Inl (Panic ''freeing free block'')
      else let bb = BBLOCK (unat b) (sb s) in
        Inr (s\<lparr>blk := (blk s)(bb := mark_free (unat b mod BPB) (blk s bb)), dirty := insert bb (dirty s)\<rparr>)) \<and>
    (\<forall>s' m. bfree b s = Inr s' \<longrightarrow> m < unat (sb_size (sb s)) \<longrightarrow>
       (in_use s' m \<longleftrightarrow> m \<noteq> unat b \<and> in_use s m))"
proof -
  let ?bb = "BBLOCK (unat b) (sb s)"
  have l: "?bb \<notin> lockd s" "?bb \<notin> touched s" using bmap_okD(2,3) [OF assms(1,2)] by auto
  have e: "bfree b s = (if \<not> in_use s (unat b) then Inl (Panic ''freeing free block'')
      else Inr (s\<lparr>blk := (blk s)(?bb := mark_free (unat b mod BPB) (blk s ?bb)), dirty := insert ?bb (dirty s)\<rparr>))"
    using l by (simp add: bfree_def Let_def in_use_def)
  have "in_use (s\<lparr>blk := (blk s)(?bb := mark_free (unat b mod BPB) (blk s ?bb)), dirty := insert ?bb (dirty s)\<rparr>) m \<longleftrightarrow>
      m \<noteq> unat b \<and> in_use s m" if "m < unat (sb_size (sb s))" for m
    using BBLOCK_eq [OF assms(1) that assms(2)] block_index [of m "unat b"]
    by (auto simp: in_use_def bit_used_unmark)
  then show ?thesis using e unfolding Let_def by (simp split: if_splits)
qed

theorem bfree_correct_witness:
  "bfree 46 small_fs = Inl (Panic ''freeing free block'') \<and> (\<exists>s'. bfree 45 small_fs = Inr s' \<and> \<not> in_use s' 45)"
proof -
  have s: "unat (46 :: u32) < unat (sb_size (sb small_fs))" "unat (45 :: u32) < unat (sb_size (sb small_fs))"
    by (simp_all add: small_fs_def)
  have u: "\<not> in_use small_fs (unat (46 :: u32))" "in_use small_fs (unat (45 :: u32))" using small_fs_ok(2,3) by simp_all
  have e: "bfree 46 small_fs = Inl (Panic ''freeing free block'')"
    using bfree_correct [OF small_fs_ok(1) s(1), THEN conjunct1] u(1) by (simp only: if_True simp_thms)
  obtain s' where s': "bfree 45 small_fs = Inr s'"
    using bfree_correct [OF small_fs_ok(1) s(2), THEN conjunct1] u(2) unfolding Let_def
    by (simp only: if_False simp_thms)
  have "\<not> in_use s' (unat (45 :: u32))"
    using bfree_correct [OF small_fs_ok(1) s(2), THEN conjunct2] s' s(2) by blast
  then have "\<not> in_use s' 45" by (simp only: unat_numeral) simp
  then show ?thesis using e s' by blast
qed

end
