(* ===== verification/Fs_Inode.thy ===== *)
theory Fs_Inode
  imports Fs_Alloc
begin

text \<open>
  Inodes (\<^verbatim>\<open>kernel/fs.c\<close>): the in-memory table (\<open>iinit\<close>, \<open>iget\<close>, \<open>idup\<close>, \<open>ilock\<close>, \<open>iunlock\<close>, \<open>iput\<close>,
  \<open>iunlockput\<close>), the on-disk inodes (\<open>ialloc\<close>, \<open>iupdate\<close>), and the map from the blocks of a file to
  disk blocks (\<open>bmap\<close>, \<open>itrunc\<close>). A \<^verbatim>\<open>struct inode *\<close> that the code compares with 0 is a
  \<^verbatim>\<open>nat option\<close>; \<^verbatim>\<open>itable.lock\<close> is held over each step that uses the table.
\<close>

section \<open>Operations\<close>

definition iinit :: "'a fs_scheme \<Rightarrow> 'a fs_scheme" where
  "iinit s = fold (\<lambda>i. upd_inode i (\<lambda>ip. ip\<lparr>i_lock := initsleeplock\<rparr>)) [0..<NINODE] s"

text \<open>The loop of \<open>iget\<close>: a slot that holds the inode ends it, an empty slot is remembered.\<close>

function iget_find :: "u32 \<Rightarrow> u32 \<Rightarrow> 'a fs_scheme \<Rightarrow> nat \<Rightarrow> nat option \<Rightarrow> nat option \<times> nat option" where
  "iget_find dev inum s i emp =
     (if i < NINODE then
        let ip = itab s i in
        if i_ref ip > 0 \<and> i_dev ip = dev \<and> i_inum ip = inum then (Some i, emp)
        else iget_find dev inum s (i + 1) (if emp = None \<and> i_ref ip = 0 then Some i else emp)
      else (None, emp))"
  by pat_completeness auto
termination
  by (relation "measure (\<lambda>(dev, inum, s, i, emp). NINODE - i)") auto

declare iget_find.simps [simp del]

definition iget :: "u32 \<Rightarrow> u32 \<Rightarrow> 'a fs_scheme \<Rightarrow> (nat \<times> 'a fs_scheme) res" where
  "iget dev inum s =
     (case iget_find dev inum s 0 None of
        (Some i, _) \<Rightarrow> Inr (i, upd_inode i (\<lambda>ip. ip\<lparr>i_ref := i_ref ip + 1\<rparr>) s)
      | (None, None) \<Rightarrow> Inl (Panic ''iget: no inodes'')
      | (None, Some i) \<Rightarrow>
          Inr (i, upd_inode i (\<lambda>ip. ip\<lparr>i_dev := dev, i_inum := inum, i_ref := 1, i_valid := False\<rparr>) s))"

definition idup :: "nat \<Rightarrow> 'a fs_scheme \<Rightarrow> nat \<times> 'a fs_scheme" where
  "idup i s = (i, upd_inode i (\<lambda>ip. ip\<lparr>i_ref := i_ref ip + 1\<rparr>) s)"

text \<open>\<open>ialloc\<close> prints a message when it returns 0.\<close>

function ialloc_from :: "u32 \<Rightarrow> u16 \<Rightarrow> nat \<Rightarrow> superblock \<Rightarrow> 'a fs_scheme \<Rightarrow> (nat option \<times> 'a fs_scheme) res" where
  "ialloc_from dev ty inum sblk s =
     (if inum < unat (sb_ninodes sblk) then
        let bp = IBLOCK (of_nat inum) sblk; dip = dinode_off (of_nat inum) in
        ebind (blk_read bp s) (\<lambda>s.
        if get16 (blk s bp) dip = 0 then
          ebind (blk_relse bp (blk_log bp (blk_set bp (put16 dip ty (memset dip 0 DINODE_SIZE (blk s bp))) s))) (\<lambda>s.
          ebind (iget dev (of_nat inum) s) (\<lambda>(i, s). Inr (Some i, s)))
        else ebind (blk_relse bp s) (ialloc_from dev ty (inum + 1) sblk))
      else Inr (None, s))"
  by pat_completeness auto
termination
  by (relation "measure (\<lambda>(dev, ty, inum, sblk, s). unat (sb_ninodes sblk) - inum)") auto

declare ialloc_from.simps [simp del]

definition ialloc :: "u32 \<Rightarrow> u16 \<Rightarrow> 'a fs_scheme \<Rightarrow> (nat option \<times> 'a fs_scheme) res" where
  "ialloc dev ty s = ialloc_from dev ty 1 (sb s) s"

definition iupdate :: "nat \<Rightarrow> 'a fs_scheme \<Rightarrow> 'a fs_scheme res" where
  "iupdate i s =
     (let bp = IBLOCK (i_inum (itab s i)) (sb s) in
      ebind (blk_read bp s) (\<lambda>s.
      let ip = itab s i;
          d = \<lparr>d_type = i_type ip, d_major = i_major ip, d_minor = i_minor ip, d_nlink = i_nlink ip,
               d_size = i_size ip, d_addrs = i_addrs ip\<rparr> in
      blk_relse bp (blk_log bp (blk_set bp (put_dinode (dinode_off (i_inum ip)) d (blk s bp)) s))))"

text \<open>What \<open>ilock\<close> copies out of the on-disk inode.\<close>

definition load_inode :: "dinode \<Rightarrow> inode \<Rightarrow> inode" where
  "load_inode d ip = ip\<lparr>i_type := d_type d, i_major := d_major d, i_minor := d_minor d, i_nlink := d_nlink d,
     i_size := d_size d, i_addrs := d_addrs d\<rparr>"

definition ilock :: "int \<Rightarrow> nat option \<Rightarrow> 'a fs_scheme \<Rightarrow> 'a fs_scheme res" where
  "ilock pid ip s =
     (case ip of
        None \<Rightarrow> Inl (Panic ''ilock'')
      | Some i \<Rightarrow>
          if i_ref (itab s i) < 1 then Inl (Panic ''ilock'')
          else
            ebind (acquiresleep pid (i_lock (itab s i))) (\<lambda>lk.
            let s = upd_inode i (\<lambda>ip. ip\<lparr>i_lock := lk\<rparr>) s in
            if \<not> i_valid (itab s i) then
              let bp = IBLOCK (i_inum (itab s i)) (sb s) in
              ebind (blk_read bp s) (\<lambda>s.
              ebind (blk_relse bp (upd_inode i (load_inode (get_dinode (blk s bp) (dinode_off (i_inum (itab s i))))) s)) (\<lambda>s.
              let s = upd_inode i (\<lambda>ip. ip\<lparr>i_valid := True\<rparr>) s in
              if i_type (itab s i) = 0 then Inl (Panic ''ilock: no type'') else Inr s))
            else Inr s))"

definition iunlock :: "int \<Rightarrow> nat option \<Rightarrow> 'a fs_scheme \<Rightarrow> 'a fs_scheme res" where
  "iunlock pid ip s =
     (case ip of
        None \<Rightarrow> Inl (Panic ''iunlock'')
      | Some i \<Rightarrow>
          if \<not> holdingsleep pid (i_lock (itab s i)) \<or> i_ref (itab s i) < 1 then Inl (Panic ''iunlock'')
          else Inr (upd_inode i (\<lambda>ip. ip\<lparr>i_lock := releasesleep (i_lock ip)\<rparr>) s))"

text \<open>
  The two lookups of \<open>bmap\<close>, each of which allocates a block when there is none: an entry of
  \<^verbatim>\<open>ip->addrs\<close>, and an entry of an indirect block. They return 0 when the disk is full.
\<close>

definition bmap_addr :: "nat \<Rightarrow> nat \<Rightarrow> 'a fs_scheme \<Rightarrow> (u32 \<times> 'a fs_scheme) res" where
  "bmap_addr i k s =
     (let addr = i_addrs (itab s i) k in
      if addr = 0 then
        ebind (balloc s) (\<lambda>(addr, s).
        if addr = 0 then Inr (0, s)
        else Inr (addr, upd_inode i (\<lambda>ip. ip\<lparr>i_addrs := (i_addrs ip)(k := addr)\<rparr>) s))
      else Inr (addr, s))"

definition bmap_entry :: "u32 \<Rightarrow> nat \<Rightarrow> 'a fs_scheme \<Rightarrow> (u32 \<times> 'a fs_scheme) res" where
  "bmap_entry bp k s =
     ebind (blk_read bp s) (\<lambda>s.
     let addr = get32 (blk s bp) (4 * k) in
     ebind (if addr = 0 then
              ebind (balloc s) (\<lambda>(addr, s).
              if addr \<noteq> 0 then Inr (addr, blk_log bp (blk_set bp (put32 (4 * k) addr (blk s bp)) s))
              else Inr (addr, s))
            else Inr (addr, s)) (\<lambda>(addr, s).
     ebind (blk_relse bp s) (\<lambda>s. Inr (addr, s))))"

definition bmap :: "nat \<Rightarrow> nat \<Rightarrow> 'a fs_scheme \<Rightarrow> (u32 \<times> 'a fs_scheme) res" where
  "bmap i bn s =
     (if bn < NDIRECT then bmap_addr i bn s
      else let bn = bn - NDIRECT in
      if bn < NINDIRECT then
        ebind (bmap_addr i NDIRECT s) (\<lambda>(addr, s).
        if addr = 0 then Inr (0, s) else bmap_entry addr bn s)
      else let bn = bn - NINDIRECT in
      if bn < DOUBLEINDIRECT then
        ebind (bmap_addr i (NDIRECT + 1) s) (\<lambda>(addr, s).
        if addr = 0 then Inr (0, s)
        else
          ebind (bmap_entry addr (bn div NINDIRECT) s) (\<lambda>(addr, s).
          bmap_entry addr (bn mod NINDIRECT) s))
      else Inl (Panic ''bmap: out of range''))"

text \<open>\<open>itrunc\<close>: the direct blocks, the indirect block, and the double-indirect block.\<close>

definition itrunc_direct :: "nat \<Rightarrow> nat \<Rightarrow> 'a fs_scheme \<Rightarrow> 'a fs_scheme res" where
  "itrunc_direct i k s =
     (let addr = i_addrs (itab s i) k in
      if addr \<noteq> 0 then
        ebind (bfree addr s) (\<lambda>s. Inr (upd_inode i (\<lambda>ip. ip\<lparr>i_addrs := (i_addrs ip)(k := 0)\<rparr>) s))
      else Inr s)"

text \<open>The loop over the entries of an indirect block held in the buffer \<open>bp\<close>.\<close>

definition free_entries :: "u32 \<Rightarrow> 'a fs_scheme \<Rightarrow> 'a fs_scheme res" where
  "free_entries bp s =
     efold (\<lambda>j s. let a = get32 (blk s bp) (4 * j) in if a \<noteq> 0 then bfree a s else Inr s) [0..<NINDIRECT] s"

definition free_indirect :: "u32 \<Rightarrow> 'a fs_scheme \<Rightarrow> 'a fs_scheme res" where
  "free_indirect bp s =
     ebind (blk_read bp s) (\<lambda>s.
     ebind (free_entries bp s) (\<lambda>s.
     ebind (blk_relse bp s) (\<lambda>s.
     bfree bp s)))"

definition free_double :: "u32 \<Rightarrow> 'a fs_scheme \<Rightarrow> 'a fs_scheme res" where
  "free_double bp s =
     ebind (blk_read bp s) (\<lambda>s.
     ebind (efold (\<lambda>j s. free_indirect (get32 (blk s bp) (4 * j)) s) [0..<NINDIRECT] s) (\<lambda>s.
     ebind (blk_relse bp s) (\<lambda>s.
     bfree bp s)))"

definition itrunc :: "nat \<Rightarrow> 'a fs_scheme \<Rightarrow> 'a fs_scheme res" where
  "itrunc i s =
     ebind (efold (itrunc_direct i) [0..<NDIRECT] s) (\<lambda>s.
     ebind (let addr = i_addrs (itab s i) NDIRECT in
            if addr \<noteq> 0 then
              ebind (free_indirect addr s) (\<lambda>s.
              Inr (upd_inode i (\<lambda>ip. ip\<lparr>i_addrs := (i_addrs ip)(NDIRECT := 0)\<rparr>) s))
            else Inr s) (\<lambda>s.
     ebind (let addr = i_addrs (itab s i) (NDIRECT + 1) in
            if addr \<noteq> 0 then
              ebind (free_double addr s) (\<lambda>s.
              Inr (upd_inode i (\<lambda>ip. ip\<lparr>i_addrs := (i_addrs ip)(NDIRECT + 1 := 0)\<rparr>) s))
            else Inr s) (\<lambda>s.
     iupdate i (upd_inode i (\<lambda>ip. ip\<lparr>i_size := 0\<rparr>) s))))"

definition iput :: "int \<Rightarrow> nat \<Rightarrow> 'a fs_scheme \<Rightarrow> 'a fs_scheme res" where
  "iput pid i s =
     ebind (if i_ref (itab s i) = 1 \<and> i_valid (itab s i) \<and> i_nlink (itab s i) = 0 then
              ebind (acquiresleep pid (i_lock (itab s i))) (\<lambda>lk.
              ebind (itrunc i (upd_inode i (\<lambda>ip. ip\<lparr>i_lock := lk\<rparr>) s)) (\<lambda>s.
              ebind (iupdate i (upd_inode i (\<lambda>ip. ip\<lparr>i_type := 0\<rparr>) s)) (\<lambda>s.
              Inr (upd_inode i (\<lambda>ip. ip\<lparr>i_valid := False, i_lock := releasesleep (i_lock ip)\<rparr>) s))))
            else Inr s) (\<lambda>s.
     Inr (upd_inode i (\<lambda>ip. ip\<lparr>i_ref := i_ref ip - 1\<rparr>) s))"

definition iunlockput :: "int \<Rightarrow> nat \<Rightarrow> 'a fs_scheme \<Rightarrow> 'a fs_scheme res" where
  "iunlockput pid i s = ebind (iunlock pid (Some i) s) (iput pid i)"

definition stati :: "nat \<Rightarrow> 'a fs_scheme \<Rightarrow> stat" where
  "stati i s =
     (let ip = itab s i in
      \<lparr>st_dev = i_dev ip, st_ino = i_inum ip, st_type = i_type ip, st_nlink = i_nlink ip,
       st_size = ucast (i_size ip)\<rparr>)"

section \<open>The inode table\<close>

text \<open>
  At most one slot in use per inode, and no slot with a negative count.
\<close>

definition itab_ok :: "'a fs_scheme \<Rightarrow> bool" where
  "itab_ok s \<longleftrightarrow> (\<forall>i < NINODE. 0 \<le> i_ref (itab s i)) \<and>
     (\<forall>i < NINODE. \<forall>j < NINODE. 0 < i_ref (itab s i) \<and> 0 < i_ref (itab s j) \<and>
        i_dev (itab s i) = i_dev (itab s j) \<and> i_inum (itab s i) = i_inum (itab s j) \<longrightarrow> i = j)"

definition holds_inode :: "u32 \<Rightarrow> u32 \<Rightarrow> 'a fs_scheme \<Rightarrow> nat \<Rightarrow> bool" where
  "holds_inode dev inum s i \<longleftrightarrow> i_ref (itab s i) > 0 \<and> i_dev (itab s i) = dev \<and> i_inum (itab s i) = inum"

lemma upd_inode_sel [simp]:
  "itab (upd_inode i f s) = (itab s)(i := f (itab s i))" "sb (upd_inode i f s) = sb s"
  "blk (upd_inode i f s) = blk s" "lockd (upd_inode i f s) = lockd s"
  "touched (upd_inode i f s) = touched s" "dirty (upd_inode i f s) = dirty s"
  by (simp_all add: upd_inode_def)

text \<open>The combined loop of \<open>iget\<close> is two searches.\<close>

lemma iget_find_scan:
  "fst (iget_find dev inum s i e) = scan (holds_inode dev inum s) i NINODE \<and>
   (scan (holds_inode dev inum s) i NINODE = None \<longrightarrow> snd (iget_find dev inum s i e) =
      (case e of None \<Rightarrow> scan (\<lambda>j. i_ref (itab s j) = 0) i NINODE | Some _ \<Rightarrow> e))"
proof (induction dev inum s i e rule: iget_find.induct)
  case (1 dev inum s i e)
  show ?case
  proof (cases "i < NINODE \<and> \<not> holds_inode dev inum s i")
    case True
    have "iget_find dev inum s i e = iget_find dev inum s (i + 1) (if e = None \<and> i_ref (itab s i) = 0 then Some i else e)"
      using True by (subst iget_find.simps) (auto simp: holds_inode_def Let_def)
    moreover have "scan (holds_inode dev inum s) i NINODE = scan (holds_inode dev inum s) (i + 1) NINODE"
      using True by (simp add: scan_step [of _ i])
    ultimately show ?thesis
      using 1 [OF _ refl] True by (auto simp: holds_inode_def scan_step [of _ i] split: option.splits)
  next
    case False
    then show ?thesis
      by (subst (1 2) iget_find.simps)
        (auto simp: holds_inode_def Let_def scan_step [of _ i] split: option.splits)
  qed
qed

lemma iget_eq:
  "iget dev inum s =
     (case scan (holds_inode dev inum s) 0 NINODE of
        Some i \<Rightarrow> Inr (i, upd_inode i (\<lambda>ip. ip\<lparr>i_ref := i_ref ip + 1\<rparr>) s)
      | None \<Rightarrow> (case scan (\<lambda>j. i_ref (itab s j) = 0) 0 NINODE of
          None \<Rightarrow> Inl (Panic ''iget: no inodes'')
        | Some i \<Rightarrow> Inr (i, upd_inode i (\<lambda>ip. ip\<lparr>i_dev := dev, i_inum := inum, i_ref := 1, i_valid := False\<rparr>) s)))"
  using iget_find_scan [of dev inum s 0 None]
  by (cases "iget_find dev inum s 0 None") (auto simp: iget_def split: option.splits)

lemma iget_returns:
  assumes "i < NINODE" "holds_inode dev inum s i \<or> i_ref (itab s i) = 0"
  shows "\<exists>j s'. iget dev inum s = Inr (j, s')"
  using assms by (auto simp: iget_eq scan_None_iff split: option.splits)

lemma iget_refs:
  assumes "iget dev inum s = Inr (i, s')" "itab_ok s"
  shows "i < NINODE" "holds_inode dev inum s' i"
    "i_ref (itab s' i) = (if holds_inode dev inum s i then i_ref (itab s i) + 1 else 1)"
    "(\<exists>j < NINODE. holds_inode dev inum s j) \<longrightarrow> holds_inode dev inum s i"
    "\<forall>j. j \<noteq> i \<longrightarrow> itab s' j = itab s j" "blk s' = blk s" "sb s' = sb s" "lockd s' = lockd s"
  using assms
  by (auto simp: iget_eq holds_inode_def scan_None_iff scan_Some_iff split: option.splits)

lemma iget_itab_ok:
  assumes "iget dev inum s = Inr (i, s')" "itab_ok s"
  shows "itab_ok s'"
proof -
  note R = iget_refs [OF assms]
  have eq: "itab s' j = itab s j" if "j \<noteq> i" for j using R(5) that by blast
  have nonneg: "0 \<le> i_ref (itab s' j)" if "j < NINODE" for j
    using assms(2) that R(2) eq [of j] by (cases "j = i") (auto simp: itab_ok_def holds_inode_def)
  have uniq: "k = i" if "k < NINODE" "holds_inode dev inum s' k" for k
  proof (rule ccontr)
    assume k: "k \<noteq> i"
    then have "holds_inode dev inum s k" using that eq by (simp add: holds_inode_def)
    moreover from this have "holds_inode dev inum s i" using R(4) that by blast
    ultimately show False using assms(2) k that(1) R(1) unfolding itab_ok_def holds_inode_def by metis
  qed
  have "j = k" if "j < NINODE" "k < NINODE" "0 < i_ref (itab s' j)" "0 < i_ref (itab s' k)"
    "i_dev (itab s' j) = i_dev (itab s' k)" "i_inum (itab s' j) = i_inum (itab s' k)" for j k
  proof (cases "j = i \<or> k = i")
    case True
    then have "holds_inode dev inum s' j" "holds_inode dev inum s' k"
      using that R(2) by (auto simp: holds_inode_def)
    then show ?thesis using uniq that by blast
  next
    case False
    then show ?thesis using that assms(2) eq unfolding itab_ok_def by metis
  qed
  then show ?thesis using nonneg unfolding itab_ok_def by blast
qed

section \<open>Properties\<close>

text \<open>
  Claim C15. \<open>iget\<close> keeps one slot per inode: it returns the slot that already holds the inode when
  there is one and a free slot otherwise, with one more reference and no other slot changed, and
  it panics exactly when the inode is in no slot and no slot is free.
\<close>

theorem iget_unique:
  assumes "itab_ok s"
  shows "(iget dev inum s = Inl (Panic ''iget: no inodes'') \<longleftrightarrow>
      (\<forall>i < NINODE. \<not> holds_inode dev inum s i \<and> i_ref (itab s i) \<noteq> 0)) \<and>
    (\<forall>i s'. iget dev inum s = Inr (i, s') \<longrightarrow>
      itab_ok s' \<and> i < NINODE \<and> holds_inode dev inum s' i \<and>
      ((\<exists>j < NINODE. holds_inode dev inum s j) \<longrightarrow> holds_inode dev inum s i) \<and>
      i_ref (itab s' i) = (if holds_inode dev inum s i then i_ref (itab s i) + 1 else 1) \<and>
      (\<forall>j. j \<noteq> i \<longrightarrow> itab s' j = itab s j))"
proof -
  have "iget dev inum s = Inl (Panic ''iget: no inodes'') \<longleftrightarrow>
      (\<forall>i < NINODE. \<not> holds_inode dev inum s i \<and> i_ref (itab s i) \<noteq> 0)"
    by (auto simp: iget_eq scan_None_iff scan_Some_iff split: option.splits)
  moreover have "itab_ok s' \<and> i < NINODE \<and> holds_inode dev inum s' i \<and>
      ((\<exists>j < NINODE. holds_inode dev inum s j) \<longrightarrow> holds_inode dev inum s i) \<and>
      i_ref (itab s' i) = (if holds_inode dev inum s i then i_ref (itab s i) + 1 else 1) \<and>
      (\<forall>j. j \<noteq> i \<longrightarrow> itab s' j = itab s j)" if "iget dev inum s = Inr (i, s')" for i s'
    using iget_refs(1-5) [OF that assms] iget_itab_ok [OF that assms] by simp
  ultimately show ?thesis by blast
qed

theorem iget_unique_witness:
  "\<exists>i s' j s''. iget 1 7 small_fs = Inr (i, s') \<and> iget 1 7 s' = Inr (j, s'') \<and> j = i \<and> i_ref (itab s'' i) = 2"
proof -
  have ok: "itab_ok small_fs" by (simp add: itab_ok_def small_fs_def)
  have z: "i_ref (itab small_fs i) = 0" for i by (simp add: small_fs_def)
  obtain i s' where 1: "iget 1 7 small_fs = Inr (i, s')"
    using iget_returns [of 0 1 7 small_fs] z by (auto simp: NINODE_def)
  have I: "itab_ok s'" "i < NINODE" "holds_inode 1 7 s' i" "i_ref (itab s' i) = 1"
    using iget_unique [OF ok, of 1 7] 1 z by (auto simp: holds_inode_def)
  obtain j s'' where 2: "iget 1 7 s' = Inr (j, s'')"
    using iget_returns [of i 1 7 s'] I by blast
  have J: "j < NINODE" "holds_inode 1 7 s' j" "i_ref (itab s'' j) = i_ref (itab s' j) + 1"
    using iget_unique [OF I(1), of 1 7] 2 I(2,3) by auto
  then have "j = i" using I unfolding itab_ok_def holds_inode_def by metis
  then show ?thesis using 1 2 I(4) J(3) by auto
qed

end
