(* ===== verification/Fs_Data.thy ===== *)
theory Fs_Data
  imports Fs_Inode
begin

text \<open>
  File contents, directories and path names (\<^verbatim>\<open>kernel/fs.c\<close>: \<open>readi\<close>, \<open>writei\<close>, \<open>namecmp\<close>,
  \<open>dirlookup\<close>, \<open>dirlink\<close>, \<open>skipelem\<close>, \<open>namex\<close>, \<open>namei\<close>, \<open>nameiparent\<close>).

  \<open>readi\<close> and \<open>writei\<close> take the copy to or from the caller's memory as a parameter, as the code
  does with \<^verbatim>\<open>user_dst\<close>: \<^verbatim>\<open>either_copyout\<close> returns whether the copy succeeded and the memory after it,
  \<^verbatim>\<open>either_copyin\<close> whether it succeeded and the bytes that were copied (on a failure possibly some).
  Offsets and counts are natural numbers inside the loops: the guards of both functions exclude
  an \<^verbatim>\<open>off + n\<close> that wraps.
\<close>

section \<open>Reading and writing a file\<close>

type_synonym 'm copyout = "u64 \<Rightarrow> byte list \<Rightarrow> 'm \<Rightarrow> bool \<times> 'm"
type_synonym 'm copyin = "u64 \<Rightarrow> nat \<Rightarrow> 'm \<Rightarrow> bool \<times> byte list"

text \<open>The two copies when \<^verbatim>\<open>user_dst\<close> or \<^verbatim>\<open>user_src\<close> is 0: \<open>memmove\<close> in kernel memory.\<close>

definition kernel_out :: "bytes copyout" where
  "kernel_out dst bs m = (True, splice (unat dst) (length bs) (\<lambda>k. bs ! k) m)"

definition kernel_in :: "bytes copyin" where
  "kernel_in src n m = (True, map (\<lambda>k. m (unat src + k)) [0..<n])"

lemma chunk_pos: "tot < n \<Longrightarrow> 0 < min (n - tot) (BSIZE - off mod BSIZE)"
  by (simp add: BSIZE_def)

function (sequential) readi_loop :: "'m copyout \<Rightarrow> nat \<Rightarrow> u64 \<Rightarrow> nat \<Rightarrow> nat \<Rightarrow> nat \<Rightarrow> 'a fs_scheme \<Rightarrow> 'm \<Rightarrow>
    (u32 \<times> 'a fs_scheme \<times> 'm) res" where
  "readi_loop out i dst off n tot s m =
     (if tot < n then
        ebind (bmap i (off div BSIZE) s) (\<lambda>(addr, s).
        if addr = 0 then Inr (of_nat tot, s, m)
        else
          ebind (blk_read addr s) (\<lambda>s.
          case out dst (map (\<lambda>j. blk s addr (off mod BSIZE + j)) [0..<min (n - tot) (BSIZE - off mod BSIZE)]) m of
            (ok, m) \<Rightarrow>
              ebind (blk_relse addr s) (\<lambda>s.
              if \<not> ok then Inr (- 1, s, m)
              else readi_loop out i (dst + of_nat (min (n - tot) (BSIZE - off mod BSIZE)))
                     (off + min (n - tot) (BSIZE - off mod BSIZE)) n
                     (tot + min (n - tot) (BSIZE - off mod BSIZE)) s m)))
      else Inr (of_nat tot, s, m))"
  by pat_completeness auto
termination
  by (relation "measure (\<lambda>(out, i, dst, off, n, tot, s, m). n - tot)") (use chunk_pos in \<open>auto simp: BSIZE_def\<close>)

declare readi_loop.simps [simp del]

definition readi :: "'m copyout \<Rightarrow> nat \<Rightarrow> u64 \<Rightarrow> u32 \<Rightarrow> u32 \<Rightarrow> 'a fs_scheme \<Rightarrow> 'm \<Rightarrow>
    (int \<times> 'a fs_scheme \<times> 'm) res" where
  "readi out i dst off n s m =
     (if off > i_size (itab s i) \<or> off + n < off then Inr (0, s, m)
      else let n = (if off + n > i_size (itab s i) then i_size (itab s i) - off else n) in
        ebind (readi_loop out i dst (unat off) (unat n) 0 s m) (\<lambda>(tot, s, m).
        Inr (sint tot, s, m)))"

text \<open>
  A failed \<^verbatim>\<open>either_copyin\<close> leaves the bytes it copied in the buffer, which is then released
  without \<open>log_write\<close>.
\<close>

function (sequential) writei_loop :: "'m copyin \<Rightarrow> nat \<Rightarrow> u64 \<Rightarrow> nat \<Rightarrow> nat \<Rightarrow> nat \<Rightarrow> 'a fs_scheme \<Rightarrow> 'm \<Rightarrow>
    (nat \<times> nat \<times> 'a fs_scheme) res" where
  "writei_loop inp i src off n tot s m =
     (if tot < n then
        ebind (bmap i (off div BSIZE) s) (\<lambda>(addr, s).
        if addr = 0 then Inr (tot, off, s)
        else
          ebind (blk_read addr s) (\<lambda>s.
          case inp src (min (n - tot) (BSIZE - off mod BSIZE)) m of
            (ok, bs) \<Rightarrow>
              let s = (if bs = [] then s
                       else blk_set addr (splice (off mod BSIZE) (length bs) (\<lambda>k. bs ! k) (blk s addr)) s) in
              if \<not> ok then ebind (blk_relse addr s) (\<lambda>s. Inr (tot, off, s))
              else
                ebind (blk_relse addr (blk_log addr s)) (\<lambda>s.
                writei_loop inp i (src + of_nat (min (n - tot) (BSIZE - off mod BSIZE)))
                  (off + min (n - tot) (BSIZE - off mod BSIZE)) n
                  (tot + min (n - tot) (BSIZE - off mod BSIZE)) s m)))
      else Inr (tot, off, s))"
  by pat_completeness auto
termination
  by (relation "measure (\<lambda>(inp, i, src, off, n, tot, s, m). n - tot)") (use chunk_pos in \<open>auto simp: BSIZE_def\<close>)

declare writei_loop.simps [simp del]

definition writei :: "'m copyin \<Rightarrow> nat \<Rightarrow> u64 \<Rightarrow> u32 \<Rightarrow> u32 \<Rightarrow> 'a fs_scheme \<Rightarrow> 'm \<Rightarrow> (int \<times> 'a fs_scheme) res" where
  "writei inp i src off n s m =
     (if off > i_size (itab s i) \<or> off + n < off then Inr (- 1, s)
      else if unat (off + n) > MAXFILE * BSIZE then Inr (- 1, s)
      else
        ebind (writei_loop inp i src (unat off) (unat n) 0 s m) (\<lambda>(tot, off, s).
        let s = (if off > unat (i_size (itab s i)) then upd_inode i (\<lambda>ip. ip\<lparr>i_size := of_nat off\<rparr>) s else s) in
        ebind (iupdate i s) (\<lambda>s.
        Inr (sint (of_nat tot :: u32), s))))"

section \<open>Directories\<close>

definition namecmp :: "mem \<Rightarrow> nat \<Rightarrow> nat \<Rightarrow> int" where
  "namecmp m s t = strncmp m s t DIRSIZ"

text \<open>
  The memory that \<open>dirlookup\<close> and \<open>dirlink\<close> work on: \<^verbatim>\<open>struct dirent de\<close> at address 0 (its \<^verbatim>\<open>inum\<close> at
  offset 0, its \<^verbatim>\<open>name\<close> at offset 2) and the caller's \<^verbatim>\<open>name\<close> after it.
\<close>

definition de_mem :: "bytes \<Rightarrow> bytes" where
  "de_mem name = (\<lambda>k. if k < DIRENT_SIZE then 0 else name (k - DIRENT_SIZE))"

definition de_inum :: "bytes \<Rightarrow> u16" where
  "de_inum m = get16 m 0"

function dirlookup_from :: "nat \<Rightarrow> nat \<Rightarrow> u32 \<Rightarrow> 'a fs_scheme \<Rightarrow> bytes \<Rightarrow> ((nat \<times> u32) option \<times> 'a fs_scheme) res" where
  "dirlookup_from dp off sz s m =
     (if off < unat sz then
        ebind (readi kernel_out dp 0 (of_nat off) (of_nat DIRENT_SIZE) s m) (\<lambda>(r, s, m).
        if r \<noteq> int DIRENT_SIZE then Inl (Panic ''dirlookup read'')
        else if de_inum m = 0 then dirlookup_from dp (off + DIRENT_SIZE) sz s m
        else if namecmp m DIRENT_SIZE 2 = 0 then
          ebind (iget (i_dev (itab s dp)) (ucast (de_inum m)) s) (\<lambda>(i, s). Inr (Some (i, of_nat off), s))
        else dirlookup_from dp (off + DIRENT_SIZE) sz s m)
      else Inr (None, s))"
  by pat_completeness auto
termination
  by (relation "measure (\<lambda>(dp, off, sz, s, m). unat sz - off)") (auto simp: DIRENT_SIZE_def)

declare dirlookup_from.simps [simp del]

text \<open>\<open>dirlookup\<close> returns the inode and the offset that the code stores through \<^verbatim>\<open>poff\<close>.\<close>

definition dirlookup :: "nat \<Rightarrow> bytes \<Rightarrow> 'a fs_scheme \<Rightarrow> ((nat \<times> u32) option \<times> 'a fs_scheme) res" where
  "dirlookup dp name s =
     (if i_type (itab s dp) \<noteq> T_DIR then Inl (Panic ''dirlookup not DIR'')
      else dirlookup_from dp 0 (i_size (itab s dp)) s (de_mem name))"

function dirlink_slot :: "nat \<Rightarrow> nat \<Rightarrow> u32 \<Rightarrow> 'a fs_scheme \<Rightarrow> bytes \<Rightarrow> (nat \<times> 'a fs_scheme \<times> bytes) res" where
  "dirlink_slot dp off sz s m =
     (if off < unat sz then
        ebind (readi kernel_out dp 0 (of_nat off) (of_nat DIRENT_SIZE) s m) (\<lambda>(r, s, m).
        if r \<noteq> int DIRENT_SIZE then Inl (Panic ''dirlink read'')
        else if de_inum m = 0 then Inr (off, s, m)
        else dirlink_slot dp (off + DIRENT_SIZE) sz s m)
      else Inr (off, s, m))"
  by pat_completeness auto
termination
  by (relation "measure (\<lambda>(dp, off, sz, s, m). unat sz - off)") (auto simp: DIRENT_SIZE_def)

declare dirlink_slot.simps [simp del]

definition dirlink :: "int \<Rightarrow> nat \<Rightarrow> bytes \<Rightarrow> u32 \<Rightarrow> 'a fs_scheme \<Rightarrow> (int \<times> 'a fs_scheme) res" where
  "dirlink pid dp name inum s =
     ebind (dirlookup dp name s) (\<lambda>(r, s).
     case r of
       Some (i, _) \<Rightarrow> ebind (iput pid i s) (\<lambda>s. Inr (- 1, s))
     | None \<Rightarrow>
         ebind (dirlink_slot dp 0 (i_size (itab s dp)) s (de_mem name)) (\<lambda>(off, s, m).
         let m = put16 0 (ucast inum) (strncpy 2 DIRENT_SIZE (int DIRSIZ) m) in
         ebind (writei kernel_in dp 0 (of_nat off) (of_nat DIRENT_SIZE) s m) (\<lambda>(r, s).
         if r \<noteq> int DIRENT_SIZE then Inr (- 1, s) else Inr (0, s))))"

section \<open>Path names\<close>

text \<open>A path is the list of its bytes up to the terminating zero; 47 is \<^verbatim>\<open>'/'\<close>.\<close>

abbreviation slash :: byte where "slash \<equiv> 47"

definition skipelem :: "byte list \<Rightarrow> bytes \<Rightarrow> (byte list \<times> bytes) option" where
  "skipelem path name =
     (let path = dropWhile (\<lambda>c. c = slash) path in
      if path = [] then None
      else
        let s = takeWhile (\<lambda>c. c \<noteq> slash) path; path = dropWhile (\<lambda>c. c \<noteq> slash) path; len = length s;
            name = (if len \<ge> DIRSIZ then splice 0 DIRSIZ (\<lambda>k. s ! k) name
                    else (splice 0 len (\<lambda>k. s ! k) name)(len := 0))
        in Some (dropWhile (\<lambda>c. c = slash) path, name))"

lemma length_dropWhile_less: "xs \<noteq> [] \<Longrightarrow> P (hd xs) \<Longrightarrow> length (dropWhile P xs) < length xs"
  by (cases xs) (auto intro: le_imp_less_Suc length_dropWhile_le)

lemma skipelem_shorter: "skipelem path name = Some (path', name') \<Longrightarrow> length path' < length path"
proof -
  assume a: "skipelem path name = Some (path', name')"
  let ?p = "dropWhile (\<lambda>c. c = slash) path"
  have p: "?p \<noteq> []" "path' = dropWhile (\<lambda>c. c = slash) (dropWhile (\<lambda>c. c \<noteq> slash) ?p)"
    using a by (auto simp: skipelem_def Let_def split: if_splits)
  have "hd ?p \<noteq> slash" using hd_dropWhile [OF p(1)] .
  then have "length (dropWhile (\<lambda>c. c \<noteq> slash) ?p) < length ?p" using p(1) by (intro length_dropWhile_less)
  then show ?thesis
    unfolding p(2) by (meson le_less_trans length_dropWhile_le less_le_trans)
qed

function namex_loop :: "int \<Rightarrow> nat \<Rightarrow> byte list \<Rightarrow> bool \<Rightarrow> bytes \<Rightarrow> 'a fs_scheme \<Rightarrow>
    (nat option \<times> bytes \<times> 'a fs_scheme) res" where
  "namex_loop pid ip path parent name s =
     (case skipelem path name of
        Some (path, name) \<Rightarrow>
          ebind (ilock pid (Some ip) s) (\<lambda>s.
          if i_type (itab s ip) \<noteq> T_DIR then ebind (iunlockput pid ip s) (\<lambda>s. Inr (None, name, s))
          else if parent \<and> path = [] then ebind (iunlock pid (Some ip) s) (\<lambda>s. Inr (Some ip, name, s))
          else
            ebind (dirlookup ip name s) (\<lambda>(r, s).
            ebind (iunlockput pid ip s) (\<lambda>s.
            case r of
              None \<Rightarrow> Inr (None, name, s)
            | Some (nxt, _) \<Rightarrow> namex_loop pid nxt path parent name s)))
      | None \<Rightarrow>
          if parent then ebind (iput pid ip s) (\<lambda>s. Inr (None, name, s))
          else Inr (Some ip, name, s))"
  by pat_completeness auto
termination
  by (relation "measure (\<lambda>(pid, ip, path, parent, name, s). length path)") (auto dest: skipelem_shorter)

declare namex_loop.simps [simp del]

text \<open>\<open>cwd\<close> is \<^verbatim>\<open>myproc()->cwd\<close>.\<close>

definition namex :: "int \<Rightarrow> nat \<Rightarrow> byte list \<Rightarrow> bool \<Rightarrow> bytes \<Rightarrow> 'a fs_scheme \<Rightarrow>
    (nat option \<times> bytes \<times> 'a fs_scheme) res" where
  "namex pid cwd path parent name s =
     ebind (if path \<noteq> [] \<and> hd path = slash then iget ROOTDEV ROOTINO s else Inr (idup cwd s)) (\<lambda>(ip, s).
     namex_loop pid ip path parent name s)"

definition namei :: "int \<Rightarrow> nat \<Rightarrow> byte list \<Rightarrow> 'a fs_scheme \<Rightarrow> (nat option \<times> 'a fs_scheme) res" where
  "namei pid cwd path s =
     ebind (namex pid cwd path False (\<lambda>_. 0) s) (\<lambda>(r, _, s). Inr (r, s))"

definition nameiparent :: "int \<Rightarrow> nat \<Rightarrow> byte list \<Rightarrow> bytes \<Rightarrow> 'a fs_scheme \<Rightarrow>
    (nat option \<times> bytes \<times> 'a fs_scheme) res" where
  "nameiparent pid cwd path name s = namex pid cwd path True name s"

end
