(* ===== verification/Vm_Paging.thy ===== *)
theory Vm_Paging
  imports Page_Alloc
begin

text \<open>
  Page tables (\<^verbatim>\<open>kernel/vm.c\<close>, the paging macros of \<^verbatim>\<open>kernel/riscv.h\<close>). A page table is the physical
  address of its root page; page-table entries are read from and written to the same memory that
  the page allocator manages. \<open>walk\<close> returns the address of an entry, \<open>None\<close> for its 0.

  \<open>copyout\<close>, \<open>copyin\<close> and \<open>copyinstr\<close> take or return the bytes of the kernel's buffer as a list.
  Where the code writes through the result of a \<open>kalloc\<close> that it did not check, a failed
  allocation is an access to page 0 (\<open>Undef\<close>).
\<close>

section \<open>Page-table entries\<close>

definition PTE_V :: u64 where [layout_simps]: "PTE_V = 1"
definition PTE_R :: u64 where [layout_simps]: "PTE_R = 2"
definition PTE_W :: u64 where [layout_simps]: "PTE_W = 4"
definition PTE_X :: u64 where [layout_simps]: "PTE_X = 8"
definition PTE_U :: u64 where [layout_simps]: "PTE_U = 16"

definition PA2PTE :: "u64 \<Rightarrow> u64" where "PA2PTE pa = push_bit 10 (drop_bit 12 pa)"
definition PTE2PA :: "u64 \<Rightarrow> u64" where "PTE2PA pte = push_bit 12 (drop_bit 10 pte)"
definition PTE_FLAGS :: "u64 \<Rightarrow> u64" where "PTE_FLAGS pte = pte AND 0x3FF"
definition PX :: "nat \<Rightarrow> u64 \<Rightarrow> u64" where "PX level va = drop_bit (12 + 9 * level) va AND 0x1FF"
definition MAXVA :: u64 where [layout_simps]: "MAXVA = 0x4000000000"

text \<open>\<^verbatim>\<open>PGROUNDUP\<close> and \<^verbatim>\<open>PGROUNDDOWN\<close> on a \<^verbatim>\<open>uint64\<close>, where the sum can wrap.\<close>

definition PGROUNDUP64 :: "u64 \<Rightarrow> u64" where "PGROUNDUP64 sz = (sz + 4095) AND NOT 4095"
definition PGROUNDDOWN64 :: "u64 \<Rightarrow> u64" where "PGROUNDDOWN64 a = a AND NOT 4095"

definition TRAMPOLINE :: u64 where [layout_simps]: "TRAMPOLINE = MAXVA - 4096"
definition TRAPFRAME :: u64 where [layout_simps]: "TRAPFRAME = TRAMPOLINE - 4096"
definition UART0 :: u64 where [layout_simps]: "UART0 = 0x10000000"
definition VIRTIO0 :: u64 where [layout_simps]: "VIRTIO0 = 0x10001000"
definition PLIC :: u64 where [layout_simps]: "PLIC = 0x0c000000"
definition KSTACK :: "nat \<Rightarrow> u64" where "KSTACK p = TRAMPOLINE - (of_nat p + 1) * 2 * 4096"

definition pte_has :: "u64 \<Rightarrow> u64 \<Rightarrow> bool" where "pte_has pte f \<longleftrightarrow> pte AND f \<noteq> 0"

definition load_pte :: "u64 \<Rightarrow> 'a kmem_scheme \<Rightarrow> u64" where
  "load_pte p s = get64 (kmemory s) (unat p)"

definition store_pte :: "u64 \<Rightarrow> u64 \<Rightarrow> 'a kmem_scheme \<Rightarrow> 'a kmem_scheme" where
  "store_pte p v s = s\<lparr>kmemory := put64 (unat p) v (kmemory s)\<rparr>"

definition fill_page :: "u64 \<Rightarrow> byte \<Rightarrow> 'a kmem_scheme \<Rightarrow> 'a kmem_scheme" where
  "fill_page pa c s = s\<lparr>kmemory := memset (unat pa) c PGSIZE (kmemory s)\<rparr>"

section \<open>Walking and mapping\<close>

text \<open>The loop over the levels, from \<open>level\<close> down to 1.\<close>

fun walk_from :: "nat \<Rightarrow> u64 \<Rightarrow> u64 \<Rightarrow> bool \<Rightarrow> 'a kmem_scheme \<Rightarrow> u64 option \<times> 'a kmem_scheme" where
  "walk_from 0 pagetable va alc s = (Some (pagetable + 8 * PX 0 va), s)"
| "walk_from (Suc l) pagetable va alc s =
     (let pte = pagetable + 8 * PX (Suc l) va in
      if pte_has (load_pte pte s) PTE_V then walk_from l (PTE2PA (load_pte pte s)) va alc s
      else if \<not> alc then (None, s)
      else
        case kalloc s of (pt, s) \<Rightarrow>
          if pt = 0 then (None, s)
          else walk_from l pt va alc (store_pte pte (PA2PTE pt OR PTE_V) (fill_page pt 0 s)))"

definition walk :: "u64 \<Rightarrow> u64 \<Rightarrow> bool \<Rightarrow> 'a kmem_scheme \<Rightarrow> (u64 option \<times> 'a kmem_scheme) res" where
  "walk pagetable va alc s =
     (if va \<ge> MAXVA then Inl (Panic ''walk'') else Inr (walk_from 2 pagetable va alc s))"

definition walkaddr :: "u64 \<Rightarrow> u64 \<Rightarrow> 'a kmem_scheme \<Rightarrow> u64" where
  "walkaddr pagetable va s =
     (if va \<ge> MAXVA then 0
      else case fst (walk_from 2 pagetable va False s) of
        None \<Rightarrow> 0
      | Some pte \<Rightarrow>
          if \<not> pte_has (load_pte pte s) PTE_V then 0
          else if \<not> pte_has (load_pte pte s) PTE_U then 0
          else PTE2PA (load_pte pte s))"

text \<open>
  The loop of \<open>mappages\<close> ends at \<^verbatim>\<open>a == last\<close>. Both are page-aligned, so that is when less than a
  page is left (\<open>last_page\<close> below).
\<close>

lemma next_page_less:
  assumes "\<not> unat (lst - a) < PGSIZE"
  shows "unat (lst - (a + of_nat PGSIZE)) < unat (lst - a :: u64)"
proof -
  have e: "lst - (a + of_nat PGSIZE) = (lst - a) - 4096" by (simp add: PGSIZE_def)
  have "(4096 :: u64) \<le> lst - a" using assms by (simp add: word_le_nat_alt PGSIZE_def)
  then have "unat ((lst - a) - 4096) = unat (lst - a) - 4096" by (subst unat_sub) simp_all
  then show ?thesis unfolding e using assms by (simp add: PGSIZE_def)
qed

function mappages_from :: "u64 \<Rightarrow> u64 \<Rightarrow> u64 \<Rightarrow> u64 \<Rightarrow> u64 \<Rightarrow> 'a kmem_scheme \<Rightarrow> (int \<times> 'a kmem_scheme) res" where
  "mappages_from pagetable a lst pa perm s =
     ebind (walk pagetable a True s) (\<lambda>(r, s).
     case r of
       None \<Rightarrow> Inr (- 1, s)
     | Some pte \<Rightarrow>
         if pte_has (load_pte pte s) PTE_V then Inl (Panic ''mappages: remap'')
         else
           let s = store_pte pte (PA2PTE pa OR perm OR PTE_V) s in
           if unat (lst - a) < PGSIZE then Inr (0, s)
           else mappages_from pagetable (a + of_nat PGSIZE) lst (pa + of_nat PGSIZE) perm s)"
  by pat_completeness auto
termination
  by (relation "measure (\<lambda>(pagetable, a, lst, pa, perm, s). unat (lst - a))")
    (use next_page_less in auto)

declare mappages_from.simps [simp del]

definition mappages :: "u64 \<Rightarrow> u64 \<Rightarrow> u64 \<Rightarrow> u64 \<Rightarrow> u64 \<Rightarrow> 'a kmem_scheme \<Rightarrow> (int \<times> 'a kmem_scheme) res" where
  "mappages pagetable va sz pa perm s =
     (if unat va mod PGSIZE \<noteq> 0 then Inl (Panic ''mappages: va not aligned'')
      else if unat sz mod PGSIZE \<noteq> 0 then Inl (Panic ''mappages: size not aligned'')
      else if sz = 0 then Inl (Panic ''mappages: size'')
      else mappages_from pagetable va (va + sz - of_nat PGSIZE) pa perm s)"

definition kvmmap :: "u64 \<Rightarrow> u64 \<Rightarrow> u64 \<Rightarrow> u64 \<Rightarrow> u64 \<Rightarrow> 'a kmem_scheme \<Rightarrow> 'a kmem_scheme res" where
  "kvmmap kpgtbl va pa sz perm s =
     ebind (mappages kpgtbl va sz pa perm s) (\<lambda>(r, s).
     if r \<noteq> 0 then Inl (Panic ''kvmmap'') else Inr s)"

text \<open>\<^verbatim>\<open>proc.c\<close>: a page of kernel stack for each of the \<open>NPROC\<close> processes.\<close>

definition NPROC :: nat where [layout_simps]: "NPROC = 64"

definition proc_mapstacks :: "u64 \<Rightarrow> 'a kmem_scheme \<Rightarrow> 'a kmem_scheme res" where
  "proc_mapstacks kpgtbl s =
     efold (\<lambda>p s. case kalloc s of (pa, s) \<Rightarrow>
         if pa = 0 then Inl (Panic ''kalloc'')
         else kvmmap kpgtbl (KSTACK p) pa (of_nat PGSIZE) (PTE_R OR PTE_W) s) [0..<NPROC] s"

text \<open>\<open>etext\<close> and \<open>trampoline\<close> are addresses that the linker sets.\<close>

definition kvmmake :: "u64 \<Rightarrow> u64 \<Rightarrow> 'a kmem_scheme \<Rightarrow> (u64 \<times> 'a kmem_scheme) res" where
  "kvmmake etext trampoline s =
     (case kalloc s of (kpgtbl, s) \<Rightarrow>
        if kpgtbl = 0 then Inl (Undef ''page 0'')
        else
          ebind (kvmmap kpgtbl UART0 UART0 (of_nat PGSIZE) (PTE_R OR PTE_W) (fill_page kpgtbl 0 s)) (\<lambda>s.
          ebind (kvmmap kpgtbl VIRTIO0 VIRTIO0 (of_nat PGSIZE) (PTE_R OR PTE_W) s) (\<lambda>s.
          ebind (kvmmap kpgtbl PLIC PLIC 0x4000000 (PTE_R OR PTE_W) s) (\<lambda>s.
          ebind (kvmmap kpgtbl (of_nat KERNBASE) (of_nat KERNBASE) (etext - of_nat KERNBASE) (PTE_R OR PTE_X) s) (\<lambda>s.
          ebind (kvmmap kpgtbl etext etext (of_nat PHYSTOP - etext) (PTE_R OR PTE_W) s) (\<lambda>s.
          ebind (kvmmap kpgtbl TRAMPOLINE trampoline (of_nat PGSIZE) (PTE_R OR PTE_X) s) (\<lambda>s.
          ebind (proc_mapstacks kpgtbl s) (\<lambda>s.
          Inr (kpgtbl, s)))))))))"

section \<open>User address spaces\<close>

lemma walk_below: "walk pt a alc s = Inr r \<Longrightarrow> a < MAXVA"
  by (auto simp: walk_def split: if_splits)

lemma page_after:
  assumes "a < MAXVA" "a < e"
  shows "unat e - unat (a + of_nat PGSIZE :: u64) < unat e - unat a"
proof -
  have "unat a < 2 ^ 38" using assms(1) by (simp add: MAXVA_def word_less_nat_alt)
  then have "unat (a + of_nat PGSIZE) = unat a + 4096" by (simp add: unat_word_ariths PGSIZE_def)
  then show ?thesis using assms(2) by (simp add: word_less_nat_alt)
qed

function uvmunmap_from :: "nat \<Rightarrow> u64 \<Rightarrow> u64 \<Rightarrow> u64 \<Rightarrow> bool \<Rightarrow> 'a kmem_scheme \<Rightarrow> 'a kmem_scheme res" where
  "uvmunmap_from kend pagetable a e do_free s =
     (if a < e then
        ebind (walk pagetable a False s) (\<lambda>(r, s).
        case r of
          None \<Rightarrow> Inl (Panic ''uvmunmap: walk'')
        | Some pte \<Rightarrow>
            if \<not> pte_has (load_pte pte s) PTE_V then Inl (Panic ''uvmunmap: not mapped'')
            else if PTE_FLAGS (load_pte pte s) = PTE_V then Inl (Panic ''uvmunmap: not a leaf'')
            else
              ebind (if do_free then kfree kend (PTE2PA (load_pte pte s)) s else Inr s) (\<lambda>s.
              uvmunmap_from kend pagetable (a + of_nat PGSIZE) e do_free (store_pte pte 0 s)))
      else Inr s)"
  by pat_completeness auto
termination
  by (relation "measure (\<lambda>(kend, pagetable, a, e, do_free, s). unat e - unat a)")
    (auto dest!: walk_below simp: page_after)

declare uvmunmap_from.simps [simp del]

definition uvmunmap :: "nat \<Rightarrow> u64 \<Rightarrow> u64 \<Rightarrow> u64 \<Rightarrow> bool \<Rightarrow> 'a kmem_scheme \<Rightarrow> 'a kmem_scheme res" where
  "uvmunmap kend pagetable va npages do_free s =
     (if unat va mod PGSIZE \<noteq> 0 then Inl (Panic ''uvmunmap: not aligned'')
      else uvmunmap_from kend pagetable va (va + npages * of_nat PGSIZE) do_free s)"

definition uvmcreate :: "'a kmem_scheme \<Rightarrow> u64 \<times> 'a kmem_scheme" where
  "uvmcreate s = (case kalloc s of (pagetable, s) \<Rightarrow>
     if pagetable = 0 then (0, s) else (pagetable, fill_page pagetable 0 s))"

definition uvmfirst :: "u64 \<Rightarrow> byte list \<Rightarrow> 'a kmem_scheme \<Rightarrow> 'a kmem_scheme res" where
  "uvmfirst pagetable src s =
     (if length src \<ge> PGSIZE then Inl (Panic ''uvmfirst: more than a page'')
      else case kalloc s of (pg, s) \<Rightarrow>
        if pg = 0 then Inl (Undef ''page 0'')
        else
          ebind (mappages pagetable 0 (of_nat PGSIZE) pg (PTE_W OR PTE_R OR PTE_X OR PTE_U) (fill_page pg 0 s)) (\<lambda>(_, s).
          Inr (s\<lparr>kmemory := splice (unat pg) (length src) (\<lambda>k. src ! k) (kmemory s)\<rparr>)))"

text \<open>\<^verbatim>\<open>int npages\<close> is exact for sizes below \<^verbatim>\<open>2^43\<close>, as \<^verbatim>\<open>MAXVA\<close> keeps them.\<close>

definition uvmdealloc :: "nat \<Rightarrow> u64 \<Rightarrow> u64 \<Rightarrow> u64 \<Rightarrow> 'a kmem_scheme \<Rightarrow> (u64 \<times> 'a kmem_scheme) res" where
  "uvmdealloc kend pagetable oldsz newsz s =
     (if newsz \<ge> oldsz then Inr (oldsz, s)
      else
        ebind (if PGROUNDUP64 newsz < PGROUNDUP64 oldsz
               then uvmunmap kend pagetable (PGROUNDUP64 newsz)
                      ((PGROUNDUP64 oldsz - PGROUNDUP64 newsz) div of_nat PGSIZE) True s
               else Inr s) (\<lambda>s.
        Inr (newsz, s)))"

lemma mappages_below: "mappages pt a sz pa perm s = Inr r \<Longrightarrow> a < MAXVA"
  by (subst (asm) mappages_def, subst (asm) mappages_from.simps)
    (auto simp: ebind_eq_Inr dest: walk_below split: if_splits)

function uvmalloc_from :: "nat \<Rightarrow> u64 \<Rightarrow> u64 \<Rightarrow> u64 \<Rightarrow> u64 \<Rightarrow> u64 \<Rightarrow> 'a kmem_scheme \<Rightarrow> (u64 \<times> 'a kmem_scheme) res" where
  "uvmalloc_from kend pagetable oldsz a newsz xperm s =
     (if a < newsz then
        case kalloc s of (pg, s) \<Rightarrow>
          if pg = 0 then ebind (uvmdealloc kend pagetable a oldsz s) (\<lambda>(_, s). Inr (0, s))
          else
            ebind (mappages pagetable a (of_nat PGSIZE) pg (PTE_R OR PTE_U OR xperm) (fill_page pg 0 s)) (\<lambda>(r, s).
            if r \<noteq> 0 then
              ebind (kfree kend pg s) (\<lambda>s.
              ebind (uvmdealloc kend pagetable a oldsz s) (\<lambda>(_, s). Inr (0, s)))
            else uvmalloc_from kend pagetable oldsz (a + of_nat PGSIZE) newsz xperm s)
      else Inr (newsz, s))"
  by pat_completeness auto
termination
  by (relation "measure (\<lambda>(kend, pagetable, oldsz, a, newsz, xperm, s). unat newsz - unat a)")
    (auto dest!: mappages_below simp: page_after)

declare uvmalloc_from.simps [simp del]

definition uvmalloc :: "nat \<Rightarrow> u64 \<Rightarrow> u64 \<Rightarrow> u64 \<Rightarrow> u64 \<Rightarrow> 'a kmem_scheme \<Rightarrow> (u64 \<times> 'a kmem_scheme) res" where
  "uvmalloc kend pagetable oldsz newsz xperm s =
     (if newsz < oldsz then Inr (oldsz, s)
      else let oldsz = PGROUNDUP64 oldsz in uvmalloc_from kend pagetable oldsz oldsz newsz xperm s)"

text \<open>The recursion of \<open>freewalk\<close> follows the levels of the table; \<open>fuel\<close> bounds its depth.\<close>

fun freewalk :: "nat \<Rightarrow> nat \<Rightarrow> u64 \<Rightarrow> 'a kmem_scheme \<Rightarrow> 'a kmem_scheme res" where
  "freewalk 0 kend pagetable s = Inl NoFuel"
| "freewalk (Suc fuel) kend pagetable s =
     ebind (efold (\<lambda>i s.
         let pte = load_pte (pagetable + 8 * of_nat i) s in
         if pte_has pte PTE_V \<and> pte AND (PTE_R OR PTE_W OR PTE_X) = 0 then
           ebind (freewalk fuel kend (PTE2PA pte) s) (\<lambda>s.
           Inr (store_pte (pagetable + 8 * of_nat i) 0 s))
         else if pte_has pte PTE_V then Inl (Panic ''freewalk: leaf'')
         else Inr s) [0..<512] s) (\<lambda>s.
     kfree kend pagetable s)"

definition uvmfree :: "nat \<Rightarrow> nat \<Rightarrow> u64 \<Rightarrow> u64 \<Rightarrow> 'a kmem_scheme \<Rightarrow> 'a kmem_scheme res" where
  "uvmfree fuel kend pagetable sz s =
     ebind (if sz > 0 then uvmunmap kend pagetable 0 (PGROUNDUP64 sz div of_nat PGSIZE) True s else Inr s) (\<lambda>s.
     freewalk fuel kend pagetable s)"

function uvmcopy_from :: "nat \<Rightarrow> u64 \<Rightarrow> u64 \<Rightarrow> u64 \<Rightarrow> u64 \<Rightarrow> 'a kmem_scheme \<Rightarrow> (int \<times> 'a kmem_scheme) res" where
  "uvmcopy_from kend old new i sz s =
     (if i < sz then
        ebind (walk old i False s) (\<lambda>(r, s).
        case r of
          None \<Rightarrow> Inl (Panic ''uvmcopy: pte should exist'')
        | Some pte \<Rightarrow>
            if \<not> pte_has (load_pte pte s) PTE_V then Inl (Panic ''uvmcopy: page not present'')
            else
              let pa = PTE2PA (load_pte pte s); flags = PTE_FLAGS (load_pte pte s) in
              case kalloc s of (pg, s) \<Rightarrow>
                if pg = 0 then ebind (uvmunmap kend new 0 (i div of_nat PGSIZE) True s) (\<lambda>s. Inr (- 1, s))
                else
                  ebind (mappages new i (of_nat PGSIZE) pg flags
                      (s\<lparr>kmemory := memmove (unat pg) (unat pa) PGSIZE (kmemory s)\<rparr>)) (\<lambda>(r, s).
                  if r \<noteq> 0 then
                    ebind (kfree kend pg s) (\<lambda>s.
                    ebind (uvmunmap kend new 0 (i div of_nat PGSIZE) True s) (\<lambda>s. Inr (- 1, s)))
                  else uvmcopy_from kend old new (i + of_nat PGSIZE) sz s))
      else Inr (0, s))"
  by pat_completeness auto
termination
  by (relation "measure (\<lambda>(kend, old, new, i, sz, s). unat sz - unat i)")
    (auto dest!: mappages_below simp: page_after)

declare uvmcopy_from.simps [simp del]

definition uvmcopy :: "nat \<Rightarrow> u64 \<Rightarrow> u64 \<Rightarrow> u64 \<Rightarrow> 'a kmem_scheme \<Rightarrow> (int \<times> 'a kmem_scheme) res" where
  "uvmcopy kend old new sz s = uvmcopy_from kend old new 0 sz s"

definition uvmclear :: "u64 \<Rightarrow> u64 \<Rightarrow> 'a kmem_scheme \<Rightarrow> 'a kmem_scheme res" where
  "uvmclear pagetable va s =
     ebind (walk pagetable va False s) (\<lambda>(r, s).
     case r of
       None \<Rightarrow> Inl (Panic ''uvmclear'')
     | Some pte \<Rightarrow> Inr (store_pte pte (load_pte pte s AND NOT PTE_U) s))"

section \<open>Copying between kernel and user\<close>

definition page_room :: "u64 \<Rightarrow> nat \<Rightarrow> nat" where
  "page_room va len = min len (PGSIZE - unat va mod PGSIZE)"

lemma page_room_pos: "0 < len \<Longrightarrow> 0 < page_room va len"
  by (simp add: page_room_def PGSIZE_def)

function copyout :: "u64 \<Rightarrow> u64 \<Rightarrow> byte list \<Rightarrow> 'a kmem_scheme \<Rightarrow> bool \<times> 'a kmem_scheme" where
  "copyout pagetable dstva src s =
     (if src \<noteq> [] then
        let va0 = PGROUNDDOWN64 dstva in
        if va0 \<ge> MAXVA then (False, s)
        else case fst (walk_from 2 pagetable va0 False s) of
          None \<Rightarrow> (False, s)
        | Some p \<Rightarrow>
            let pte = load_pte p s in
            if \<not> pte_has pte PTE_V \<or> \<not> pte_has pte PTE_U \<or> \<not> pte_has pte PTE_W then (False, s)
            else
              let n = page_room dstva (length src) in
              copyout pagetable (va0 + of_nat PGSIZE) (drop n src)
                (s\<lparr>kmemory := splice (unat (PTE2PA pte + (dstva - va0))) n (\<lambda>k. src ! k) (kmemory s)\<rparr>)
      else (True, s))"
  by pat_completeness auto
termination
  by (relation "measure (\<lambda>(pagetable, dstva, src, s). length src)") (auto simp: page_room_pos)

declare copyout.simps [simp del]

function copyin :: "u64 \<Rightarrow> u64 \<Rightarrow> nat \<Rightarrow> 'a kmem_scheme \<Rightarrow> bool \<times> byte list" where
  "copyin pagetable srcva len s =
     (if 0 < len then
        let va0 = PGROUNDDOWN64 srcva; pa0 = walkaddr pagetable va0 s in
        if pa0 = 0 then (False, [])
        else
          let n = page_room srcva len;
              bs = map (\<lambda>k. kmemory s (unat (pa0 + (srcva - va0)) + k)) [0..<n] in
          case copyin pagetable (va0 + of_nat PGSIZE) (len - n) s of (ok, rest) \<Rightarrow> (ok, bs @ rest)
      else (True, []))"
  by pat_completeness auto
termination
  by (relation "measure (\<lambda>(pagetable, srcva, len, s). len)") (auto simp: page_room_pos)

declare copyin.simps [simp del]

text \<open>
  The inner loop of \<open>copyinstr\<close> copies from physical address \<open>p\<close> until a zero byte, which it
  copies too, or \<open>n\<close> bytes.
\<close>

fun copystr_page :: "mem \<Rightarrow> nat \<Rightarrow> nat \<Rightarrow> byte list \<times> bool" where
  "copystr_page m p 0 = ([], False)"
| "copystr_page m p (Suc n) =
     (if m p = 0 then ([0], True)
      else case copystr_page m (p + 1) n of (bs, got_null) \<Rightarrow> (m p # bs, got_null))"

function copyinstr :: "u64 \<Rightarrow> u64 \<Rightarrow> nat \<Rightarrow> 'a kmem_scheme \<Rightarrow> bool \<times> byte list" where
  "copyinstr pagetable srcva mx s =
     (if 0 < mx then
        let va0 = PGROUNDDOWN64 srcva; pa0 = walkaddr pagetable va0 s in
        if pa0 = 0 then (False, [])
        else
          let n = page_room srcva mx in
          case copystr_page (kmemory s) (unat (pa0 + (srcva - va0))) n of (bs, got_null) \<Rightarrow>
            if got_null then (True, bs)
            else case copyinstr pagetable (va0 + of_nat PGSIZE) (mx - n) s of (ok, rest) \<Rightarrow> (ok, bs @ rest)
      else (False, []))"
  by pat_completeness auto
termination
  by (relation "measure (\<lambda>(pagetable, srcva, mx, s). mx)") (auto simp: page_room_pos)

declare copyinstr.simps [simp del]

end
