(* ===== verification/Kernel_State.thy ===== *)
theory Kernel_State
  imports Fs_Data Vm_Paging Pipe_Buffer
begin

text \<open>
  The state of the kernel as its system calls see it: memory and page allocator, process table,
  file table, pipes and file system, and the process \<open>me\<close> that is running. A function of the
  process or file layer is a function on this state, run by the process \<open>me\<close>; the spin locks that
  make each of them atomic are the subject of \<^verbatim>\<open>Kernel_Locks\<close>. A call that has to wait returns \<open>Asleep\<close>.
\<close>

section \<open>Data\<close>

definition NOFILE :: nat where [layout_simps]: "NOFILE = 16"
definition NFILE :: nat where [layout_simps]: "NFILE = 100"
definition NDEV :: nat where [layout_simps]: "NDEV = 10"

datatype procstate = UNUSED | USED | SLEEPING | RUNNABLE | RUNNING | ZOMBIE

text \<open>A sleep channel is the address of an object of the kernel.\<close>

datatype chan = ChProc nat | ChTicks | ChPipeRead u64 | ChPipeWrite u64 | ChCons | ChUart | ChDisk nat

text \<open>\<^verbatim>\<open>struct context\<close>: \<^verbatim>\<open>ra\<close>, \<^verbatim>\<open>sp\<close> and the callee-saved \<^verbatim>\<open>s0\<close> to \<^verbatim>\<open>s11\<close>.\<close>

record kcontext =
  c_ra :: u64
  c_sp :: u64
  c_saved :: "nat \<Rightarrow> u64"

record proc =
  p_state :: procstate
  p_chan :: "chan option"
  p_killed :: bool
  p_xstate :: int
  p_pid :: int
  p_parent :: "nat option"
  p_kstack :: u64
  p_sz :: u64
  p_pagetable :: u64
  p_trapframe :: u64
  p_context :: kcontext
  p_ofile :: "nat \<Rightarrow> nat option"
  p_cwd :: "nat option"
  p_name :: "byte list"

datatype filetype = FD_NONE | FD_PIPE | FD_INODE | FD_DEVICE

record ofile =
  f_type :: filetype
  f_ref :: int
  f_readable :: bool
  f_writable :: bool
  f_pipe :: u64
  f_ip :: nat
  f_off :: u32
  f_major :: u16

text \<open>
  \<open>kpipes\<close> holds the \<^verbatim>\<open>struct pipe\<close> at a page; \<open>ops\<close> counts the file system operations that are open;
  \<open>ticks\<close> is the clock.
\<close>

record kernel = kmem +
  kprocs :: "nat \<Rightarrow> proc"
  nextpid :: int
  initproc :: "nat option"
  ftable :: "nat \<Rightarrow> ofile"
  kpipes :: "u64 \<Rightarrow> pipe"
  kfs :: fs
  ops :: nat
  ticks :: u32
  me :: nat

section \<open>Lifting\<close>

definition upd_proc :: "nat \<Rightarrow> (proc \<Rightarrow> proc) \<Rightarrow> kernel \<Rightarrow> kernel" where
  "upd_proc p f k = k\<lparr>kprocs := (kprocs k)(p := f (kprocs k p))\<rparr>"

definition upd_file :: "nat \<Rightarrow> (ofile \<Rightarrow> ofile) \<Rightarrow> kernel \<Rightarrow> kernel" where
  "upd_file i f k = k\<lparr>ftable := (ftable k)(i := f (ftable k i))\<rparr>"

abbreviation myproc :: "kernel \<Rightarrow> proc" where
  "myproc k \<equiv> kprocs k (me k)"

abbreviation mypid :: "kernel \<Rightarrow> int" where
  "mypid k \<equiv> p_pid (myproc k)"

text \<open>A file system function, run by \<open>me\<close>, without and with a result.\<close>

definition fsdo :: "(fs \<Rightarrow> fs res) \<Rightarrow> kernel \<Rightarrow> kernel res" where
  "fsdo f k = ebind (f (kfs k)) (\<lambda>s. Inr (k\<lparr>kfs := s\<rparr>))"

definition fsget :: "(fs \<Rightarrow> ('b \<times> fs) res) \<Rightarrow> kernel \<Rightarrow> ('b \<times> kernel) res" where
  "fsget f k = ebind (f (kfs k)) (\<lambda>(v, s). Inr (v, k\<lparr>kfs := s\<rparr>))"

text \<open>
  \<open>begin_op\<close> and \<open>end_op\<close> at the level of the block store: the last operation to end commits, and
  the set of logged blocks is empty again.
\<close>

definition op_begin :: "kernel \<Rightarrow> kernel" where
  "op_begin k = k\<lparr>ops := ops k + 1\<rparr>"

definition op_end :: "kernel \<Rightarrow> kernel" where
  "op_end k =
     (let k = k\<lparr>ops := ops k - 1\<rparr>
      in if ops k = 0 then k\<lparr>kfs := (kfs k)\<lparr>dirty := {}\<rparr>\<rparr> else k)"

lemma upd_file_sel [simp]:
  "ftable (upd_file i f k) = (ftable k)(i := f (ftable k i))" "kprocs (upd_file i f k) = kprocs k"
  "kfs (upd_file i f k) = kfs k" "kpipes (upd_file i f k) = kpipes k" "me (upd_file i f k) = me k"
  "freelist (upd_file i f k) = freelist k" "kmemory (upd_file i f k) = kmemory k"
  by (simp_all add: upd_file_def)

lemma upd_proc_sel [simp]:
  "kprocs (upd_proc i f k) = (kprocs k)(i := f (kprocs k i))" "ftable (upd_proc i f k) = ftable k"
  "kfs (upd_proc i f k) = kfs k" "kpipes (upd_proc i f k) = kpipes k" "me (upd_proc i f k) = me k"
  "nextpid (upd_proc i f k) = nextpid k" "initproc (upd_proc i f k) = initproc k"
  "freelist (upd_proc i f k) = freelist k" "kmemory (upd_proc i f k) = kmemory k"
  by (simp_all add: upd_proc_def)

section \<open>Waking processes up\<close>

text \<open>\<^verbatim>\<open>proc.c\<close>: \<open>wakeup\<close>.\<close>

definition wakeup :: "chan \<Rightarrow> kernel \<Rightarrow> kernel" where
  "wakeup ch k =
     fold (\<lambda>p k. if p \<noteq> me k \<and> p_state (kprocs k p) = SLEEPING \<and> p_chan (kprocs k p) = Some ch
                 then upd_proc p (\<lambda>x. x\<lparr>p_state := RUNNABLE\<rparr>) k else k) [0..<NPROC] k"

end
