(* ===== verification/File_Table.thy ===== *)
theory File_Table
  imports Kernel_State
begin

text \<open>
  Open files (\<^verbatim>\<open>kernel/file.c\<close>) and the creation of pipes (\<^verbatim>\<open>kernel/pipe.c\<close>: \<open>pipealloc\<close>).
  \<open>devsw\<close> gives the read and write functions of a device, as the table of that name does.
\<close>

section \<open>Operations\<close>

type_synonym devfun = "u64 \<Rightarrow> int \<Rightarrow> kernel \<Rightarrow> (int \<times> kernel) res"

record devsw =
  dev_read :: "nat \<Rightarrow> devfun option"
  dev_write :: "nat \<Rightarrow> devfun option"

definition filealloc :: "kernel \<Rightarrow> nat option \<times> kernel" where
  "filealloc k =
     (case scan (\<lambda>f. f_ref (ftable k f) = 0) 0 NFILE of
        Some f \<Rightarrow> (Some f, upd_file f (\<lambda>x. x\<lparr>f_ref := 1\<rparr>) k)
      | None \<Rightarrow> (None, k))"

definition filedup :: "nat \<Rightarrow> kernel \<Rightarrow> kernel res" where
  "filedup f k =
     (if f_ref (ftable k f) < 1 then Inl (Panic ''filedup'')
      else Inr (upd_file f (\<lambda>x. x\<lparr>f_ref := f_ref x + 1\<rparr>) k))"

text \<open>\<open>pipeclose\<close> with its wakeup, and the page it frees.\<close>

definition close_pipe :: "nat \<Rightarrow> u64 \<Rightarrow> bool \<Rightarrow> kernel \<Rightarrow> kernel res" where
  "close_pipe kend pi writable k =
     (case pipeclose writable (kpipes k pi) of (x, freed) \<Rightarrow>
        let k = k\<lparr>kpipes := (kpipes k)(pi := x)\<rparr>;
            k = wakeup (if writable then ChPipeRead pi else ChPipeWrite pi) k
        in if freed then kfree kend pi k else Inr k)"

definition fileclose :: "nat \<Rightarrow> nat \<Rightarrow> kernel \<Rightarrow> kernel res" where
  "fileclose kend f k =
     (if f_ref (ftable k f) < 1 then Inl (Panic ''fileclose'')
      else
        let k = upd_file f (\<lambda>x. x\<lparr>f_ref := f_ref x - 1\<rparr>) k in
        if f_ref (ftable k f) > 0 then Inr k
        else
          let ff = ftable k f;
              k = upd_file f (\<lambda>x. x\<lparr>f_ref := 0, f_type := FD_NONE\<rparr>) k in
          if f_type ff = FD_PIPE then close_pipe kend (f_pipe ff) (f_writable ff) k
          else if f_type ff = FD_INODE \<or> f_type ff = FD_DEVICE then
            ebind (fsdo (iput (mypid k) (f_ip ff)) (op_begin k)) (\<lambda>k. Inr (op_end k))
          else Inr k)"

text \<open>The error path of \<open>pipealloc\<close>: the files that were allocated are closed again.\<close>

definition close_opt :: "nat \<Rightarrow> nat option \<Rightarrow> kernel \<Rightarrow> kernel res" where
  "close_opt kend f k = (case f of Some f \<Rightarrow> fileclose kend f k | None \<Rightarrow> Inr k)"

definition pipealloc :: "nat \<Rightarrow> kernel \<Rightarrow> ((nat \<times> nat) option \<times> kernel) res" where
  "pipealloc kend k =
     (case filealloc k of (f0, k) \<Rightarrow>
      case (if f0 = None then (None, k) else filealloc k) of (f1, k) \<Rightarrow>
      case (if f0 = None \<or> f1 = None then (0, k) else kalloc k) of (pi, k) \<Rightarrow>
        (case (f0, f1) of
           (Some a, Some b) \<Rightarrow>
             if pi \<noteq> 0 then
               let k = k\<lparr>kpipes := (kpipes k)(pi := (kpipes k pi)\<lparr>readopen := True, writeopen := True, nwrite := 0, nread := 0\<rparr>)\<rparr>;
                   k = upd_file a (\<lambda>x. x\<lparr>f_type := FD_PIPE, f_readable := True, f_writable := False, f_pipe := pi\<rparr>) k;
                   k = upd_file b (\<lambda>x. x\<lparr>f_type := FD_PIPE, f_readable := False, f_writable := True, f_pipe := pi\<rparr>) k
               in Inr (Some (a, b), k)
             else ebind (close_opt kend f0 k) (\<lambda>k. ebind (close_opt kend f1 k) (\<lambda>k. Inr (None, k)))
         | _ \<Rightarrow> ebind (close_opt kend f0 k) (\<lambda>k. ebind (close_opt kend f1 k) (\<lambda>k. Inr (None, k)))))"

text \<open>The bytes of a \<^verbatim>\<open>struct stat\<close>; four bytes before \<^verbatim>\<open>size\<close> are padding, which the code does not set.\<close>

definition stat_bytes :: "bytes \<Rightarrow> stat \<Rightarrow> byte list" where
  "stat_bytes pad st =
     (let m = put64 16 (st_size st) (put16 10 (st_nlink st) (put16 8 (st_type st)
                (put32 4 (st_ino st) (put32 0 (st_dev st) pad))))
      in map m [0..<24])"

definition filestat :: "bytes \<Rightarrow> nat \<Rightarrow> u64 \<Rightarrow> kernel \<Rightarrow> (int \<times> kernel) res" where
  "filestat pad f addr k =
     (if f_type (ftable k f) = FD_INODE \<or> f_type (ftable k f) = FD_DEVICE then
        let ip = f_ip (ftable k f) in
        ebind (fsdo (ilock (mypid k) (Some ip)) k) (\<lambda>k.
        let st = stati ip (kfs k) in
        ebind (fsdo (iunlock (mypid k) (Some ip)) k) (\<lambda>k.
        case copyout (p_pagetable (myproc k)) addr (stat_bytes pad st) k of (ok, k) \<Rightarrow>
          Inr (if ok then 0 else - 1, k)))
      else Inr (- 1, k))"

text \<open>The device functions are called with the major number of the file as an index.\<close>

definition dev_call :: "(nat \<Rightarrow> devfun option) \<Rightarrow> u16 \<Rightarrow> u64 \<Rightarrow> int \<Rightarrow> kernel \<Rightarrow> (int \<times> kernel) res" where
  "dev_call fs major addr n k =
     (if sint major < 0 \<or> sint major \<ge> int NDEV then Inr (- 1, k)
      else case fs (unat major) of None \<Rightarrow> Inr (- 1, k) | Some g \<Rightarrow> g addr n k)"

text \<open>A pipe of the kernel: the bytes come from and go to the memory of the calling process.\<close>

definition user_byte :: "kernel \<Rightarrow> u64 \<Rightarrow> nat \<Rightarrow> byte option" where
  "user_byte k addr i =
     (case copyin (p_pagetable (myproc k)) (addr + of_nat i) 1 k of
        (True, [b]) \<Rightarrow> Some b
      | _ \<Rightarrow> None)"

definition read_pipe :: "u64 \<Rightarrow> u64 \<Rightarrow> int \<Rightarrow> kernel \<Rightarrow> (int \<times> kernel) res" where
  "read_pipe pi addr n k =
     (case piperead (p_killed (myproc k))
             (\<lambda>i b. fst (copyout (p_pagetable (myproc k)) (addr + of_nat i) [b] k)) n (kpipes k pi) of
        (out, r, x) \<Rightarrow>
          (case r of
             PSleep _ \<Rightarrow> Inl (Asleep ''pipe'')
           | PRet v \<Rightarrow>
               let k = k\<lparr>kpipes := (kpipes k)(pi := x)\<rparr> in
               if v = - 1 then Inr (v, k)
               else Inr (v, wakeup (ChPipeWrite pi) (snd (copyout (p_pagetable (myproc k)) addr out k)))))"

definition write_pipe :: "u64 \<Rightarrow> u64 \<Rightarrow> int \<Rightarrow> kernel \<Rightarrow> (int \<times> kernel) res" where
  "write_pipe pi addr n k =
     (case pipewrite (p_killed (myproc k)) (user_byte k addr) n (kpipes k pi) of
        (r, x) \<Rightarrow>
          (case r of
             PSleep _ \<Rightarrow> Inl (Asleep ''pipe'')
           | PRet v \<Rightarrow>
               let k = k\<lparr>kpipes := (kpipes k)(pi := x)\<rparr> in
               Inr (v, if v = - 1 then k else wakeup (ChPipeRead pi) k)))"

definition fileread :: "devsw \<Rightarrow> nat \<Rightarrow> u64 \<Rightarrow> int \<Rightarrow> kernel \<Rightarrow> (int \<times> kernel) res" where
  "fileread dv f addr n k =
     (let ff = ftable k f in
      if \<not> f_readable ff then Inr (- 1, k)
      else case f_type ff of
        FD_PIPE \<Rightarrow> read_pipe (f_pipe ff) addr n k
      | FD_DEVICE \<Rightarrow> dev_call (dev_read dv) (f_major ff) addr n k
      | FD_INODE \<Rightarrow>
          ebind (fsdo (ilock (mypid k) (Some (f_ip ff))) k) (\<lambda>k.
          ebind (readi (copyout (p_pagetable (myproc k))) (f_ip ff) addr (f_off ff) (of_int n) (kfs k) k) (\<lambda>(r, s, k).
          let k = k\<lparr>kfs := s\<rparr>;
              k = (if r > 0 then upd_file f (\<lambda>x. x\<lparr>f_off := f_off x + of_int r\<rparr>) k else k) in
          ebind (fsdo (iunlock (mypid k) (Some (f_ip ff))) k) (\<lambda>k. Inr (r, k))))
      | FD_NONE \<Rightarrow> Inl (Panic ''fileread''))"

text \<open>One round of the loop of \<open>filewrite\<close>: a transaction of its own.\<close>

definition filewrite_chunk :: "nat \<Rightarrow> u64 \<Rightarrow> int \<Rightarrow> kernel \<Rightarrow> (int \<times> kernel) res" where
  "filewrite_chunk f addr n1 k =
     (let ip = f_ip (ftable k f) in
      ebind (fsdo (ilock (mypid k) (Some ip)) (op_begin k)) (\<lambda>k.
      ebind (fsget (\<lambda>s. writei (copyin (p_pagetable (myproc k))) ip addr (f_off (ftable k f)) (of_int n1) s k) k) (\<lambda>(r, k).
      let k = (if r > 0 then upd_file f (\<lambda>x. x\<lparr>f_off := f_off x + of_int r\<rparr>) k else k) in
      ebind (fsdo (iunlock (mypid k) (Some ip)) k) (\<lambda>k. Inr (r, op_end k)))))"

definition write_max :: int where
  "write_max = int (((MAXOPBLOCKS - 1 - 1 - 2) div 2) * BSIZE)"

function filewrite_loop :: "nat \<Rightarrow> u64 \<Rightarrow> int \<Rightarrow> int \<Rightarrow> kernel \<Rightarrow> (int \<times> kernel) res" where
  "filewrite_loop f addr n i k =
     (if i < n then
        ebind (filewrite_chunk f (addr + of_int i) (min (n - i) write_max) k) (\<lambda>(r, k).
        if r \<noteq> min (n - i) write_max then Inr (i, k)
        else filewrite_loop f addr n (i + min (n - i) write_max) k)
      else Inr (i, k))"
  by pat_completeness auto
termination
  by (relation "measure (\<lambda>(f, addr, n, i, k). nat (n - i))")
    (auto simp: write_max_def MAXOPBLOCKS_def BSIZE_def)

declare filewrite_loop.simps [simp del]

definition filewrite :: "devsw \<Rightarrow> nat \<Rightarrow> u64 \<Rightarrow> int \<Rightarrow> kernel \<Rightarrow> (int \<times> kernel) res" where
  "filewrite dv f addr n k =
     (let ff = ftable k f in
      if \<not> f_writable ff then Inr (- 1, k)
      else case f_type ff of
        FD_PIPE \<Rightarrow> write_pipe (f_pipe ff) addr n k
      | FD_DEVICE \<Rightarrow> dev_call (dev_write dv) (f_major ff) addr n k
      | FD_INODE \<Rightarrow> ebind (filewrite_loop f addr n 0 k) (\<lambda>(i, k). Inr (if i = n then n else - 1, k))
      | FD_NONE \<Rightarrow> Inl (Panic ''filewrite''))"

end
