(* ===== verification/Proc_Table.thy ===== *)
theory Proc_Table
  imports File_Table
begin

text \<open>
  Processes (\<^verbatim>\<open>kernel/proc.c\<close>): allocation, \<open>fork\<close>, \<open>exit\<close>, \<open>wait\<close>, \<open>kill\<close>, the scheduler, and the copies
  between kernel and user memory. \<open>exit\<close> and \<open>yield\<close> return the state in which they call \<open>sched\<close>.

  The parameters are what the linker fixes: \<open>kend\<close> (the symbol \<^verbatim>\<open>end\<close>), \<open>trampoline\<close> and \<open>forkret\<close>.
\<close>

section \<open>Allocation\<close>

definition procinit :: "kernel \<Rightarrow> kernel" where
  "procinit k = fold (\<lambda>p. upd_proc p (\<lambda>x. x\<lparr>p_state := UNUSED, p_kstack := KSTACK p\<rparr>)) [0..<NPROC] k"

definition allocpid :: "kernel \<Rightarrow> int \<times> kernel" where
  "allocpid k = (nextpid k, k\<lparr>nextpid := nextpid k + 1\<rparr>)"

text \<open>A page table has three levels, which is the depth \<open>freewalk\<close> needs.\<close>

definition LEVELS :: nat where "LEVELS = 3"

definition proc_pagetable :: "nat \<Rightarrow> u64 \<Rightarrow> nat \<Rightarrow> kernel \<Rightarrow> (u64 \<times> kernel) res" where
  "proc_pagetable kend trampoline p k =
     (case uvmcreate k of (pt, k) \<Rightarrow>
        if pt = 0 then Inr (0, k)
        else
          ebind (mappages pt TRAMPOLINE (of_nat PGSIZE) trampoline (PTE_R OR PTE_X) k) (\<lambda>(r, k).
          if r < 0 then ebind (uvmfree LEVELS kend pt 0 k) (\<lambda>k. Inr (0, k))
          else
            ebind (mappages pt TRAPFRAME (of_nat PGSIZE) (p_trapframe (kprocs k p)) (PTE_R OR PTE_W) k) (\<lambda>(r, k).
            if r < 0 then
              ebind (uvmunmap kend pt TRAMPOLINE 1 False k) (\<lambda>k.
              ebind (uvmfree LEVELS kend pt 0 k) (\<lambda>k. Inr (0, k)))
            else Inr (pt, k))))"

definition proc_freepagetable :: "nat \<Rightarrow> u64 \<Rightarrow> u64 \<Rightarrow> kernel \<Rightarrow> kernel res" where
  "proc_freepagetable kend pt sz k =
     ebind (uvmunmap kend pt TRAMPOLINE 1 False k) (\<lambda>k.
     ebind (uvmunmap kend pt TRAPFRAME 1 False k) (\<lambda>k.
     uvmfree LEVELS kend pt sz k))"

definition freeproc :: "nat \<Rightarrow> nat \<Rightarrow> kernel \<Rightarrow> kernel res" where
  "freeproc kend p k =
     ebind (if p_trapframe (kprocs k p) \<noteq> 0 then kfree kend (p_trapframe (kprocs k p)) k else Inr k) (\<lambda>k.
     let k = upd_proc p (\<lambda>x. x\<lparr>p_trapframe := 0\<rparr>) k in
     ebind (if p_pagetable (kprocs k p) \<noteq> 0
            then proc_freepagetable kend (p_pagetable (kprocs k p)) (p_sz (kprocs k p)) k else Inr k) (\<lambda>k.
     Inr (upd_proc p (\<lambda>x. x\<lparr>p_pagetable := 0, p_sz := 0, p_pid := 0, p_parent := None, p_name := [],
            p_chan := None, p_killed := False, p_xstate := 0, p_state := UNUSED\<rparr>) k)))"

definition allocproc :: "nat \<Rightarrow> u64 \<Rightarrow> u64 \<Rightarrow> kernel \<Rightarrow> (nat option \<times> kernel) res" where
  "allocproc kend trampoline forkret k =
     (case scan (\<lambda>p. p_state (kprocs k p) = UNUSED) 0 NPROC of
        None \<Rightarrow> Inr (None, k)
      | Some p \<Rightarrow>
          (case allocpid k of (pid, k) \<Rightarrow>
           case kalloc (upd_proc p (\<lambda>x. x\<lparr>p_pid := pid, p_state := USED\<rparr>) k) of (tf, k) \<Rightarrow>
             let k = upd_proc p (\<lambda>x. x\<lparr>p_trapframe := tf\<rparr>) k in
             if tf = 0 then ebind (freeproc kend p k) (\<lambda>k. Inr (None, k))
             else
               ebind (proc_pagetable kend trampoline p k) (\<lambda>(pt, k).
               let k = upd_proc p (\<lambda>x. x\<lparr>p_pagetable := pt\<rparr>) k in
               if pt = 0 then ebind (freeproc kend p k) (\<lambda>k. Inr (None, k))
               else
                 Inr (Some p, upd_proc p (\<lambda>x. x\<lparr>p_context :=
                   \<lparr>c_ra = forkret, c_sp = p_kstack x + of_nat PGSIZE, c_saved = (\<lambda>_. 0)\<rparr>\<rparr>) k))))"

section \<open>Processes\<close>

definition growproc :: "nat \<Rightarrow> int \<Rightarrow> kernel \<Rightarrow> (int \<times> kernel) res" where
  "growproc kend n k =
     (let p = myproc k; sz = p_sz p in
      if n > 0 then
        ebind (uvmalloc kend (p_pagetable p) sz (sz + of_int n) PTE_W k) (\<lambda>(sz, k).
        if sz = 0 then Inr (- 1, k) else Inr (0, upd_proc (me k) (\<lambda>x. x\<lparr>p_sz := sz\<rparr>) k))
      else if n < 0 then
        ebind (uvmdealloc kend (p_pagetable p) sz (sz + of_int n) k) (\<lambda>(sz, k).
        Inr (0, upd_proc (me k) (\<lambda>x. x\<lparr>p_sz := sz\<rparr>) k))
      else Inr (0, upd_proc (me k) (\<lambda>x. x\<lparr>p_sz := sz\<rparr>) k))"

text \<open>\<^verbatim>\<open>struct trapframe\<close> is 288 bytes, with \<^verbatim>\<open>epc\<close> at offset 24, \<^verbatim>\<open>sp\<close> at 48 and \<^verbatim>\<open>a0\<close> at 112.\<close>

definition TF_SIZE :: nat where [layout_simps]: "TF_SIZE = 288"
definition TF_EPC :: nat where [layout_simps]: "TF_EPC = 24"
definition TF_SP :: nat where [layout_simps]: "TF_SP = 48"
definition TF_A0 :: nat where [layout_simps]: "TF_A0 = 112"

definition put_tf :: "nat \<Rightarrow> nat \<Rightarrow> u64 \<Rightarrow> kernel \<Rightarrow> kernel" where
  "put_tf p off v k = k\<lparr>kmemory := put64 (unat (p_trapframe (kprocs k p)) + off) v (kmemory k)\<rparr>"

definition get_tf :: "nat \<Rightarrow> nat \<Rightarrow> kernel \<Rightarrow> u64" where
  "get_tf p off k = get64 (kmemory k) (unat (p_trapframe (kprocs k p)) + off)"

text \<open>The name array holds 16 bytes, the last of them zero.\<close>

definition userinit :: "nat \<Rightarrow> u64 \<Rightarrow> u64 \<Rightarrow> byte list \<Rightarrow> byte list \<Rightarrow> kernel \<Rightarrow> kernel res" where
  "userinit kend trampoline forkret initcode nm k =
     ebind (allocproc kend trampoline forkret k) (\<lambda>(r, k).
     case r of
       None \<Rightarrow> Inl (Undef ''null proc'')
     | Some p \<Rightarrow>
         let k = k\<lparr>initproc := Some p\<rparr> in
         ebind (uvmfirst (p_pagetable (kprocs k p)) initcode k) (\<lambda>k.
         let k = upd_proc p (\<lambda>x. x\<lparr>p_sz := of_nat PGSIZE\<rparr>) k;
             k = put_tf p TF_SP (of_nat PGSIZE) (put_tf p TF_EPC 0 k);
             k = upd_proc p (\<lambda>x. x\<lparr>p_name := take 15 nm\<rparr>) k in
         ebind (fsget (namei (p_pid (kprocs k p)) 0 [slash]) k) (\<lambda>(cwd, k).
         Inr (upd_proc p (\<lambda>x. x\<lparr>p_cwd := cwd, p_state := RUNNABLE\<rparr>) k))))"

text \<open>The child gets a reference to each open file and to the current directory.\<close>

definition dup_files :: "nat \<Rightarrow> nat \<Rightarrow> kernel \<Rightarrow> kernel res" where
  "dup_files p np k =
     efold (\<lambda>i k. case p_ofile (kprocs k p) i of
         Some f \<Rightarrow> ebind (filedup f k) (\<lambda>k. Inr (upd_proc np (\<lambda>x. x\<lparr>p_ofile := (p_ofile x)(i := Some f)\<rparr>) k))
       | None \<Rightarrow> Inr k) [0..<NOFILE] k"

definition fork :: "nat \<Rightarrow> u64 \<Rightarrow> u64 \<Rightarrow> kernel \<Rightarrow> (int \<times> kernel) res" where
  "fork kend trampoline forkret k =
     (let p = me k in
      ebind (allocproc kend trampoline forkret k) (\<lambda>(r, k).
      case r of
        None \<Rightarrow> Inr (- 1, k)
      | Some np \<Rightarrow>
          ebind (uvmcopy kend (p_pagetable (kprocs k p)) (p_pagetable (kprocs k np)) (p_sz (kprocs k p)) k) (\<lambda>(r, k).
          if r < 0 then ebind (freeproc kend np k) (\<lambda>k. Inr (- 1, k))
          else
            let k = upd_proc np (\<lambda>x. x\<lparr>p_sz := p_sz (kprocs k p)\<rparr>) k;
                k = k\<lparr>kmemory := memmove (unat (p_trapframe (kprocs k np))) (unat (p_trapframe (kprocs k p))) TF_SIZE (kmemory k)\<rparr>;
                k = put_tf np TF_A0 0 k in
            ebind (dup_files p np k) (\<lambda>k.
            case p_cwd (kprocs k p) of
              None \<Rightarrow> Inl (Undef ''null inode'')
            | Some cwd \<Rightarrow>
                let k = k\<lparr>kfs := snd (idup cwd (kfs k))\<rparr>;
                    k = upd_proc np (\<lambda>x. x\<lparr>p_cwd := Some cwd, p_name := p_name (kprocs k p)\<rparr>) k;
                    pid = p_pid (kprocs k np);
                    k = upd_proc np (\<lambda>x. x\<lparr>p_parent := Some p\<rparr>) k
                in Inr (pid, upd_proc np (\<lambda>x. x\<lparr>p_state := RUNNABLE\<rparr>) k)))))"

definition reparent :: "nat \<Rightarrow> kernel \<Rightarrow> kernel" where
  "reparent p k =
     fold (\<lambda>pp k. if p_parent (kprocs k pp) = Some p
                  then (case initproc k of
                          Some ini \<Rightarrow> wakeup (ChProc ini) (upd_proc pp (\<lambda>x. x\<lparr>p_parent := Some ini\<rparr>) k)
                        | None \<Rightarrow> upd_proc pp (\<lambda>x. x\<lparr>p_parent := None\<rparr>) k)
                  else k) [0..<NPROC] k"

definition close_files :: "nat \<Rightarrow> nat \<Rightarrow> kernel \<Rightarrow> kernel res" where
  "close_files kend p k =
     efold (\<lambda>fd k. case p_ofile (kprocs k p) fd of
         Some f \<Rightarrow> ebind (fileclose kend f k) (\<lambda>k. Inr (upd_proc p (\<lambda>x. x\<lparr>p_ofile := (p_ofile x)(fd := None)\<rparr>) k))
       | None \<Rightarrow> Inr k) [0..<NOFILE] k"

definition exit :: "nat \<Rightarrow> int \<Rightarrow> kernel \<Rightarrow> kernel res" where
  "exit kend status k =
     (let p = me k in
      if initproc k = Some p then Inl (Panic ''init exiting'')
      else
        ebind (close_files kend p k) (\<lambda>k.
        case p_cwd (kprocs k p) of
          None \<Rightarrow> Inl (Undef ''null inode'')
        | Some cwd \<Rightarrow>
            ebind (fsdo (iput (p_pid (kprocs k p)) cwd) (op_begin k)) (\<lambda>k.
            let k = upd_proc p (\<lambda>x. x\<lparr>p_cwd := None\<rparr>) (op_end k);
                k = reparent p k;
                k = (case p_parent (kprocs k p) of Some q \<Rightarrow> wakeup (ChProc q) k | None \<Rightarrow> k)
            in Inr (upd_proc p (\<lambda>x. x\<lparr>p_xstate := status, p_state := ZOMBIE\<rparr>) k))))"

definition int_bytes :: "int \<Rightarrow> byte list" where
  "int_bytes x = map (put32 0 (of_int x) (\<lambda>_. 0)) [0..<4]"

definition wait :: "nat \<Rightarrow> u64 \<Rightarrow> kernel \<Rightarrow> (int \<times> kernel) res" where
  "wait kend addr k =
     (let p = me k in
      case scan (\<lambda>pp. p_parent (kprocs k pp) = Some p \<and> p_state (kprocs k pp) = ZOMBIE) 0 NPROC of
        Some pp \<Rightarrow>
          let pid = p_pid (kprocs k pp) in
          (case (if addr \<noteq> 0 then copyout (p_pagetable (kprocs k p)) addr (int_bytes (p_xstate (kprocs k pp))) k
                 else (True, k)) of
             (ok, k) \<Rightarrow> if \<not> ok then Inr (- 1, k) else ebind (freeproc kend pp k) (\<lambda>k. Inr (pid, k)))
      | None \<Rightarrow>
          let havekids = (scan (\<lambda>pp. p_parent (kprocs k pp) = Some p) 0 NPROC \<noteq> None) in
          if \<not> havekids \<or> p_killed (kprocs k p) then Inr (- 1, k) else Inl (Asleep ''wait''))"

section \<open>Scheduling\<close>

text \<open>
  One pass of the loop of \<open>scheduler\<close>: \<open>run p\<close> is what happens from the \<^verbatim>\<open>swtch\<close> to process \<open>p\<close> until
  it switches back. The count decides whether the hart waits for an interrupt.
\<close>

definition scheduler_pass :: "(nat \<Rightarrow> kernel \<Rightarrow> kernel) \<Rightarrow> kernel \<Rightarrow> nat \<times> kernel" where
  "scheduler_pass run k =
     fold (\<lambda>p (nproc, k).
       let nproc = (if p_state (kprocs k p) \<noteq> UNUSED then nproc + 1 else nproc) in
       if p_state (kprocs k p) = RUNNABLE
       then (nproc, run p ((upd_proc p (\<lambda>x. x\<lparr>p_state := RUNNING\<rparr>) k)\<lparr>me := p\<rparr>))
       else (nproc, k)) [0..<NPROC] (0, k)"

text \<open>The checks of \<open>sched\<close>, and what it does to the hart \<open>c'\<close> on which the process resumes.\<close>

definition sched :: "bool \<Rightarrow> cpu \<Rightarrow> procstate \<Rightarrow> (cpu \<Rightarrow> cpu) res" where
  "sched hld c st =
     (if \<not> hld then Inl (Panic ''sched p->lock'')
      else if noff c \<noteq> 1 then Inl (Panic ''sched locks'')
      else if st = RUNNING then Inl (Panic ''sched running'')
      else if sie c then Inl (Panic ''sched interruptible'')
      else Inr (\<lambda>c'. c'\<lparr>intena := intena c\<rparr>))"

definition yield :: "kernel \<Rightarrow> kernel" where
  "yield k = upd_proc (me k) (\<lambda>x. x\<lparr>p_state := RUNNABLE\<rparr>) k"

text \<open>\<open>sleep\<close> up to the call of \<open>sched\<close>, and after it.\<close>

definition sleep_enter :: "chan \<Rightarrow> kernel \<Rightarrow> kernel" where
  "sleep_enter ch k = upd_proc (me k) (\<lambda>x. x\<lparr>p_chan := Some ch, p_state := SLEEPING\<rparr>) k"

definition sleep_leave :: "kernel \<Rightarrow> kernel" where
  "sleep_leave k = upd_proc (me k) (\<lambda>x. x\<lparr>p_chan := None\<rparr>) k"

definition kill :: "int \<Rightarrow> kernel \<Rightarrow> int \<times> kernel" where
  "kill pid k =
     (case scan (\<lambda>p. p_pid (kprocs k p) = pid) 0 NPROC of
        Some p \<Rightarrow>
          (0, upd_proc p (\<lambda>x. let x = x\<lparr>p_killed := True\<rparr>
                in if p_state x = SLEEPING then x\<lparr>p_state := RUNNABLE\<rparr> else x) k)
      | None \<Rightarrow> (- 1, k))"

definition setkilled :: "nat \<Rightarrow> kernel \<Rightarrow> kernel" where
  "setkilled p k = upd_proc p (\<lambda>x. x\<lparr>p_killed := True\<rparr>) k"

definition killed :: "nat \<Rightarrow> kernel \<Rightarrow> bool" where
  "killed p k = p_killed (kprocs k p)"

text \<open>\<open>recover\<close> is \<open>initlog\<close>; \<open>first\<close> is the static variable.\<close>

definition forkret_body :: "(superblock \<Rightarrow> fs \<Rightarrow> fs res) \<Rightarrow> bool \<Rightarrow> kernel \<Rightarrow> (bool \<times> kernel) res" where
  "forkret_body recover first k =
     (if first then ebind (fsdo (fsinit recover) k) (\<lambda>k. Inr (False, k)) else Inr (False, k))"

section \<open>Copies to and from either memory\<close>

definition either_copyout :: "bool \<Rightarrow> u64 \<Rightarrow> byte list \<Rightarrow> kernel \<Rightarrow> bool \<times> kernel" where
  "either_copyout user_dst dst src k =
     (if user_dst then copyout (p_pagetable (myproc k)) dst src k
      else (True, k\<lparr>kmemory := splice (unat dst) (length src) (\<lambda>i. src ! i) (kmemory k)\<rparr>))"

definition either_copyin :: "bool \<Rightarrow> u64 \<Rightarrow> nat \<Rightarrow> kernel \<Rightarrow> bool \<times> byte list" where
  "either_copyin user_src src len k =
     (if user_src then copyin (p_pagetable (myproc k)) src len k
      else (True, map (\<lambda>i. kmemory k (unat src + i)) [0..<len]))"

end
