(* ===== verification/Sleep_Wakeup.thy ===== *)
theory Sleep_Wakeup
  imports Proc_Table
begin

text \<open>
  Sleeping and waking (\<^verbatim>\<open>kernel/proc.c\<close>: \<open>sleep\<close>, \<open>wakeup\<close>, the switch of \<open>sched\<close> and \<open>scheduler\<close>), at
  the granularity of the locks. One process runs
  \<^verbatim>\<open>acquire(lk); while(!cond) sleep(chan, lk); release(lk)\<close>, another
  \<^verbatim>\<open>acquire(lk); cond = 1; wakeup(chan); release(lk)\<close>, and the steps of the two and of the scheduler
  interleave in any order. The state of the sleeping process is the \<open>procstate\<close> and channel of the
  process table; \<open>plk\<close> is its \<^verbatim>\<open>p->lock\<close>, which the scheduler hands over in the switch.
\<close>

section \<open>The protocol\<close>

text \<open>Where each of the two is: the comment gives the statement that comes next.\<close>

datatype spc =
    S_Acquire      \<comment> \<open>\<^verbatim>\<open>acquire(lk)\<close>\<close>
  | S_Test         \<comment> \<open>\<^verbatim>\<open>while(!cond)\<close>\<close>
  | S_Plock        \<comment> \<open>\<open>sleep\<close>: \<^verbatim>\<open>acquire(&p->lock)\<close>\<close>
  | S_Unlk         \<comment> \<open>\<^verbatim>\<open>release(lk)\<close>\<close>
  | S_Mark         \<comment> \<open>\<^verbatim>\<open>p->chan = chan; p->state = SLEEPING\<close>\<close>
  | S_Sched        \<comment> \<open>\<^verbatim>\<open>sched()\<close>: the scheduler releases \<^verbatim>\<open>p->lock\<close>\<close>
  | S_Off          \<comment> \<open>switched out\<close>
  | S_Tidy         \<comment> \<open>\<^verbatim>\<open>p->chan = 0; release(&p->lock)\<close>\<close>
  | S_Done

datatype wpc =
    W_Acquire      \<comment> \<open>\<^verbatim>\<open>acquire(lk)\<close>\<close>
  | W_Set          \<comment> \<open>\<^verbatim>\<open>cond = 1\<close>\<close>
  | W_Plock        \<comment> \<open>\<open>wakeup\<close>: \<^verbatim>\<open>acquire(&p->lock)\<close>\<close>
  | W_Wake         \<comment> \<open>\<^verbatim>\<open>if(p->state == SLEEPING && p->chan == chan) p->state = RUNNABLE\<close>\<close>
  | W_Punlock      \<comment> \<open>\<^verbatim>\<open>release(&p->lock)\<close>\<close>
  | W_Release      \<comment> \<open>\<^verbatim>\<open>release(lk)\<close>\<close>
  | W_Done

record sw =
  lk :: bool
  plk :: bool
  cond :: bool
  st :: procstate
  ch :: "chan option"
  spos :: spc
  wpos :: wpc

inductive sw_step :: "chan \<Rightarrow> sw \<Rightarrow> sw \<Rightarrow> bool" for c where
  sw_acquire: "spos s = S_Acquire \<Longrightarrow> \<not> lk s \<Longrightarrow> sw_step c s (s\<lparr>lk := True, spos := S_Test\<rparr>)"
| sw_test_done: "spos s = S_Test \<Longrightarrow> cond s \<Longrightarrow> sw_step c s (s\<lparr>lk := False, spos := S_Done\<rparr>)"
| sw_test_sleep: "spos s = S_Test \<Longrightarrow> \<not> cond s \<Longrightarrow> sw_step c s (s\<lparr>spos := S_Plock\<rparr>)"
| sw_plock: "spos s = S_Plock \<Longrightarrow> \<not> plk s \<Longrightarrow> sw_step c s (s\<lparr>plk := True, spos := S_Unlk\<rparr>)"
| sw_unlk: "spos s = S_Unlk \<Longrightarrow> sw_step c s (s\<lparr>lk := False, spos := S_Mark\<rparr>)"
| sw_mark: "spos s = S_Mark \<Longrightarrow> sw_step c s (s\<lparr>ch := Some c, st := SLEEPING, spos := S_Sched\<rparr>)"
| sw_sched: "spos s = S_Sched \<Longrightarrow> sw_step c s (s\<lparr>plk := False, spos := S_Off\<rparr>)"
| sw_run: "spos s = S_Off \<Longrightarrow> st s = RUNNABLE \<Longrightarrow> \<not> plk s \<Longrightarrow>
    sw_step c s (s\<lparr>plk := True, st := RUNNING, spos := S_Tidy\<rparr>)"
| sw_tidy: "spos s = S_Tidy \<Longrightarrow> sw_step c s (s\<lparr>ch := None, plk := False, spos := S_Acquire\<rparr>)"
| sw_wacquire: "wpos s = W_Acquire \<Longrightarrow> \<not> lk s \<Longrightarrow> sw_step c s (s\<lparr>lk := True, wpos := W_Set\<rparr>)"
| sw_wset: "wpos s = W_Set \<Longrightarrow> sw_step c s (s\<lparr>cond := True, wpos := W_Plock\<rparr>)"
| sw_wplock: "wpos s = W_Plock \<Longrightarrow> \<not> plk s \<Longrightarrow> sw_step c s (s\<lparr>plk := True, wpos := W_Wake\<rparr>)"
| sw_wake: "wpos s = W_Wake \<Longrightarrow>
    sw_step c s (s\<lparr>st := (if st s = SLEEPING \<and> ch s = Some c then RUNNABLE else st s), wpos := W_Punlock\<rparr>)"
| sw_wpunlock: "wpos s = W_Punlock \<Longrightarrow> sw_step c s (s\<lparr>plk := False, wpos := W_Release\<rparr>)"
| sw_wrelease: "wpos s = W_Release \<Longrightarrow> sw_step c s (s\<lparr>lk := False, wpos := W_Done\<rparr>)"

definition sw_start :: "sw \<Rightarrow> bool" where
  "sw_start s \<longleftrightarrow> \<not> lk s \<and> \<not> plk s \<and> \<not> cond s \<and> st s = RUNNING \<and> spos s = S_Acquire \<and> wpos s = W_Acquire"

section \<open>The invariant\<close>

abbreviation s_lk :: "sw \<Rightarrow> bool" where "s_lk s \<equiv> spos s \<in> {S_Test, S_Plock, S_Unlk}"
abbreviation s_plk :: "sw \<Rightarrow> bool" where "s_plk s \<equiv> spos s \<in> {S_Unlk, S_Mark, S_Sched, S_Tidy}"
abbreviation w_lk :: "sw \<Rightarrow> bool" where "w_lk s \<equiv> wpos s \<in> {W_Set, W_Plock, W_Wake, W_Punlock, W_Release}"
abbreviation w_plk :: "sw \<Rightarrow> bool" where "w_plk s \<equiv> wpos s \<in> {W_Wake, W_Punlock}"
abbreviation w_late :: "sw \<Rightarrow> bool" where "w_late s \<equiv> wpos s \<in> {W_Punlock, W_Release, W_Done}"

text \<open>
  Each lock is held by the one whose position says so. The sleeper is committed to sleep, with the
  condition still false or the waker still to come to it, from the test to the switch; once the waker
  has looked at it, it is neither on its way to sleep nor asleep.
\<close>

definition sw_inv :: "chan \<Rightarrow> sw \<Rightarrow> bool" where
  "sw_inv c s \<longleftrightarrow>
     lk s = (s_lk s \<or> w_lk s) \<and> \<not> (s_lk s \<and> w_lk s) \<and>
     plk s = (s_plk s \<or> w_plk s) \<and> \<not> (s_plk s \<and> w_plk s) \<and>
     (cond s \<longleftrightarrow> wpos s \<notin> {W_Acquire, W_Set}) \<and>
     (st s = SLEEPING \<longrightarrow> ch s = Some c \<and> spos s \<in> {S_Sched, S_Off}) \<and>
     (spos s = S_Sched \<longrightarrow> st s = SLEEPING) \<and> (spos s = S_Off \<longrightarrow> st s \<in> {SLEEPING, RUNNABLE}) \<and>
     (w_late s \<longrightarrow> st s \<noteq> SLEEPING \<and> spos s \<notin> {S_Plock, S_Unlk, S_Mark, S_Sched})"

lemma sw_inv_step: "sw_step c s s' \<Longrightarrow> sw_inv c s \<Longrightarrow> sw_inv c s'"
  by (induction rule: sw_step.induct) (auto simp: sw_inv_def)

interpretation swsys: invariant_system sw_start "sw_step c" "sw_inv c" for c
proof
  show "sw_start s \<Longrightarrow> sw_inv c s" for s by (simp add: sw_start_def sw_inv_def)
qed (rule sw_inv_step)

text \<open>Whoever holds a lock can go on, so some step is always possible.\<close>

lemma sw_inv_progress:
  assumes "sw_inv c s" "\<not> (spos s = S_Done \<and> wpos s = W_Done)"
  shows "\<exists>s'. sw_step c s s'"
proof -
  have w: "\<exists>s'. sw_step c s s'" if "wpos s \<noteq> W_Done" "wpos s = W_Acquire \<longrightarrow> \<not> lk s" "wpos s = W_Plock \<longrightarrow> \<not> plk s"
    using that by (cases "wpos s") (simp_all, (blast intro: sw_step.intros)+)
  have p: "\<exists>s'. sw_step c s s'" if "spos s \<noteq> S_Done" "spos s = S_Acquire \<longrightarrow> \<not> lk s" "spos s = S_Plock \<longrightarrow> \<not> plk s"
      "spos s = S_Off \<longrightarrow> st s = RUNNABLE \<and> \<not> plk s"
    using that by (cases "spos s") (simp_all, (blast intro: sw_step.intros)+)
  consider "wpos s = W_Done" | "wpos s = W_Acquire" "lk s" | "wpos s = W_Plock" "plk s"
    | "wpos s \<noteq> W_Done" "wpos s = W_Acquire \<longrightarrow> \<not> lk s" "wpos s = W_Plock \<longrightarrow> \<not> plk s" by blast
  then show ?thesis
  proof cases
    case 1
    then show ?thesis using assms unfolding sw_inv_def by (intro p) auto
  next
    case 2
    then show ?thesis using assms unfolding sw_inv_def by (intro p) auto
  next
    case 3
    then show ?thesis using assms unfolding sw_inv_def by (intro p) auto
  qed (rule w)
qed

section \<open>Properties\<close>

text \<open>
  Claim C6. No wakeup is lost. However the two processes and the scheduler interleave, once the waker
  is done the process that waits for the condition is not asleep, nor on its way to sleep, and as
  long as one of the two has not finished some step is possible.
\<close>

theorem no_lost_wakeup:
  assumes "reach sw_start (sw_step c) s"
  shows "(wpos s = W_Done \<longrightarrow> st s \<noteq> SLEEPING \<and> spos s \<notin> {S_Plock, S_Unlk, S_Mark, S_Sched}) \<and>
    (\<not> (spos s = S_Done \<and> wpos s = W_Done) \<longrightarrow> (\<exists>s'. sw_step c s s'))"
proof -
  have i: "sw_inv c s" using swsys.reach_inv [OF assms] .
  then have "wpos s = W_Done \<longrightarrow> st s \<noteq> SLEEPING \<and> spos s \<notin> {S_Plock, S_Unlk, S_Mark, S_Sched}"
    unfolding sw_inv_def by simp
  then show ?thesis using sw_inv_progress [OF i] by blast
qed

text \<open>A run in which the sleeper goes to sleep first and the waker then wakes it.\<close>

definition sw0 :: sw where
  "sw0 = \<lparr>lk = False, plk = False, cond = False, st = RUNNING, ch = None, spos = S_Acquire, wpos = W_Acquire\<rparr>"

lemma sw0_asleep: "reach sw_start (sw_step ChTicks) (sw0\<lparr>ch := Some ChTicks, st := SLEEPING, spos := S_Off\<rparr>)"
proof -
  note r = reach_step [of sw_start "sw_step ChTicks"]
  have "reach sw_start (sw_step ChTicks) sw0" by (rule reach_start) (simp add: sw_start_def sw0_def)
  from r [OF this sw_acquire] have "reach sw_start (sw_step ChTicks) (sw0\<lparr>lk := True, spos := S_Test\<rparr>)" by (simp add: sw0_def)
  from r [OF this sw_test_sleep] have "reach sw_start (sw_step ChTicks) (sw0\<lparr>lk := True, spos := S_Plock\<rparr>)" by (simp add: sw0_def)
  from r [OF this sw_plock] have "reach sw_start (sw_step ChTicks) (sw0\<lparr>lk := True, plk := True, spos := S_Unlk\<rparr>)" by (simp add: sw0_def)
  from r [OF this sw_unlk] have "reach sw_start (sw_step ChTicks) (sw0\<lparr>plk := True, spos := S_Mark\<rparr>)" by (simp add: sw0_def)
  from r [OF this sw_mark] have "reach sw_start (sw_step ChTicks) (sw0\<lparr>ch := Some ChTicks, st := SLEEPING, plk := True, spos := S_Sched\<rparr>)" by (simp add: sw0_def)
  from r [OF this sw_sched] show ?thesis by (simp add: sw0_def)
qed

theorem no_lost_wakeup_witness:
  "\<exists>s s'. reach sw_start (sw_step ChTicks) s \<and> st s = SLEEPING \<and> sw_step ChTicks s s'"
proof -
  let ?s = "sw0\<lparr>ch := Some ChTicks, st := SLEEPING, spos := S_Off\<rparr>"
  have "st ?s = SLEEPING" "\<not> (spos ?s = S_Done \<and> wpos ?s = W_Done)" by simp_all
  then show ?thesis using no_lost_wakeup [OF sw0_asleep] sw0_asleep by blast
qed

end
