(* ===== verification/Sys_File.thy ===== *)
theory Sys_File
  imports Proc_Table
begin

text \<open>
  System call arguments (\<^verbatim>\<open>kernel/syscall.c\<close>) and the system calls on files (\<^verbatim>\<open>kernel/sysfile.c\<close>). A system
  call returns the value that \<open>syscall\<close> stores in \<^verbatim>\<open>a0\<close>. What a call does on the file system alone
  is a function of its own on the file system state (\<open>link_fs\<close>, \<open>unlink_fs\<close>, \<open>create\<close>, \<open>symlink_fs\<close>),
  which the call runs between \<open>begin_op\<close> and \<open>end_op\<close>.
\<close>

section \<open>Arguments\<close>

definition MAXPATH :: nat where [layout_simps]: "MAXPATH = 128"

definition fetchaddr :: "u64 \<Rightarrow> kernel \<Rightarrow> u64 option" where
  "fetchaddr addr k =
     (let p = myproc k in
      if addr \<ge> p_sz p \<or> addr + 8 > p_sz p then None
      else case copyin (p_pagetable p) addr 8 k of
        (ok, bs) \<Rightarrow> if ok then Some (get64 (\<lambda>i. bs ! i) 0) else None)"

text \<open>The string without its zero byte; \<open>strlen\<close> of the buffer is its length.\<close>

definition fetchstr :: "u64 \<Rightarrow> nat \<Rightarrow> kernel \<Rightarrow> byte list option" where
  "fetchstr addr mx k =
     (case copyinstr (p_pagetable (myproc k)) addr mx k of
        (ok, bs) \<Rightarrow> if ok then Some (takeWhile (\<lambda>b. b \<noteq> 0) bs) else None)"

definition argraw :: "nat \<Rightarrow> kernel \<Rightarrow> u64 res" where
  "argraw n k = (if n \<le> 5 then Inr (get_tf (me k) (TF_A0 + 8 * n) k) else Inl (Panic ''argraw''))"

definition argint :: "nat \<Rightarrow> kernel \<Rightarrow> int res" where
  "argint n k = ebind (argraw n k) (\<lambda>v. Inr (sint (ucast v :: u32)))"

definition argaddr :: "nat \<Rightarrow> kernel \<Rightarrow> u64 res" where
  "argaddr n k = argraw n k"

definition argstr :: "nat \<Rightarrow> nat \<Rightarrow> kernel \<Rightarrow> byte list option res" where
  "argstr n mx k = ebind (argaddr n k) (\<lambda>addr. Inr (fetchstr addr mx k))"

definition argfd :: "nat \<Rightarrow> kernel \<Rightarrow> (nat \<times> nat) option res" where
  "argfd n k =
     ebind (argint n k) (\<lambda>fd.
     Inr (if fd < 0 \<or> fd \<ge> int NOFILE then None
          else case p_ofile (myproc k) (nat fd) of None \<Rightarrow> None | Some f \<Rightarrow> Some (nat fd, f)))"

definition fdalloc :: "nat \<Rightarrow> kernel \<Rightarrow> nat option \<times> kernel" where
  "fdalloc f k =
     (case scan (\<lambda>fd. p_ofile (myproc k) fd = None) 0 NOFILE of
        Some fd \<Rightarrow> (Some fd, upd_proc (me k) (\<lambda>x. x\<lparr>p_ofile := (p_ofile x)(fd := Some f)\<rparr>) k)
      | None \<Rightarrow> (None, k))"

definition clear_fd :: "nat \<Rightarrow> kernel \<Rightarrow> kernel" where
  "clear_fd fd k = upd_proc (me k) (\<lambda>x. x\<lparr>p_ofile := (p_ofile x)(fd := None)\<rparr>) k"

section \<open>Calls on open files\<close>

definition sys_dup :: "kernel \<Rightarrow> (int \<times> kernel) res" where
  "sys_dup k =
     ebind (argfd 0 k) (\<lambda>r. case r of
       None \<Rightarrow> Inr (- 1, k)
     | Some (_, f) \<Rightarrow>
         (case fdalloc f k of
            (None, k) \<Rightarrow> Inr (- 1, k)
          | (Some fd, k) \<Rightarrow> ebind (filedup f k) (\<lambda>k. Inr (int fd, k))))"

definition sys_read :: "devsw \<Rightarrow> kernel \<Rightarrow> (int \<times> kernel) res" where
  "sys_read dv k =
     ebind (argaddr 1 k) (\<lambda>p. ebind (argint 2 k) (\<lambda>n. ebind (argfd 0 k) (\<lambda>r.
     case r of None \<Rightarrow> Inr (- 1, k) | Some (_, f) \<Rightarrow> fileread dv f p n k)))"

definition sys_write :: "devsw \<Rightarrow> kernel \<Rightarrow> (int \<times> kernel) res" where
  "sys_write dv k =
     ebind (argaddr 1 k) (\<lambda>p. ebind (argint 2 k) (\<lambda>n. ebind (argfd 0 k) (\<lambda>r.
     case r of None \<Rightarrow> Inr (- 1, k) | Some (_, f) \<Rightarrow> filewrite dv f p n k)))"

definition sys_close :: "nat \<Rightarrow> kernel \<Rightarrow> (int \<times> kernel) res" where
  "sys_close kend k =
     ebind (argfd 0 k) (\<lambda>r. case r of
       None \<Rightarrow> Inr (- 1, k)
     | Some (fd, f) \<Rightarrow> ebind (fileclose kend f (clear_fd fd k)) (\<lambda>k. Inr (0, k)))"

definition sys_fstat :: "bytes \<Rightarrow> kernel \<Rightarrow> (int \<times> kernel) res" where
  "sys_fstat pad k =
     ebind (argaddr 1 k) (\<lambda>st. ebind (argfd 0 k) (\<lambda>r.
     case r of None \<Rightarrow> Inr (- 1, k) | Some (_, f) \<Rightarrow> filestat pad f st k))"

text \<open>The error path of \<open>sys_pipe\<close> after both descriptors are allocated.\<close>

definition sys_pipe :: "nat \<Rightarrow> kernel \<Rightarrow> (int \<times> kernel) res" where
  "sys_pipe kend k =
     ebind (argaddr 0 k) (\<lambda>fdarray.
     ebind (pipealloc kend k) (\<lambda>(r, k). case r of
       None \<Rightarrow> Inr (- 1, k)
     | Some (rf, wfile) \<Rightarrow>
         (case fdalloc rf k of (fd0, k) \<Rightarrow>
          case (if fd0 = None then (None, k) else fdalloc wfile k) of (fd1, k) \<Rightarrow>
            (case (fd0, fd1) of
               (Some a, Some b) \<Rightarrow>
                 (case copyout (p_pagetable (myproc k)) fdarray (int_bytes (int a)) k of (ok0, k) \<Rightarrow>
                  case (if ok0 then copyout (p_pagetable (myproc k)) (fdarray + 4) (int_bytes (int b)) k else (False, k)) of (ok1, k) \<Rightarrow>
                    if \<not> ok0 \<or> \<not> ok1 then
                      ebind (fileclose kend rf (clear_fd b (clear_fd a k))) (\<lambda>k.
                      ebind (fileclose kend wfile k) (\<lambda>k. Inr (- 1, k)))
                    else Inr (0, k))
             | _ \<Rightarrow>
                 ebind (fileclose kend rf (case fd0 of Some a \<Rightarrow> clear_fd a k | None \<Rightarrow> k)) (\<lambda>k.
                 ebind (fileclose kend wfile k) (\<lambda>k. Inr (- 1, k)))))))"

section \<open>Links\<close>

definition mycwd :: "kernel \<Rightarrow> nat" where
  "mycwd k = (case p_cwd (myproc k) of Some c \<Rightarrow> c | None \<Rightarrow> 0)"

text \<open>A call of the file system between \<open>begin_op\<close> and \<open>end_op\<close>.\<close>

definition in_op :: "(fs \<Rightarrow> ('b \<times> fs) res) \<Rightarrow> kernel \<Rightarrow> ('b \<times> kernel) res" where
  "in_op f k = ebind (fsget f (op_begin k)) (\<lambda>(v, k). Inr (v, op_end k))"

definition link_bad :: "int \<Rightarrow> nat \<Rightarrow> fs \<Rightarrow> (int \<times> fs) res" where
  "link_bad pid ip s =
     ebind (ilock pid (Some ip) s) (\<lambda>s.
     ebind (iupdate ip (upd_inode ip (\<lambda>x. x\<lparr>i_nlink := i_nlink x - 1\<rparr>) s)) (\<lambda>s.
     ebind (iunlockput pid ip s) (\<lambda>s. Inr (- 1, s))))"

definition link_fs :: "int \<Rightarrow> nat \<Rightarrow> byte list \<Rightarrow> byte list \<Rightarrow> fs \<Rightarrow> (int \<times> fs) res" where
  "link_fs pid cwd old new s =
     ebind (namei pid cwd old s) (\<lambda>(r, s). case r of
       None \<Rightarrow> Inr (- 1, s)
     | Some ip \<Rightarrow>
         ebind (ilock pid (Some ip) s) (\<lambda>s.
         if i_type (itab s ip) = T_DIR then ebind (iunlockput pid ip s) (\<lambda>s. Inr (- 1, s))
         else
           ebind (iupdate ip (upd_inode ip (\<lambda>x. x\<lparr>i_nlink := i_nlink x + 1\<rparr>) s)) (\<lambda>s.
           ebind (iunlock pid (Some ip) s) (\<lambda>s.
           ebind (nameiparent pid cwd new (\<lambda>_. 0) s) (\<lambda>(r, name, s). case r of
             None \<Rightarrow> link_bad pid ip s
           | Some dp \<Rightarrow>
               ebind (ilock pid (Some dp) s) (\<lambda>s.
               ebind (if i_dev (itab s dp) \<noteq> i_dev (itab s ip) then Inr (- 1, s)
                      else dirlink pid dp name (i_inum (itab s ip)) s) (\<lambda>(r, s).
               ebind (iunlockput pid dp s) (\<lambda>s.
               if r < 0 then link_bad pid ip s
               else ebind (iput pid ip s) (\<lambda>s. Inr (0, s))))))))))"

definition sys_link :: "kernel \<Rightarrow> (int \<times> kernel) res" where
  "sys_link k =
     ebind (argstr 0 MAXPATH k) (\<lambda>old. ebind (argstr 1 MAXPATH k) (\<lambda>new.
     case (old, new) of
       (Some old, Some new) \<Rightarrow> in_op (link_fs (mypid k) (mycwd k) old new) k
     | _ \<Rightarrow> Inr (- 1, k)))"

function isdirempty_from :: "nat \<Rightarrow> nat \<Rightarrow> u32 \<Rightarrow> fs \<Rightarrow> bytes \<Rightarrow> (bool \<times> fs) res" where
  "isdirempty_from dp off sz s m =
     (if off < unat sz then
        ebind (readi kernel_out dp 0 (of_nat off) (of_nat DIRENT_SIZE) s m) (\<lambda>(r, s, m).
        if r \<noteq> int DIRENT_SIZE then Inl (Panic ''isdirempty: readi'')
        else if de_inum m \<noteq> 0 then Inr (False, s)
        else isdirempty_from dp (off + DIRENT_SIZE) sz s m)
      else Inr (True, s))"
  by pat_completeness auto
termination
  by (relation "measure (\<lambda>(dp, off, sz, s, m). unat sz - off)") (auto simp: DIRENT_SIZE_def)

declare isdirempty_from.simps [simp del]

definition isdirempty :: "nat \<Rightarrow> fs \<Rightarrow> (bool \<times> fs) res" where
  "isdirempty dp s = isdirempty_from dp (2 * DIRENT_SIZE) (i_size (itab s dp)) s (\<lambda>_. 0)"

text \<open>\<^verbatim>\<open>namecmp(name, "...") == 0\<close> for a string constant.\<close>

definition name_is :: "bytes \<Rightarrow> byte list \<Rightarrow> bool" where
  "name_is name bs \<longleftrightarrow>
     namecmp (\<lambda>k. if k < DIRENT_SIZE then (if k < length bs then bs ! k else 0) else name (k - DIRENT_SIZE)) DIRENT_SIZE 0 = 0"

abbreviation dot :: byte where "dot \<equiv> 46"

definition unlink_fs :: "int \<Rightarrow> nat \<Rightarrow> byte list \<Rightarrow> fs \<Rightarrow> (int \<times> fs) res" where
  "unlink_fs pid cwd path s =
     ebind (nameiparent pid cwd path (\<lambda>_. 0) s) (\<lambda>(r, name, s). case r of
       None \<Rightarrow> Inr (- 1, s)
     | Some dp \<Rightarrow>
         ebind (ilock pid (Some dp) s) (\<lambda>s.
         if name_is name [dot] \<or> name_is name [dot, dot] then ebind (iunlockput pid dp s) (\<lambda>s. Inr (- 1, s))
         else
           ebind (dirlookup dp name s) (\<lambda>(r, s). case r of
             None \<Rightarrow> ebind (iunlockput pid dp s) (\<lambda>s. Inr (- 1, s))
           | Some (ip, off) \<Rightarrow>
               ebind (ilock pid (Some ip) s) (\<lambda>s.
               if sint (i_nlink (itab s ip)) < 1 then Inl (Panic ''unlink: nlink < 1'')
               else
                 ebind (if i_type (itab s ip) = T_DIR then isdirempty ip s else Inr (True, s)) (\<lambda>(em, s).
                 if \<not> em then
                   ebind (iunlockput pid ip s) (\<lambda>s. ebind (iunlockput pid dp s) (\<lambda>s. Inr (- 1, s)))
                 else
                   ebind (writei kernel_in dp 0 off (of_nat DIRENT_SIZE) s (\<lambda>_. 0)) (\<lambda>(r, s).
                   if r \<noteq> int DIRENT_SIZE then Inl (Panic ''unlink: writei'')
                   else
                     ebind (if i_type (itab s ip) = T_DIR
                            then iupdate dp (upd_inode dp (\<lambda>x. x\<lparr>i_nlink := i_nlink x - 1\<rparr>) s) else Inr s) (\<lambda>s.
                     ebind (iunlockput pid dp s) (\<lambda>s.
                     ebind (iupdate ip (upd_inode ip (\<lambda>x. x\<lparr>i_nlink := i_nlink x - 1\<rparr>) s)) (\<lambda>s.
                     ebind (iunlockput pid ip s) (\<lambda>s. Inr (0, s)))))))))))"

definition sys_unlink :: "kernel \<Rightarrow> (int \<times> kernel) res" where
  "sys_unlink k =
     ebind (argstr 0 MAXPATH k) (\<lambda>path. case path of
       None \<Rightarrow> Inr (- 1, k)
     | Some path \<Rightarrow> in_op (unlink_fs (mypid k) (mycwd k) path) k)"

section \<open>Creating and opening\<close>

definition cname :: "byte list \<Rightarrow> bytes" where
  "cname bs = (\<lambda>i. if i < length bs then bs ! i else 0)"

definition create_fail :: "int \<Rightarrow> nat \<Rightarrow> nat \<Rightarrow> fs \<Rightarrow> (nat option \<times> fs) res" where
  "create_fail pid ip dp s =
     ebind (iupdate ip (upd_inode ip (\<lambda>x. x\<lparr>i_nlink := 0\<rparr>) s)) (\<lambda>s.
     ebind (iunlockput pid ip s) (\<lambda>s.
     ebind (iunlockput pid dp s) (\<lambda>s. Inr (None, s))))"

definition create_new :: "int \<Rightarrow> nat \<Rightarrow> bytes \<Rightarrow> u16 \<Rightarrow> u16 \<Rightarrow> u16 \<Rightarrow> fs \<Rightarrow> (nat option \<times> fs) res" where
  "create_new pid dp name ty major minor s =
     ebind (ialloc (i_dev (itab s dp)) ty s) (\<lambda>(r, s). case r of
       None \<Rightarrow> ebind (iunlockput pid dp s) (\<lambda>s. Inr (None, s))
     | Some ip \<Rightarrow>
         ebind (ilock pid (Some ip) s) (\<lambda>s.
         ebind (iupdate ip (upd_inode ip (\<lambda>x. x\<lparr>i_major := major, i_minor := minor, i_nlink := 1\<rparr>) s)) (\<lambda>s.
         ebind (if ty = T_DIR then
                  ebind (dirlink pid ip (cname [dot]) (i_inum (itab s ip)) s) (\<lambda>(r, s).
                  if r < 0 then Inr (r, s) else dirlink pid ip (cname [dot, dot]) (i_inum (itab s dp)) s)
                else Inr (0, s)) (\<lambda>(r, s).
         if r < 0 then create_fail pid ip dp s
         else
           ebind (dirlink pid dp name (i_inum (itab s ip)) s) (\<lambda>(r, s).
           if r < 0 then create_fail pid ip dp s
           else
             ebind (if ty = T_DIR then iupdate dp (upd_inode dp (\<lambda>x. x\<lparr>i_nlink := i_nlink x + 1\<rparr>) s) else Inr s) (\<lambda>s.
             ebind (iunlockput pid dp s) (\<lambda>s. Inr (Some ip, s))))))))"

definition create :: "int \<Rightarrow> nat \<Rightarrow> byte list \<Rightarrow> u16 \<Rightarrow> u16 \<Rightarrow> u16 \<Rightarrow> fs \<Rightarrow> (nat option \<times> fs) res" where
  "create pid cwd path ty major minor s =
     ebind (nameiparent pid cwd path (\<lambda>_. 0) s) (\<lambda>(r, name, s). case r of
       None \<Rightarrow> Inr (None, s)
     | Some dp \<Rightarrow>
         ebind (ilock pid (Some dp) s) (\<lambda>s.
         ebind (dirlookup dp name s) (\<lambda>(r, s). case r of
           Some (ip, _) \<Rightarrow>
             ebind (iunlockput pid dp s) (\<lambda>s.
             ebind (ilock pid (Some ip) s) (\<lambda>s.
             if ty = T_FILE \<and> (i_type (itab s ip) = T_FILE \<or> i_type (itab s ip) = T_DEVICE) then Inr (Some ip, s)
             else if ty = T_SYMLINK then Inr (Some ip, s)
             else ebind (iunlockput pid ip s) (\<lambda>s. Inr (None, s))))
         | None \<Rightarrow> create_new pid dp name ty major minor s)))"

definition O_WRONLY :: u32 where [layout_simps]: "O_WRONLY = 1"
definition O_RDWR :: u32 where [layout_simps]: "O_RDWR = 2"
definition O_CREATE :: u32 where [layout_simps]: "O_CREATE = 0x200"
definition O_TRUNC :: u32 where [layout_simps]: "O_TRUNC = 0x400"
definition O_NOFOLLOW :: u32 where [layout_simps]: "O_NOFOLLOW = 0x800"

text \<open>
  The target of a symbolic link: the length, then as many bytes and a zero. The array \<^verbatim>\<open>target\<close> is on
  the kernel stack, which is one page; \<open>junk\<close> is what was there before.
\<close>

definition read_target :: "bytes \<Rightarrow> nat \<Rightarrow> fs \<Rightarrow> (byte list \<times> fs) res" where
  "read_target junk ip s =
     ebind (readi kernel_out ip 0 0 4 s junk) (\<lambda>(_, s, m).
     let length = sint (get32 m 0) in
     if length + 1 < 1 \<or> length + 1 \<ge> int PGSIZE then Inl (Undef ''target'')
     else
       ebind (readi kernel_out ip 0 4 (of_int (length + 1)) s junk) (\<lambda>(_, s, m).
       let bs = map m [0..<nat (length + 1)] in
       if 0 \<notin> set bs then Inl (Undef ''target'') else Inr (takeWhile (\<lambda>b. b \<noteq> 0) bs, s)))"

text \<open>The loop that follows links, with \<open>left\<close> the number of links it still follows; \<open>None\<close> is \<^verbatim>\<open>return -1\<close>.\<close>

fun follow_links :: "nat \<Rightarrow> bytes \<Rightarrow> int \<Rightarrow> nat \<Rightarrow> u32 \<Rightarrow> nat \<Rightarrow> fs \<Rightarrow> (nat option \<times> fs) res" where
  "follow_links 0 junk pid cwd omode ip s =
     (if i_type (itab s ip) = T_SYMLINK then ebind (iunlockput pid ip s) (\<lambda>s. Inr (None, s))
      else Inr (Some ip, s))"
| "follow_links (Suc left) junk pid cwd omode ip s =
     (if i_type (itab s ip) = T_SYMLINK then
        if omode AND O_NOFOLLOW \<noteq> 0 then Inr (Some ip, s)
        else
          ebind (read_target junk ip s) (\<lambda>(target, s).
          ebind (iunlockput pid ip s) (\<lambda>s.
          ebind (namei pid cwd target s) (\<lambda>(r, s). case r of
            None \<Rightarrow> Inr (None, s)
          | Some ip \<Rightarrow> ebind (ilock pid (Some ip) s) (\<lambda>s. follow_links left junk pid cwd omode ip s))))
      else Inr (Some ip, s))"

definition open_inode :: "bytes \<Rightarrow> int \<Rightarrow> nat \<Rightarrow> byte list \<Rightarrow> u32 \<Rightarrow> fs \<Rightarrow> (nat option \<times> fs) res" where
  "open_inode junk pid cwd path omode s =
     ebind (if omode AND O_CREATE \<noteq> 0 then create pid cwd path T_FILE 0 0 s
            else
              ebind (namei pid cwd path s) (\<lambda>(r, s). case r of
                None \<Rightarrow> Inr (None, s)
              | Some ip \<Rightarrow>
                  ebind (ilock pid (Some ip) s) (\<lambda>s.
                  if i_type (itab s ip) = T_DIR \<and> omode \<noteq> 0 then ebind (iunlockput pid ip s) (\<lambda>s. Inr (None, s))
                  else Inr (Some ip, s)))) (\<lambda>(r, s). case r of
       None \<Rightarrow> Inr (None, s)
     | Some ip \<Rightarrow>
         ebind (follow_links 9 junk pid cwd omode ip s) (\<lambda>(r, s). case r of
           None \<Rightarrow> Inr (None, s)
         | Some ip \<Rightarrow>
             if i_type (itab s ip) = T_DEVICE \<and> (sint (i_major (itab s ip)) < 0 \<or> sint (i_major (itab s ip)) \<ge> int NDEV)
             then ebind (iunlockput pid ip s) (\<lambda>s. Inr (None, s))
             else Inr (Some ip, s)))"

definition open_file :: "nat \<Rightarrow> nat \<Rightarrow> u32 \<Rightarrow> kernel \<Rightarrow> kernel" where
  "open_file f ip omode k =
     (let x = itab (kfs k) ip;
          k = (if i_type x = T_DEVICE then upd_file f (\<lambda>y. y\<lparr>f_type := FD_DEVICE, f_major := i_major x\<rparr>) k
               else upd_file f (\<lambda>y. y\<lparr>f_type := FD_INODE, f_off := 0\<rparr>) k)
      in upd_file f (\<lambda>y. y\<lparr>f_ip := ip, f_readable := (omode AND O_WRONLY = 0),
           f_writable := (omode AND O_WRONLY \<noteq> 0 \<or> omode AND O_RDWR \<noteq> 0)\<rparr>) k)"

definition sys_open :: "bytes \<Rightarrow> nat \<Rightarrow> kernel \<Rightarrow> (int \<times> kernel) res" where
  "sys_open junk kend k =
     ebind (argint 1 k) (\<lambda>om. ebind (argstr 0 MAXPATH k) (\<lambda>path. case path of
       None \<Rightarrow> Inr (- 1, k)
     | Some path \<Rightarrow>
         let omode = of_int om in
         ebind (fsget (open_inode junk (mypid k) (mycwd k) path omode) (op_begin k)) (\<lambda>(r, k). case r of
           None \<Rightarrow> Inr (- 1, op_end k)
         | Some ip \<Rightarrow>
             (case filealloc k of (f, k) \<Rightarrow>
              case (case f of None \<Rightarrow> (None, k) | Some f \<Rightarrow> fdalloc f k) of (fd, k) \<Rightarrow>
                (case (f, fd) of
                   (Some f, Some fd) \<Rightarrow>
                     let k = open_file f ip omode k in
                     ebind (if omode AND O_TRUNC \<noteq> 0 \<and> i_type (itab (kfs k) ip) = T_FILE then fsdo (itrunc ip) k else Inr k) (\<lambda>k.
                     ebind (fsdo (iunlock (mypid k) (Some ip)) k) (\<lambda>k. Inr (int fd, op_end k)))
                 | _ \<Rightarrow>
                     ebind (close_opt kend f k) (\<lambda>k.
                     ebind (fsdo (iunlockput (mypid k) ip) k) (\<lambda>k. Inr (- 1, op_end k))))))))"

text \<open>\<open>mkdir\<close> and \<open>mknod\<close>.\<close>

definition make_node :: "u16 \<Rightarrow> u16 \<Rightarrow> u16 \<Rightarrow> byte list option \<Rightarrow> kernel \<Rightarrow> (int \<times> kernel) res" where
  "make_node ty major minor path k =
     (case path of
        None \<Rightarrow> Inr (- 1, k)
      | Some path \<Rightarrow>
          in_op (\<lambda>s. ebind (create (mypid k) (mycwd k) path ty major minor s) (\<lambda>(r, s). case r of
            None \<Rightarrow> Inr (- 1, s)
          | Some ip \<Rightarrow> ebind (iunlockput (mypid k) ip s) (\<lambda>s. Inr (0, s)))) k)"

definition sys_mkdir :: "kernel \<Rightarrow> (int \<times> kernel) res" where
  "sys_mkdir k = ebind (argstr 0 MAXPATH k) (\<lambda>path. make_node T_DIR 0 0 path k)"

definition sys_mknod :: "kernel \<Rightarrow> (int \<times> kernel) res" where
  "sys_mknod k =
     ebind (argint 1 k) (\<lambda>major. ebind (argint 2 k) (\<lambda>minor.
     ebind (argstr 0 MAXPATH k) (\<lambda>path. make_node T_DEVICE (of_int major) (of_int minor) path k)))"

definition chdir_fs :: "int \<Rightarrow> nat \<Rightarrow> byte list \<Rightarrow> fs \<Rightarrow> (nat option \<times> fs) res" where
  "chdir_fs pid cwd path s =
     ebind (namei pid cwd path s) (\<lambda>(r, s). case r of
       None \<Rightarrow> Inr (None, s)
     | Some ip \<Rightarrow>
         ebind (ilock pid (Some ip) s) (\<lambda>s.
         if i_type (itab s ip) \<noteq> T_DIR then ebind (iunlockput pid ip s) (\<lambda>s. Inr (None, s))
         else
           ebind (iunlock pid (Some ip) s) (\<lambda>s.
           ebind (iput pid cwd s) (\<lambda>s. Inr (Some ip, s)))))"

definition sys_chdir :: "kernel \<Rightarrow> (int \<times> kernel) res" where
  "sys_chdir k =
     ebind (argstr 0 MAXPATH k) (\<lambda>path. case path of
       None \<Rightarrow> Inr (- 1, k)
     | Some path \<Rightarrow>
         ebind (in_op (chdir_fs (mypid k) (mycwd k) path) k) (\<lambda>(r, k). case r of
           None \<Rightarrow> Inr (- 1, k)
         | Some ip \<Rightarrow> Inr (0, upd_proc (me k) (\<lambda>x. x\<lparr>p_cwd := Some ip\<rparr>) k)))"

definition symlink_fs :: "int \<Rightarrow> nat \<Rightarrow> byte list \<Rightarrow> byte list \<Rightarrow> fs \<Rightarrow> (int \<times> fs) res" where
  "symlink_fs pid cwd target path s =
     ebind (create pid cwd path T_SYMLINK 0 0 s) (\<lambda>(r, s). case r of
       None \<Rightarrow> Inr (- 1, s)
     | Some ip \<Rightarrow>
         ebind (writei kernel_in ip 0 0 4 s (put32 0 (of_nat (length target)) (\<lambda>_. 0))) (\<lambda>(r, s).
         if r \<noteq> 4 then ebind (iunlockput pid ip s) (\<lambda>s. Inr (- 1, s))
         else
           ebind (writei kernel_in ip 0 4 (of_nat (length target) + 1) s (cname target)) (\<lambda>(r, s).
           if r \<noteq> int (length target) + 1 then ebind (iunlockput pid ip s) (\<lambda>s. Inr (- 1, s))
           else
             ebind (iupdate ip s) (\<lambda>s.
             ebind (iunlockput pid ip s) (\<lambda>s. Inr (0, s))))))"

definition sys_symlink :: "kernel \<Rightarrow> (int \<times> kernel) res" where
  "sys_symlink k =
     ebind (argstr 0 MAXPATH k) (\<lambda>target. ebind (argstr 1 MAXPATH k) (\<lambda>path.
     case (target, path) of
       (Some target, Some path) \<Rightarrow> in_op (symlink_fs (mypid k) (mycwd k) target path) k
     | _ \<Rightarrow> Inr (- 1, k)))"

end
