(* ===== verification/Sys_Proc.thy ===== *)
theory Sys_Proc
  imports Sys_File
begin

text \<open>
  Loading a program (\<^verbatim>\<open>kernel/exec.c\<close>), the system calls on processes (\<^verbatim>\<open>kernel/sysproc.c\<close>) and the
  dispatch of system calls (\<^verbatim>\<open>kernel/syscall.c\<close>). The fields of the ELF header and of a program header
  are read at their offsets; \<open>junk\<close> stands for what was on the kernel stack.
\<close>

section \<open>Program headers\<close>

definition ELF_MAGIC :: u32 where [layout_simps]: "ELF_MAGIC = 0x464C457F"
definition ELF_PROG_LOAD :: u32 where [layout_simps]: "ELF_PROG_LOAD = 1"
definition ELFHDR_SIZE :: nat where [layout_simps]: "ELFHDR_SIZE = 64"
definition PROGHDR_SIZE :: nat where [layout_simps]: "PROGHDR_SIZE = 56"
definition USERSTACK :: nat where [layout_simps]: "USERSTACK = 1"
definition MAXARG :: nat where [layout_simps]: "MAXARG = 32"

record elfhdr =
  e_magic :: u32
  e_entry :: u64
  e_phoff :: u64
  e_phnum :: u16

definition get_elfhdr :: "bytes \<Rightarrow> elfhdr" where
  "get_elfhdr m = \<lparr>e_magic = get32 m 0, e_entry = get64 m 24, e_phoff = get64 m 32, e_phnum = get16 m 56\<rparr>"

record proghdr =
  ph_type :: u32
  ph_flags :: u32
  ph_off :: u64
  ph_vaddr :: u64
  ph_filesz :: u64
  ph_memsz :: u64

definition get_proghdr :: "bytes \<Rightarrow> proghdr" where
  "get_proghdr m = \<lparr>ph_type = get32 m 0, ph_flags = get32 m 4, ph_off = get64 m 8, ph_vaddr = get64 m 16,
     ph_filesz = get64 m 32, ph_memsz = get64 m 40\<rparr>"

definition flags2perm :: "u32 \<Rightarrow> u64" where
  "flags2perm flags =
     (let perm = (if flags AND 1 \<noteq> 0 then PTE_X else 0)
      in if flags AND 2 \<noteq> 0 then perm OR PTE_W else perm)"

section \<open>exec\<close>

text \<open>\<open>loadseg\<close> reads the segment into the physical pages, one page at a time.\<close>

function loadseg_from :: "u64 \<Rightarrow> u64 \<Rightarrow> nat \<Rightarrow> u32 \<Rightarrow> nat \<Rightarrow> nat \<Rightarrow> kernel \<Rightarrow> (int \<times> kernel) res" where
  "loadseg_from pagetable va ip offset sz i k =
     (if i < sz then
        let pa = walkaddr pagetable (va + of_nat i) k in
        if pa = 0 then Inl (Panic ''loadseg: address should exist'')
        else
          let n = min (sz - i) PGSIZE in
          ebind (readi (either_copyout False) ip pa (offset + of_nat i) (of_nat n) (kfs k) k) (\<lambda>(r, s, k).
          if r \<noteq> int n then Inr (- 1, k\<lparr>kfs := s\<rparr>)
          else loadseg_from pagetable va ip offset sz (i + PGSIZE) (k\<lparr>kfs := s\<rparr>))
      else Inr (0, k))"
  by pat_completeness auto
termination
  by (relation "measure (\<lambda>(pagetable, va, ip, offset, sz, i, k). sz - i)") (auto simp: PGSIZE_def)

declare loadseg_from.simps [simp del]

definition loadseg :: "u64 \<Rightarrow> u64 \<Rightarrow> nat \<Rightarrow> u32 \<Rightarrow> u32 \<Rightarrow> kernel \<Rightarrow> (int \<times> kernel) res" where
  "loadseg pagetable va ip offset sz k = loadseg_from pagetable va ip offset (unat sz) 0 k"

text \<open>
  The loop over the program headers, \<open>n\<close> of them left. The first component of the result is
  whether it ended without \<^verbatim>\<open>goto bad\<close>.
\<close>

fun load_segments :: "nat \<Rightarrow> bytes \<Rightarrow> nat \<Rightarrow> u64 \<Rightarrow> nat \<Rightarrow> u32 \<Rightarrow> u64 \<Rightarrow> kernel \<Rightarrow> (bool \<times> u64 \<times> kernel) res" where
  "load_segments kend junk ip pagetable 0 off sz k = Inr (True, sz, k)"
| "load_segments kend junk ip pagetable (Suc n) off sz k =
     ebind (readi kernel_out ip 0 off (of_nat PROGHDR_SIZE) (kfs k) junk) (\<lambda>(r, s, m).
     let k = k\<lparr>kfs := s\<rparr>; ph = get_proghdr m in
     if r \<noteq> int PROGHDR_SIZE then Inr (False, sz, k)
     else if ph_type ph \<noteq> ELF_PROG_LOAD then load_segments kend junk ip pagetable n (off + of_nat PROGHDR_SIZE) sz k
     else if ph_memsz ph < ph_filesz ph then Inr (False, sz, k)
     else if ph_vaddr ph + ph_memsz ph < ph_vaddr ph then Inr (False, sz, k)
     else if unat (ph_vaddr ph) mod PGSIZE \<noteq> 0 then Inr (False, sz, k)
     else
       ebind (uvmalloc kend pagetable sz (ph_vaddr ph + ph_memsz ph) (flags2perm (ph_flags ph)) k) (\<lambda>(sz1, k).
       if sz1 = 0 then Inr (False, sz, k)
       else
         ebind (loadseg pagetable (ph_vaddr ph) ip (ucast (ph_off ph)) (ucast (ph_filesz ph)) k) (\<lambda>(r, k).
         if r < 0 then Inr (False, sz1, k)
         else load_segments kend junk ip pagetable n (off + of_nat PROGHDR_SIZE) sz1 k)))"

text \<open>The label \<^verbatim>\<open>bad\<close>.\<close>

definition exec_bad :: "nat \<Rightarrow> u64 \<Rightarrow> u64 \<Rightarrow> nat option \<Rightarrow> kernel \<Rightarrow> (int \<times> kernel) res" where
  "exec_bad kend pagetable sz ip k =
     ebind (if pagetable \<noteq> 0 then proc_freepagetable kend pagetable sz k else Inr k) (\<lambda>k.
     ebind (case ip of
              Some ip \<Rightarrow> ebind (fsdo (iunlockput (mypid k) ip) k) (\<lambda>k. Inr (op_end k))
            | None \<Rightarrow> Inr k) (\<lambda>k. Inr (- 1, k)))"

definition align16 :: "u64 \<Rightarrow> u64" where
  "align16 sp = sp - sp mod 16"

text \<open>The loop that pushes the argument strings: the stack pointer and their addresses, or \<open>None\<close> for \<^verbatim>\<open>bad\<close>.\<close>

fun push_args :: "u64 \<Rightarrow> u64 \<Rightarrow> byte list list \<Rightarrow> nat \<Rightarrow> u64 \<Rightarrow> kernel \<Rightarrow> (u64 \<times> u64 list) option \<times> kernel" where
  "push_args pagetable stackbase [] argc sp k = (Some (sp, []), k)"
| "push_args pagetable stackbase (a # args) argc sp k =
     (if argc \<ge> MAXARG then (None, k)
      else
        let sp = align16 (sp - (of_nat (length a) + 1)) in
        if sp < stackbase then (None, k)
        else case copyout pagetable sp (a @ [0]) k of (ok, k) \<Rightarrow>
          if \<not> ok then (None, k)
          else case push_args pagetable stackbase args (argc + 1) sp k of
            (None, k) \<Rightarrow> (None, k)
          | (Some (sp', us), k) \<Rightarrow> (Some (sp', sp # us), k))"

definition words_bytes :: "u64 list \<Rightarrow> byte list" where
  "words_bytes us = concat (map (\<lambda>u. map (put64 0 u (\<lambda>_. 0)) [0..<8]) us)"

text \<open>The program name: what follows the last slash.\<close>

definition last_name :: "byte list \<Rightarrow> byte list" where
  "last_name path = rev (takeWhile (\<lambda>c. c \<noteq> slash) (rev path))"

definition TF_A1 :: nat where [layout_simps]: "TF_A1 = 120"

definition exec_stack :: "nat \<Rightarrow> byte list \<Rightarrow> byte list list \<Rightarrow> u64 \<Rightarrow> u64 \<Rightarrow> u64 \<Rightarrow> kernel \<Rightarrow> (int \<times> kernel) res" where
  "exec_stack kend path argv entry pagetable sz k =
     (let oldsz = p_sz (myproc k); sz = PGROUNDUP64 sz in
      ebind (uvmalloc kend pagetable sz (sz + (of_nat USERSTACK + 1) * of_nat PGSIZE) PTE_W k) (\<lambda>(sz1, k).
      if sz1 = 0 then exec_bad kend pagetable sz None k
      else
        ebind (uvmclear pagetable (sz1 - (of_nat USERSTACK + 1) * of_nat PGSIZE) k) (\<lambda>k.
        let stackbase = sz1 - of_nat USERSTACK * of_nat PGSIZE in
        (case push_args pagetable stackbase argv 0 sz1 k of
           (None, k) \<Rightarrow> exec_bad kend pagetable sz1 None k
         | (Some (sp, us), k) \<Rightarrow>
             let sp = align16 (sp - (of_nat (length argv) + 1) * 8) in
             if sp < stackbase then exec_bad kend pagetable sz1 None k
             else case copyout pagetable sp (words_bytes (us @ [0])) k of (ok, k) \<Rightarrow>
               if \<not> ok then exec_bad kend pagetable sz1 None k
               else
                 let k = put_tf (me k) TF_A1 sp k;
                     oldpagetable = p_pagetable (myproc k);
                     k = upd_proc (me k) (\<lambda>x. x\<lparr>p_name := take 15 (last_name path), p_pagetable := pagetable, p_sz := sz1\<rparr>) k;
                     k = put_tf (me k) TF_SP sp (put_tf (me k) TF_EPC entry k) in
                 ebind (proc_freepagetable kend oldpagetable oldsz k) (\<lambda>k. Inr (int (length argv), k))))))"

definition exec :: "nat \<Rightarrow> u64 \<Rightarrow> bytes \<Rightarrow> byte list \<Rightarrow> byte list list \<Rightarrow> kernel \<Rightarrow> (int \<times> kernel) res" where
  "exec kend trampoline junk path argv k =
     ebind (fsget (namei (mypid k) (mycwd k) path) (op_begin k)) (\<lambda>(r, k). case r of
       None \<Rightarrow> Inr (- 1, op_end k)
     | Some ip \<Rightarrow>
         ebind (fsdo (ilock (mypid k) (Some ip)) k) (\<lambda>k.
         ebind (readi kernel_out ip 0 0 (of_nat ELFHDR_SIZE) (kfs k) junk) (\<lambda>(r, s, m).
         let k = k\<lparr>kfs := s\<rparr>; elf = get_elfhdr m in
         if r \<noteq> int ELFHDR_SIZE \<or> e_magic elf \<noteq> ELF_MAGIC then exec_bad kend 0 0 (Some ip) k
         else
           ebind (proc_pagetable kend trampoline (me k) k) (\<lambda>(pagetable, k).
           if pagetable = 0 then exec_bad kend 0 0 (Some ip) k
           else
             ebind (load_segments kend junk ip pagetable (unat (e_phnum elf)) (ucast (e_phoff elf)) 0 k) (\<lambda>(ok, sz, k).
             if \<not> ok then exec_bad kend pagetable sz (Some ip) k
             else
               ebind (fsdo (iunlockput (mypid k) ip) k) (\<lambda>k.
               exec_stack kend path argv (e_entry elf) pagetable sz (op_end k)))))))"

section \<open>System calls on processes\<close>

text \<open>
  The loop of \<open>sys_exec\<close> that fetches the arguments: \<open>left\<close> entries of \<^verbatim>\<open>argv\<close> remain. The result
  holds the pages allocated so far, which the call frees, and the strings, or \<open>None\<close> for \<^verbatim>\<open>bad\<close>.
\<close>

fun fetch_args :: "nat \<Rightarrow> u64 \<Rightarrow> kernel \<Rightarrow> (byte list list option \<times> u64 list) \<times> kernel" where
  "fetch_args 0 uargv k = ((None, []), k)"
| "fetch_args (Suc left) uargv k =
     (case fetchaddr uargv k of
        None \<Rightarrow> ((None, []), k)
      | Some uarg \<Rightarrow>
          if uarg = 0 then ((Some [], []), k)
          else case kalloc k of (pg, k) \<Rightarrow>
            if pg = 0 then ((None, []), k)
            else case fetchstr uarg PGSIZE k of
              None \<Rightarrow> ((None, [pg]), k)
            | Some a \<Rightarrow>
                (case fetch_args left (uargv + 8)
                    (k\<lparr>kmemory := splice (unat pg) (length a + 1) (cname a) (kmemory k)\<rparr>) of
                   ((r, pgs), k) \<Rightarrow> ((map_option (\<lambda>as. a # as) r, pg # pgs), k)))"

definition free_args :: "nat \<Rightarrow> u64 list \<Rightarrow> kernel \<Rightarrow> kernel res" where
  "free_args kend pgs k = efold (kfree kend) pgs k"

definition sys_exec :: "nat \<Rightarrow> u64 \<Rightarrow> bytes \<Rightarrow> kernel \<Rightarrow> (int \<times> kernel) res" where
  "sys_exec kend trampoline junk k =
     ebind (argaddr 1 k) (\<lambda>uargv. ebind (argstr 0 MAXPATH k) (\<lambda>path. case path of
       None \<Rightarrow> Inr (- 1, k)
     | Some path \<Rightarrow>
         (case fetch_args MAXARG uargv k of
            ((Some argv, pgs), k) \<Rightarrow>
              ebind (exec kend trampoline junk path argv k) (\<lambda>(r, k).
              ebind (free_args kend pgs k) (\<lambda>k. Inr (r, k)))
          | ((None, pgs), k) \<Rightarrow> ebind (free_args kend pgs k) (\<lambda>k. Inr (- 1, k)))))"

definition sys_getpid :: "kernel \<Rightarrow> (int \<times> kernel) res" where
  "sys_getpid k = Inr (mypid k, k)"

definition sys_fork :: "nat \<Rightarrow> u64 \<Rightarrow> u64 \<Rightarrow> kernel \<Rightarrow> (int \<times> kernel) res" where
  "sys_fork kend trampoline forkret k = fork kend trampoline forkret k"

definition sys_wait :: "nat \<Rightarrow> kernel \<Rightarrow> (int \<times> kernel) res" where
  "sys_wait kend k = ebind (argaddr 0 k) (\<lambda>p. wait kend p k)"

definition sys_sbrk :: "nat \<Rightarrow> kernel \<Rightarrow> (int \<times> kernel) res" where
  "sys_sbrk kend k =
     ebind (argint 0 k) (\<lambda>n.
     let addr = p_sz (myproc k) in
     ebind (growproc kend n k) (\<lambda>(r, k). Inr (if r < 0 then - 1 else uint addr, k)))"

text \<open>\<^verbatim>\<open>ticks - ticks0 < n\<close> compares unsigned; \<open>ticks0\<close> is the clock when the call began.\<close>

definition sys_sleep :: "u32 \<Rightarrow> kernel \<Rightarrow> (int \<times> kernel) res" where
  "sys_sleep ticks0 k =
     ebind (argint 0 k) (\<lambda>n.
     let n = (if n < 0 then 0 else n) in
     if ticks k - ticks0 < of_int n then
       if killed (me k) k then Inr (- 1, k) else Inl (Asleep ''ticks'')
     else Inr (0, k))"

definition sys_kill :: "kernel \<Rightarrow> (int \<times> kernel) res" where
  "sys_kill k = ebind (argint 0 k) (\<lambda>pid. Inr (kill pid k))"

definition sys_uptime :: "kernel \<Rightarrow> (int \<times> kernel) res" where
  "sys_uptime k = Inr (uint (ticks k), k)"

definition sys_exit :: "nat \<Rightarrow> kernel \<Rightarrow> (int \<times> kernel) res" where
  "sys_exit kend k = ebind (argint 0 k) (\<lambda>n. ebind (exit kend n k) (\<lambda>k. Inr (0, k)))"

section \<open>Dispatch\<close>

text \<open>What the linker and the hardware fix, and the contents of the stack.\<close>

record env =
  e_kend :: nat
  e_trampoline :: u64
  e_forkret :: u64
  e_junk :: bytes
  e_devsw :: devsw
  e_ticks0 :: u32

definition syscalls :: "env \<Rightarrow> nat \<Rightarrow> (kernel \<Rightarrow> (int \<times> kernel) res) option" where
  "syscalls e num =
     (if num = 1 then Some (sys_fork (e_kend e) (e_trampoline e) (e_forkret e))
      else if num = 2 then Some (sys_exit (e_kend e))
      else if num = 3 then Some (sys_wait (e_kend e))
      else if num = 4 then Some (sys_pipe (e_kend e))
      else if num = 5 then Some (sys_read (e_devsw e))
      else if num = 6 then Some sys_kill
      else if num = 7 then Some (sys_exec (e_kend e) (e_trampoline e) (e_junk e))
      else if num = 8 then Some (sys_fstat (e_junk e))
      else if num = 9 then Some sys_chdir
      else if num = 10 then Some sys_dup
      else if num = 11 then Some sys_getpid
      else if num = 12 then Some (sys_sbrk (e_kend e))
      else if num = 13 then Some (sys_sleep (e_ticks0 e))
      else if num = 14 then Some sys_uptime
      else if num = 15 then Some (sys_open (e_junk e) (e_kend e))
      else if num = 16 then Some (sys_write (e_devsw e))
      else if num = 17 then Some sys_mknod
      else if num = 18 then Some sys_unlink
      else if num = 19 then Some sys_link
      else if num = 20 then Some sys_mkdir
      else if num = 21 then Some (sys_close (e_kend e))
      else if num = 22 then Some sys_symlink
      else None)"

definition TF_A7 :: nat where [layout_simps]: "TF_A7 = 168"

text \<open>An unknown number is also reported on the console.\<close>

definition syscall :: "env \<Rightarrow> kernel \<Rightarrow> kernel res" where
  "syscall e k =
     (let num = sint (ucast (get_tf (me k) TF_A7 k) :: u32) in
      case (if num > 0 then syscalls e (nat num) else None) of
        Some f \<Rightarrow> ebind (f k) (\<lambda>(r, k). Inr (put_tf (me k) TF_A0 (of_int r) k))
      | None \<Rightarrow> Inr (put_tf (me k) TF_A0 (- 1) k))"

end
