(* ===== verification/Fs_Content.thy ===== *)
theory Fs_Content
  imports Fs_Data
begin

text \<open>
  What \<open>readi\<close> and \<open>writei\<close> do to the contents of a file. \<open>file_blk\<close> is the specification of the
  block map: the disk block of block \<open>bn\<close> of a file, read through the direct, indirect and
  double-indirect pointers; \<open>file_byte\<close> is the contents that it gives the file.
\<close>

section \<open>The block map\<close>

definition file_blk :: "'a fs_scheme \<Rightarrow> nat \<Rightarrow> nat \<Rightarrow> u32" where
  "file_blk s i bn =
     (let a = i_addrs (itab s i) in
      if bn < NDIRECT then a bn
      else if bn < NDIRECT + NINDIRECT then get32 (blk s (a NDIRECT)) (4 * (bn - NDIRECT))
      else let k = bn - NDIRECT - NINDIRECT in
        get32 (blk s (get32 (blk s (a (NDIRECT + 1))) (4 * (k div NINDIRECT)))) (4 * (k mod NINDIRECT)))"

text \<open>The pointers followed to reach block \<open>bn\<close>.\<close>

definition map_blks :: "'a fs_scheme \<Rightarrow> nat \<Rightarrow> nat \<Rightarrow> u32 list" where
  "map_blks s i bn =
     (let a = i_addrs (itab s i) in
      if bn < NDIRECT then []
      else if bn < NDIRECT + NINDIRECT then [a NDIRECT]
      else [a (NDIRECT + 1), get32 (blk s (a (NDIRECT + 1))) (4 * ((bn - NDIRECT - NINDIRECT) div NINDIRECT))])"

definition free_blk :: "'a fs_scheme \<Rightarrow> u32 \<Rightarrow> bool" where
  "free_blk s b \<longleftrightarrow> b \<noteq> 0 \<and> b \<notin> lockd s \<and> b \<notin> touched s"

definition mapped :: "'a fs_scheme \<Rightarrow> nat \<Rightarrow> nat \<Rightarrow> bool" where
  "mapped s i bn \<longleftrightarrow> bn < MAXFILE \<and> free_blk s (file_blk s i bn) \<and> list_all (free_blk s) (map_blks s i bn)"

lemma lockd_same [simp]: "s\<lparr>lockd := lockd s\<rparr> = s"
  by simp

lemma bmap_addr_mapped: "i_addrs (itab s i) k \<noteq> 0 \<Longrightarrow> bmap_addr i k s = Inr (i_addrs (itab s i) k, s)"
  by (simp add: bmap_addr_def Let_def)

lemma bmap_entry_mapped:
  assumes "free_blk s bp" "get32 (blk s bp) (4 * k) \<noteq> 0"
  shows "bmap_entry bp k s = Inr (get32 (blk s bp) (4 * k), s)"
  using assms by (simp add: bmap_entry_def free_blk_def Let_def)

lemma bmap_mapped:
  assumes "mapped s i bn"
  shows "bmap i bn s = Inr (file_blk s i bn, s)"
  using assms
  by (auto simp: mapped_def bmap_def file_blk_def map_blks_def free_blk_def Let_def MAXFILE_def DOUBLEINDIRECT_def
      NINDIRECT_def bmap_addr_mapped bmap_entry_mapped)

section \<open>Contents\<close>

definition file_byte :: "'a fs_scheme \<Rightarrow> nat \<Rightarrow> nat \<Rightarrow> byte" where
  "file_byte s i p = blk s (file_blk s i (p div BSIZE)) (p mod BSIZE)"

text \<open>A file all of whose blocks are there.\<close>

definition live :: "'a fs_scheme \<Rightarrow> nat \<Rightarrow> nat \<Rightarrow> bool" where
  "live s i bn \<longleftrightarrow> bn * BSIZE < unat (i_size (itab s i))"

definition file_ok :: "'a fs_scheme \<Rightarrow> nat \<Rightarrow> bool" where
  "file_ok s i \<longleftrightarrow> unat (i_size (itab s i)) \<le> MAXFILE * BSIZE \<and> (\<forall>bn. live s i bn \<longrightarrow> mapped s i bn)"

lemma live_byte: "p < unat (i_size (itab s i)) \<Longrightarrow> live s i (p div BSIZE)"
  unfolding live_def by (rule le_less_trans) (simp_all add: mult.commute)

lemma same_block: "j < BSIZE - off mod BSIZE \<Longrightarrow> (off + j) div BSIZE = off div BSIZE \<and> (off + j) mod BSIZE = off mod BSIZE + j"
proof -
  assume a: "j < BSIZE - off mod BSIZE"
  have e: "off + j = (off mod BSIZE + j) + (off div BSIZE) * BSIZE" by (simp add: mult_div_mod_eq mult.commute)
  have "off mod BSIZE + j < BSIZE" using a by simp
  then have "((off mod BSIZE + j) + q * BSIZE) div BSIZE = q \<and> ((off mod BSIZE + j) + q * BSIZE) mod BSIZE = off mod BSIZE + j" for q
    by simp
  then show ?thesis using e by metis
qed

lemma splice_join:
  assumes "k \<le> n" "\<And>j. j < k \<Longrightarrow> g j = f j"
  shows "splice (d + k) (n - k) (\<lambda>j. f (k + j)) (splice d k g m) = splice d n f m"
  using assms by (auto simp: splice_def fun_eq_iff)

lemma splice_empty [simp]: "splice d 0 f m = m"
  by (rule ext) (auto simp: splice_def)

lemma readi_loop_contents:
  assumes "tot \<le> n" "\<And>j. j < n - tot \<Longrightarrow> mapped s i ((off + j) div BSIZE)" "unat dst + (n - tot) < 2 ^ 64"
  shows "readi_loop kernel_out i dst off n tot s m =
    Inr (of_nat n, s, splice (unat dst) (n - tot) (\<lambda>j. file_byte s i (off + j)) m)"
  using assms
proof (induction "n - tot" arbitrary: tot dst off m rule: less_induct)
  case less
  show ?case
  proof (cases "tot < n")
    case False
    then have "tot = n" using less.prems(1) by simp
    then show ?thesis by (simp add: readi_loop.simps [of _ _ _ _ n n])
  next
    case True
    define k where "k = min (n - tot) (BSIZE - off mod BSIZE)"
    let ?addr = "file_blk s i (off div BSIZE)"
    let ?bs = "map (\<lambda>j. blk s ?addr (off mod BSIZE + j)) [0..<k]"
    have k: "0 < k" "k \<le> n - tot" "k \<le> BSIZE - off mod BSIZE" using chunk_pos [OF True] by (auto simp: k_def)
    have mp: "mapped s i (off div BSIZE)" using less.prems(2) [of 0] True by simp
    have fb: "?addr \<noteq> 0" "?addr \<notin> lockd s" "?addr \<notin> touched s" using mp by (auto simp: mapped_def free_blk_def)
    have u: "unat (dst + of_nat k) = unat dst + k"
    proof -
      have "k < 2 ^ 64" "unat dst + k < 2 ^ 64" using less.prems(3) k by auto
      then show ?thesis unfolding unat_word_ariths unat_of_nat by simp
    qed
    have "readi_loop kernel_out i dst off n tot s m =
        readi_loop kernel_out i (dst + of_nat k) (off + k) n (tot + k) s (splice (unat dst) k (\<lambda>j. ?bs ! j) m)"
      using True fb unfolding readi_loop.simps [of _ i dst off n tot] bmap_mapped [OF mp] k_def by (simp add: kernel_out_def)
    also have "\<dots> = Inr (of_nat n, s, splice (unat (dst + of_nat k)) (n - (tot + k)) (\<lambda>j. file_byte s i (off + k + j))
        (splice (unat dst) k (\<lambda>j. ?bs ! j) m))"
    proof (rule less.hyps)
      show "n - (tot + k) < n - tot" using k True by linarith
      show "tot + k \<le> n" using k True by linarith
      show "unat (dst + of_nat k) + (n - (tot + k)) < 2 ^ 64" using u less.prems(3) k by linarith
      show "mapped s i ((off + k + j) div BSIZE)" if "j < n - (tot + k)" for j
        unfolding add.assoc by (rule less.prems(2)) (use that in linarith)
    qed
    also have "\<dots> = Inr (of_nat n, s, splice (unat dst) (n - tot) (\<lambda>j. file_byte s i (off + j)) m)"
    proof -
      have e: "?bs ! j = file_byte s i (off + j)" if "j < k" for j
        using that k(3) same_block [of j off] by (simp add: file_byte_def)
      have r: "n - (tot + k) = n - tot - k" by simp
      have "splice (unat dst + k) (n - tot - k) (\<lambda>j. file_byte s i (off + (k + j))) (splice (unat dst) k (\<lambda>j. ?bs ! j) m) =
          splice (unat dst) (n - tot) (\<lambda>j. file_byte s i (off + j)) m"
        by (rule splice_join [OF k(2)]) (rule e)
      then show ?thesis unfolding u r add.assoc by (simp only:)
    qed
    finally show ?thesis .
  qed
qed

lemma sint_small: "n < 2 ^ 31 \<Longrightarrow> sint (of_nat n :: u32) = int n"
  by (simp add: sint_uint unsigned_of_nat signed_take_bit_int_eq_self take_bit_nat_eq_self
      of_nat_take_bit flip: take_bit_nat_def)

section \<open>Writing\<close>

text \<open>
  A file whose blocks are apart: no block is used twice, and no data block is one that the map, or
  the inode, is kept in.
\<close>

definition file_sep :: "'a fs_scheme \<Rightarrow> nat \<Rightarrow> bool" where
  "file_sep s i \<longleftrightarrow>
     (\<forall>a b. live s i a \<and> live s i b \<longrightarrow>
        (file_blk s i a = file_blk s i b \<longrightarrow> a = b) \<and> file_blk s i a \<notin> set (map_blks s i b)) \<and>
     (\<forall>a. live s i a \<longrightarrow> IBLOCK (i_inum (itab s i)) (sb s) \<noteq> file_blk s i a \<and>
        IBLOCK (i_inum (itab s i)) (sb s) \<notin> set (map_blks s i a)) \<and>
     IBLOCK (i_inum (itab s i)) (sb s) \<notin> lockd s \<union> touched s"

lemma file_blk_cong:
  assumes "itab s' = itab s" "\<And>b. b \<in> set (map_blks s i bn) \<Longrightarrow> blk s' b = blk s b"
  shows "file_blk s' i bn = file_blk s i bn" "map_blks s' i bn = map_blks s i bn"
  using assms by (auto simp: file_blk_def map_blks_def Let_def)

text \<open>
  \<open>same_map s s' i\<close>: the file is kept in the same blocks. It follows when only data blocks of the
  file and its inode block were written.
\<close>

definition same_map :: "'a fs_scheme \<Rightarrow> 'a fs_scheme \<Rightarrow> nat \<Rightarrow> bool" where
  "same_map s s' i \<longleftrightarrow> itab s' = itab s \<and> sb s' = sb s \<and> lockd s' = lockd s \<and> touched s' = touched s \<and>
     (\<forall>bn. live s i bn \<longrightarrow> file_blk s' i bn = file_blk s i bn \<and> map_blks s' i bn = map_blks s i bn)"

lemma same_map_data:
  assumes "file_sep s i" "itab s' = itab s" "sb s' = sb s" "lockd s' = lockd s" "touched s' = touched s"
    and "\<And>b. b \<noteq> IBLOCK (i_inum (itab s i)) (sb s) \<Longrightarrow> (\<And>bn. live s i bn \<Longrightarrow> b \<noteq> file_blk s i bn) \<Longrightarrow> blk s' b = blk s b"
  shows "same_map s s' i"
proof -
  have "blk s' b = blk s b" if "live s i bn" "b \<in> set (map_blks s i bn)" for b bn
    using assms(1) that by (intro assms(6)) (auto simp: file_sep_def)
  then have "file_blk s' i bn = file_blk s i bn \<and> map_blks s' i bn = map_blks s i bn" if "live s i bn" for bn
    using file_blk_cong [OF assms(2)] that by blast
  then show ?thesis using assms(2-5) by (simp add: same_map_def)
qed

lemma same_map_live: "same_map s s' i \<Longrightarrow> live s' i = live s i"
  by (auto simp: same_map_def live_def fun_eq_iff)

lemma same_map_ok:
  assumes "same_map s s' i" "file_ok s i"
  shows "file_ok s' i"
proof -
  have "mapped s' i bn" if "live s i bn" for bn
  proof -
    have "mapped s i bn" using assms(2) that by (simp add: file_ok_def)
    moreover have "free_blk s' = free_blk s" using assms(1) by (simp add: same_map_def free_blk_def fun_eq_iff)
    ultimately show ?thesis using assms(1) that by (simp add: same_map_def mapped_def)
  qed
  then show ?thesis using assms same_map_live [OF assms(1)] by (simp add: file_ok_def same_map_def)
qed

lemma same_map_sep: "same_map s s' i \<Longrightarrow> file_sep s i \<Longrightarrow> file_sep s' i"
  unfolding file_sep_def using same_map_live [of s s' i] by (simp add: same_map_def)

text \<open>
  \<open>wrote s s' i off n f\<close>: the bytes \<open>f 0\<close>, ..., \<open>f (n - 1)\<close> were written at offset \<open>off\<close>.
\<close>

definition wrote :: "'a fs_scheme \<Rightarrow> 'a fs_scheme \<Rightarrow> nat \<Rightarrow> nat \<Rightarrow> nat \<Rightarrow> (nat \<Rightarrow> byte) \<Rightarrow> bool" where
  "wrote s s' i off n f \<longleftrightarrow> same_map s s' i \<and>
     (\<forall>b. (\<forall>bn. live s i bn \<longrightarrow> b \<noteq> file_blk s i bn) \<longrightarrow> blk s' b = blk s b) \<and>
     (\<forall>p. live s i (p div BSIZE) \<longrightarrow>
        file_byte s' i p = (if off \<le> p \<and> p < off + n then f (p - off) else file_byte s i p))"

lemma wrote_none: "wrote s s i off 0 f"
  by (auto simp: wrote_def same_map_def)

lemma wrote_join:
  assumes "wrote s s1 i off k g" "wrote s1 s' i (off + k) (n - k) (\<lambda>j. f (k + j))" "k \<le> n" "\<And>j. j < k \<Longrightarrow> g j = f j"
  shows "wrote s s' i off n f"
proof -
  have m: "same_map s s1 i" "same_map s1 s' i" using assms(1,2) by (auto simp: wrote_def)
  have l: "live s1 i = live s i" by (rule same_map_live [OF m(1)])
  have mm: "same_map s s' i" using m l by (auto simp: same_map_def)
  have fb: "file_blk s1 i bn = file_blk s i bn" if "live s i bn" for bn using m(1) that by (simp add: same_map_def)
  have "blk s' b = blk s b" if "\<forall>bn. live s i bn \<longrightarrow> b \<noteq> file_blk s i bn" for b
  proof -
    have "blk s1 b = blk s b" using assms(1) that by (simp add: wrote_def)
    moreover have "\<forall>bn. live s1 i bn \<longrightarrow> b \<noteq> file_blk s1 i bn" using that fb l by metis
    then have "blk s' b = blk s1 b" using assms(2) by (simp add: wrote_def)
    ultimately show ?thesis by simp
  qed
  moreover have "file_byte s' i p = (if off \<le> p \<and> p < off + n then f (p - off) else file_byte s i p)"
    if "live s i (p div BSIZE)" for p
  proof -
    have 1: "file_byte s1 i p = (if off \<le> p \<and> p < off + k then g (p - off) else file_byte s i p)"
      using assms(1) that by (simp add: wrote_def)
    have 2: "file_byte s' i p = (if off + k \<le> p \<and> p < off + k + (n - k) then f (k + (p - (off + k))) else file_byte s1 i p)"
      using assms(2) that l by (simp add: wrote_def)
    consider "off + k \<le> p" | "off \<le> p" "p < off + k" | "p < off" by linarith
    then show ?thesis
    proof cases
      case 2
      then have "p - off < k" by simp
      then show ?thesis using 1 \<open>file_byte s' i p = _\<close> 2 assms(3) assms(4) [of "p - off"] by simp
    qed (use 1 2 assms(3) in \<open>simp_all\<close>)
  qed
  ultimately show ?thesis using mm by (simp add: wrote_def)
qed

text \<open>One block of the loop.\<close>

lemma wrote_chunk:
  assumes "file_sep s i" "live s i (off div BSIZE)" "k \<le> BSIZE - off mod BSIZE"
  defines "a \<equiv> file_blk s i (off div BSIZE)"
  shows "wrote s (s\<lparr>blk := (blk s)(a := splice (off mod BSIZE) k f (blk s a)), dirty := D\<rparr>) i off k f" (is "wrote s ?s' i off k f")
proof -
  have other: "blk ?s' b = blk s b" if "\<forall>bn. live s i bn \<longrightarrow> b \<noteq> file_blk s i bn" for b
    using that assms(2) by (auto simp: a_def)
  have m: "same_map s ?s' i" by (rule same_map_data [OF assms(1)]) (use other in auto)
  have "file_byte ?s' i p = (if off \<le> p \<and> p < off + k then f (p - off) else file_byte s i p)"
    if l: "live s i (p div BSIZE)" for p
  proof -
    have fb: "file_byte ?s' i p = blk ?s' (file_blk s i (p div BSIZE)) (p mod BSIZE)"
      using m l by (simp add: file_byte_def same_map_def)
    show ?thesis
    proof (cases "p div BSIZE = off div BSIZE")
      case True
      have p: "p = off div BSIZE * BSIZE + p mod BSIZE" using True by (metis div_mult_mod_eq)
      have o: "off = off div BSIZE * BSIZE + off mod BSIZE" by simp
      have "(off \<le> p \<and> p < off + k) = (off mod BSIZE \<le> p mod BSIZE \<and> p mod BSIZE < off mod BSIZE + k)"
        "p - off = p mod BSIZE - off mod BSIZE"
        using p o by linarith+
      then show ?thesis unfolding fb True by (simp add: a_def splice_def file_byte_def True)
    next
      case False
      have "\<not> (off \<le> p \<and> p < off + k)"
      proof
        assume "off \<le> p \<and> p < off + k"
        then have "p - off < BSIZE - off mod BSIZE" "p = off + (p - off)" using assms(3) by auto
        then show False using same_block [of "p - off" off] False by simp
      qed
      moreover have "file_blk s i (p div BSIZE) \<noteq> a" using assms(1,2) l False by (auto simp: file_sep_def a_def)
      ultimately show ?thesis unfolding fb by (auto simp: file_byte_def)
    qed
  qed
  then show ?thesis using m other by (simp add: wrote_def)
qed

lemma writei_loop_contents:
  assumes "file_ok s i" "file_sep s i" "tot \<le> n" "off + (n - tot) \<le> unat (i_size (itab s i))" "unat src + (n - tot) < 2 ^ 64"
  shows "\<exists>s'. writei_loop kernel_in i src off n tot s m = Inr (n, off + (n - tot), s') \<and>
    wrote s s' i off (n - tot) (\<lambda>j. m (unat src + j))"
  using assms
proof (induction "n - tot" arbitrary: tot src off s rule: less_induct)
  case less
  show ?case
  proof (cases "tot < n")
    case False
    then have "tot = n" using less.prems(3) by simp
    then show ?thesis by (simp add: writei_loop.simps [of _ _ _ _ n n] wrote_none)
  next
    case True
    define k where "k = min (n - tot) (BSIZE - off mod BSIZE)"
    define a where "a = file_blk s i (off div BSIZE)"
    let ?bs = "map (\<lambda>j. m (unat src + j)) [0..<k]"
    let ?s1 = "s\<lparr>blk := (blk s)(a := splice (off mod BSIZE) k (\<lambda>j. ?bs ! j) (blk s a)), dirty := insert a (dirty s)\<rparr>"
    have k: "0 < k" "k \<le> n - tot" "k \<le> BSIZE - off mod BSIZE" using chunk_pos [OF True] by (auto simp: k_def)
    have lv: "live s i (off div BSIZE)" using less.prems(4) True by (intro live_byte) linarith
    have mp: "mapped s i (off div BSIZE)" using less.prems(1) lv by (simp add: file_ok_def)
    have fb: "a \<noteq> 0" "a \<notin> lockd s" "a \<notin> touched s" using mp by (auto simp: mapped_def free_blk_def a_def)
    have u: "unat (src + of_nat k) = unat src + k"
    proof -
      have "k < 2 ^ 64" "unat src + k < 2 ^ 64" using less.prems(5) k by auto
      then show ?thesis unfolding unat_word_ariths unat_of_nat by simp
    qed
    have w1: "wrote s ?s1 i off k (\<lambda>j. ?bs ! j)" unfolding a_def by (rule wrote_chunk [OF less.prems(2) lv k(3)])
    then have sm: "same_map s ?s1 i" by (simp add: wrote_def)
    have upd: "blk_relse a (blk_log a (blk_set a d (s\<lparr>lockd := insert a (lockd s)\<rparr>))) =
        Inr (s\<lparr>blk := (blk s)(a := d), dirty := insert a (dirty s)\<rparr>)" for d
      using fb by (simp add: blk_update)
    have e: "writei_loop kernel_in i src off n tot s m =
        writei_loop kernel_in i (src + of_nat k) (off + k) n (tot + k) ?s1 m"
      using True fb k(1) unfolding writei_loop.simps [of _ i src off n tot] bmap_mapped [OF mp]
        a_def [symmetric] k_def [symmetric] by (simp add: kernel_in_def upd)
    have "\<exists>s'. writei_loop kernel_in i (src + of_nat k) (off + k) n (tot + k) ?s1 m =
        Inr (n, off + k + (n - (tot + k)), s') \<and>
        wrote ?s1 s' i (off + k) (n - (tot + k)) (\<lambda>j. m (unat (src + of_nat k) + j))"
    proof (rule less.hyps)
      show "n - (tot + k) < n - tot" "tot + k \<le> n" using k True by linarith+
      show "unat (src + of_nat k) + (n - (tot + k)) < 2 ^ 64" using u less.prems(5) k by linarith
      show "file_ok ?s1 i" by (rule same_map_ok [OF sm less.prems(1)])
      show "file_sep ?s1 i" by (rule same_map_sep [OF sm less.prems(2)])
      show "off + k + (n - (tot + k)) \<le> unat (i_size (itab ?s1 i))" using less.prems(4) k by simp
    qed
    then obtain s' where s': "writei_loop kernel_in i (src + of_nat k) (off + k) n (tot + k) ?s1 m =
        Inr (n, off + k + (n - (tot + k)), s')"
      "wrote ?s1 s' i (off + k) (n - (tot + k)) (\<lambda>j. m (unat (src + of_nat k) + j))" by blast
    have r: "off + k + (n - (tot + k)) = off + (n - tot)" "n - (tot + k) = n - tot - k" using k by linarith+
    have "wrote s s' i off (n - tot) (\<lambda>j. m (unat src + j))"
      by (rule wrote_join [OF w1 s'(2) [unfolded r(2) u add.assoc] k(2)]) simp
    then show ?thesis using s'(1) unfolding e r(1) by blast
  qed
qed

lemma iupdate_ok:
  assumes "IBLOCK (i_inum (itab s i)) (sb s) \<notin> lockd s" "IBLOCK (i_inum (itab s i)) (sb s) \<notin> touched s"
  shows "\<exists>d. iupdate i s = Inr (s\<lparr>blk := (blk s)(IBLOCK (i_inum (itab s i)) (sb s) := d),
    dirty := insert (IBLOCK (i_inum (itab s i)) (sb s)) (dirty s)\<rparr>)"
  using assms by (simp add: iupdate_def Let_def) (rule exI, rule refl)

section \<open>Properties\<close>

text \<open>How many bytes a read of \<open>n\<close> bytes at offset \<open>off\<close> returns from a file of \<open>sz\<close> bytes.\<close>

definition read_count :: "u32 \<Rightarrow> u32 \<Rightarrow> u32 \<Rightarrow> nat" where
  "read_count sz off n =
     (if unat off > unat sz \<or> unat off + unat n \<ge> 2 ^ 32 then 0 else min (unat n) (unat sz - unat off))"

lemma word_add_less: "(off + n < off) = (unat off + unat n \<ge> 2 ^ 32)" for off n :: u32
proof -
  have u: "unat (off + n) = (unat off + unat n) mod 2 ^ 32" by (simp add: unat_word_ariths)
  have "unat off < 2 ^ LENGTH(32)" "unat n < 2 ^ LENGTH(32)" by (rule unsigned_less)+
  then have l: "unat off < 2 ^ 32" "unat n < 2 ^ 32" by simp_all
  show ?thesis
  proof (cases "unat off + unat n \<ge> 2 ^ 32")
    case True
    then have "(unat off + unat n) mod 2 ^ 32 = unat off + unat n - 2 ^ 32"
      using l by (subst le_mod_geq) (simp_all add: mod_less)
    then show ?thesis using True l u unfolding word_less_nat_alt by linarith
  next
    case False
    then have "unat (off + n) = unat off + unat n" using u by simp
    then show ?thesis using False unfolding word_less_nat_alt by linarith
  qed
qed

lemma unat_add_small: "unat off + unat n < 2 ^ 32 \<Longrightarrow> unat (off + n) = unat off + unat n" for off n :: u32
  by (simp add: unat_word_ariths)

lemma readi_count:
  fixes sz off n :: u32
  assumes "\<not> (off > sz \<or> off + n < off)"
  shows "unat (if off + n > sz then sz - off else n) = read_count sz off n"
    "unat off + read_count sz off n \<le> unat sz"
proof -
  have a: "unat off \<le> unat sz" using assms by (simp add: word_less_nat_alt)
  have b: "unat off + unat n < 2 ^ 32" using assms unfolding word_add_less by simp
  have c: "unat (sz - off) = unat sz - unat off" using a by (simp add: unat_sub word_le_nat_alt)
  show "unat (if off + n > sz then sz - off else n) = read_count sz off n"
    using a b c unat_add_small [OF b] by (simp add: read_count_def word_less_nat_alt)
  show "unat off + read_count sz off n \<le> unat sz" using a b by (simp add: read_count_def)
qed

lemma file_ok_mapped:
  assumes "file_ok s i" "off + n \<le> unat (i_size (itab s i))" "j < n"
  shows "mapped s i ((off + j) div BSIZE)"
  using assms live_byte [of "off + j" s i] by (simp add: file_ok_def)

text \<open>A file of 1030 bytes in blocks 46 and 47.\<close>

definition two_block_fs :: fs where
  "two_block_fs = upd_inode 0 (\<lambda>ip. ip\<lparr>i_inum := 20, i_ref := 1, i_valid := True, i_type := T_FILE, i_nlink := 1,
     i_size := 1030, i_addrs := (\<lambda>_. 0)(0 := 46, 1 := 47)\<rparr>) small_fs"

lemma two_block_fs_sel:
  "i_size (itab two_block_fs 0) = 1030" "i_addrs (itab two_block_fs 0) = (\<lambda>_. 0)(0 := 46, 1 := 47)"
  "i_inum (itab two_block_fs 0) = 20" "lockd two_block_fs = {}" "touched two_block_fs = {}" "sb_inodestart (sb two_block_fs) = 32"
  "blk two_block_fs 46 = (\<lambda>_. 7)" "blk two_block_fs 47 = (\<lambda>_. 7)"
  by (simp_all add: two_block_fs_def small_fs_def)

lemma two_block_live: "live two_block_fs 0 bn \<longleftrightarrow> bn = 0 \<or> bn = 1"
  unfolding live_def two_block_fs_sel by (auto simp: BSIZE_def)

lemma two_block_fs_ok: "file_ok two_block_fs 0" "file_sep two_block_fs 0"
proof -
  have "mapped two_block_fs 0 bn" if "live two_block_fs 0 bn" for bn
    using that unfolding two_block_live
    by (elim disjE) (simp_all add: mapped_def file_blk_def map_blks_def free_blk_def two_block_fs_sel layout_simps)
  then show "file_ok two_block_fs 0" by (simp add: file_ok_def two_block_fs_sel layout_simps BSIZE_def)
  have ib: "IBLOCK (i_inum (itab two_block_fs 0)) (sb two_block_fs) = 33"
    by (simp add: IBLOCK_def two_block_fs_sel layout_simps)
  show "file_sep two_block_fs 0"
    unfolding file_sep_def two_block_live ib
    by (auto simp: file_blk_def map_blks_def two_block_fs_sel layout_simps)
qed

text \<open>
  Claim C8. \<open>readi\<close> returns the contents of the file: for a file whose blocks are all allocated it
  copies the bytes from \<open>off\<close> on, as many as were asked for or as there are, through direct,
  indirect and double-indirect blocks alike; it returns their number and changes nothing else. An
  offset past the end, or \<^verbatim>\<open>off + n\<close> that wraps, gives 0.
\<close>

theorem readi_contents:
  assumes "file_ok s i" "unat dst + unat n < 2 ^ 64"
  shows "readi kernel_out i dst off n s m =
    Inr (int (read_count (i_size (itab s i)) off n), s,
         splice (unat dst) (read_count (i_size (itab s i)) off n) (\<lambda>j. file_byte s i (unat off + j)) m)"
proof (cases "off > i_size (itab s i) \<or> off + n < off")
  case True
  then have "read_count (i_size (itab s i)) off n = 0"
    unfolding word_add_less by (auto simp: read_count_def word_less_nat_alt)
  then show ?thesis using True by (simp add: readi_def)
next
  case False
  let ?c = "read_count (i_size (itab s i)) off n"
  note c = readi_count [OF False]
  have le: "?c \<le> unat n" by (simp add: read_count_def)
  have "readi_loop kernel_out i dst (unat off) ?c 0 s m =
      Inr (of_nat ?c, s, splice (unat dst) (?c - 0) (\<lambda>j. file_byte s i (unat off + j)) m)"
  proof (rule readi_loop_contents)
    show "mapped s i ((unat off + j) div BSIZE)" if "j < ?c - 0" for j
      using file_ok_mapped [OF assms(1) c(2)] that by simp
    show "unat dst + (?c - 0) < 2 ^ 64" using assms(2) le by linarith
  qed simp
  moreover have "sint (of_nat ?c :: u32) = int ?c"
  proof (rule sint_small)
    have "unat (i_size (itab s i)) \<le> 67382272" using assms(1) by (simp add: file_ok_def MAXFILE_def layout_simps BSIZE_def)
    then show "?c < 2 ^ 31" using c(2) by simp
  qed
  ultimately show ?thesis unfolding readi_def if_not_P [OF False] Let_def c(1) by simp
qed

theorem readi_contents_witness:
  "\<exists>m'. readi kernel_out 0 100 1020 100 two_block_fs (\<lambda>_. 0) = Inr (10, two_block_fs, m') \<and> m' 109 = 7 \<and> m' 110 = 0"
proof -
  have c: "read_count (i_size (itab two_block_fs 0)) 1020 100 = 10" by (simp add: two_block_fs_sel read_count_def)
  have "file_byte two_block_fs 0 1029 = 7"
    by (simp add: file_byte_def file_blk_def two_block_fs_sel layout_simps BSIZE_def)
  then show ?thesis
    using readi_contents [OF two_block_fs_ok(1), of 100 100 1020 "\<lambda>_. 0"] unfolding c by (simp add: splice_def)
qed



end
