(* ===== verification/User_Lib.thy ===== *)
theory User_Lib
  imports Kernel_Prelude
begin

text \<open>
  The C library of the user programs: number and string functions of \<^verbatim>\<open>user/ulib.c\<close>, and formatted output
  (\<^verbatim>\<open>user/printf.c\<close>) as the string that is written. A string is the list of its characters up to the
  zero; the variable arguments are a list, and one that is missing is an undefined access.
\<close>

section \<open>Strings and numbers\<close>

fun strcmp :: "string \<Rightarrow> string \<Rightarrow> int" where
  "strcmp [] [] = 0"
| "strcmp [] (c # q) = - int (of_char c)"
| "strcmp (c # p) [] = int (of_char c)"
| "strcmp (c # p) (d # q) = (if c = d then strcmp p q else int (of_char c) - int (of_char d))"

fun strchr :: "string \<Rightarrow> char \<Rightarrow> string option" where
  "strchr [] c = None"
| "strchr (x # s) c = (if x = c then Some (x # s) else strchr s c)"

definition is_digit :: "char \<Rightarrow> bool" where
  "is_digit c \<longleftrightarrow> 48 \<le> (of_char c :: nat) \<and> (of_char c :: nat) \<le> 57"

fun atoi_loop :: "int \<Rightarrow> string \<Rightarrow> int" where
  "atoi_loop n [] = n"
| "atoi_loop n (c # s) = (if is_digit c then atoi_loop (n * 10 + int (of_char c) - 48) s else n)"

definition atoi :: "string \<Rightarrow> int" where
  "atoi s = atoi_loop 0 s"

text \<open>\<open>gets\<close> on the input that is left: the line, with its newline, and the rest of the input.\<close>

fun gets_loop :: "nat \<Rightarrow> string \<Rightarrow> string \<times> string" where
  "gets_loop 0 inp = ([], inp)"
| "gets_loop (Suc room) [] = ([], [])"
| "gets_loop (Suc room) (c # inp) =
     (if c = CHR 0x0A \<or> c = CHR 0x0D then ([c], inp)
      else case gets_loop room inp of (line, rest) \<Rightarrow> (c # line, rest))"

definition gets :: "nat \<Rightarrow> string \<Rightarrow> string \<times> string" where
  "gets mx inp = gets_loop (mx - 1) inp"

section \<open>Formatted output\<close>

definition digits :: string where
  "digits = ''0123456789ABCDEF''"

text \<open>The \<^verbatim>\<open>do\<close> loop, least significant digit first; the base is 10 or 16, and the digits are given by a table.\<close>

function print_digits :: "string \<Rightarrow> nat \<Rightarrow> nat \<Rightarrow> string" where
  "print_digits tbl base x =
     (tbl ! (x mod base)) # (if x div base \<noteq> 0 \<and> 2 \<le> base then print_digits tbl base (x div base) else [])"
  by pat_completeness auto
termination
proof (relation "measure (\<lambda>(tbl, base, x). x)", simp)
  fix tbl :: string and base x :: nat
  assume "x div base \<noteq> 0 \<and> 2 \<le> base"
  then have "0 < x" "1 < base" by (auto intro: gr0I)
  then show "((tbl, base, x div base), (tbl, base, x)) \<in> measure (\<lambda>(tbl, base, x). x)" by simp
qed

declare print_digits.simps [simp del]

definition printint :: "u32 \<Rightarrow> nat \<Rightarrow> bool \<Rightarrow> string" where
  "printint xx base sg =
     (let neg = (sg \<and> sint xx < 0);
          x = (if neg then - xx else xx)
      in (if neg then ''-'' else '''') @ rev (print_digits digits base (unat x)))"

definition printptr :: "u64 \<Rightarrow> string" where
  "printptr x = ''0x'' @ map (\<lambda>i. digits ! unat (drop_bit 60 (push_bit (4 * i) x))) [0..<16]"

datatype arg = ArgInt u64 | ArgStr "string option"

text \<open>\<^verbatim>\<open>va_arg(ap, int)\<close> or \<^verbatim>\<open>va_arg(ap, uint64)\<close>, passed as an \<^verbatim>\<open>int\<close>; and \<^verbatim>\<open>va_arg(ap, char*)\<close>.\<close>

definition with_int :: "arg list \<Rightarrow> (u64 \<Rightarrow> arg list \<Rightarrow> string res) \<Rightarrow> string res" where
  "with_int ap f = (case ap of ArgInt v # ap \<Rightarrow> f v ap | _ \<Rightarrow> Inl (Undef ''va_arg''))"

definition with_str :: "arg list \<Rightarrow> (string \<Rightarrow> arg list \<Rightarrow> string res) \<Rightarrow> string res" where
  "with_str ap f = (case ap of
     ArgStr (Some s) # ap \<Rightarrow> f s ap
   | ArgStr None # ap \<Rightarrow> f ''(null)'' ap
   | _ \<Rightarrow> Inl (Undef ''va_arg''))"

lemma with_int_cong [fundef_cong]:
  "ap = ap' \<Longrightarrow> (\<And>v r. ap' = ArgInt v # r \<Longrightarrow> f v r = f' v r) \<Longrightarrow> with_int ap f = with_int ap' f'"
  by (auto simp: with_int_def split: list.splits arg.splits)

lemma with_str_cong [fundef_cong]:
  "ap = ap' \<Longrightarrow> (\<And>v x r. ap' = x # r \<Longrightarrow> f v r = f' v r) \<Longrightarrow> with_str ap f = with_str ap' f'"
  by (auto simp: with_str_def split: list.splits arg.splits option.splits)

text \<open>The base and sign of an integer directive, and how many of the characters after \<^verbatim>\<open>%\<close> it has.\<close>

definition int_directive :: "char \<Rightarrow> string \<Rightarrow> (nat \<times> bool \<times> nat) option" where
  "int_directive c0 rest =
     (let c1 = (case rest of c # _ \<Rightarrow> c | [] \<Rightarrow> CHR 0x00);
          c2 = (case rest of _ # c # _ \<Rightarrow> c | _ \<Rightarrow> CHR 0x00);
          kind = (\<lambda>c. if c = CHR ''d'' then Some (10, True) else if c = CHR ''u'' then Some (10, False)
                      else if c = CHR ''x'' then Some (16, False) else None)
      in case kind c0 of
           Some (b, s) \<Rightarrow> Some (b, s, 0)
         | None \<Rightarrow>
             if c0 = CHR ''l'' then
               (case kind c1 of
                  Some (b, s) \<Rightarrow> Some (b, s, 1)
                | None \<Rightarrow> if c1 = CHR ''l'' then (case kind c2 of Some (b, s) \<Rightarrow> Some (b, s, 2) | None \<Rightarrow> None) else None)
             else None)"

function vprintf :: "string \<Rightarrow> arg list \<Rightarrow> string res" where
  "vprintf fmt ap =
     (case fmt of
        [] \<Rightarrow> Inr []
      | c # fmt \<Rightarrow>
          if c \<noteq> CHR ''%'' then ebind (vprintf fmt ap) (\<lambda>out. Inr (c # out))
          else (case fmt of
            [] \<Rightarrow> Inr []
          | c0 # rest \<Rightarrow>
              (case int_directive c0 rest of
                 Some (base, sg, k) \<Rightarrow>
                   with_int ap (\<lambda>v ap. ebind (vprintf (drop k rest) ap) (\<lambda>out. Inr (printint (ucast v) base sg @ out)))
               | None \<Rightarrow>
                   if c0 = CHR ''p'' then with_int ap (\<lambda>v ap. ebind (vprintf rest ap) (\<lambda>out. Inr (printptr v @ out)))
                   else if c0 = CHR ''s'' then with_str ap (\<lambda>s ap. ebind (vprintf rest ap) (\<lambda>out. Inr (s @ out)))
                   else if c0 = CHR ''%'' then ebind (vprintf rest ap) (\<lambda>out. Inr (CHR ''%'' # out))
                   else ebind (vprintf rest ap) (\<lambda>out. Inr (CHR ''%'' # c0 # out)))))"
  by pat_completeness auto
termination
  by (relation "measure (\<lambda>(fmt, ap). length fmt)") auto

declare vprintf.simps [simp del]

section \<open>Properties\<close>

lemma digit_char: "n < 10 \<Longrightarrow> is_digit (digits ! n) \<and> of_char (digits ! n) = n + 48"
proof -
  assume "n < 10"
  then have "n \<in> {0, 1, 2, 3, 4, 5, 6, 7, 8, 9}" by auto
  then show ?thesis by (auto simp: is_digit_def digits_def)
qed

lemma atoi_loop_append:
  "\<forall>c \<in> set s. is_digit c \<Longrightarrow> atoi_loop n (s @ t) = atoi_loop (atoi_loop n s) t"
  by (induction n s rule: atoi_loop.induct) auto

lemma print_digits_atoi:
  "(\<forall>c \<in> set (print_digits digits 10 x). is_digit c) \<and> atoi_loop 0 (rev (print_digits digits 10 x)) = int x"
proof (induction x rule: less_induct)
  case (less x)
  have d: "is_digit (digits ! (x mod 10))" "of_char (digits ! (x mod 10)) = x mod 10 + 48"
    using digit_char [of "x mod 10"] by auto
  show ?case
  proof (cases "x div 10 = 0")
    case True
    then have e: "print_digits digits 10 x = [digits ! (x mod 10)]" by (subst print_digits.simps) simp
    have "x < 10" using True by (simp add: div_eq_0_iff)
    then show ?thesis unfolding e using d by simp
  next
    case False
    then have e: "print_digits digits 10 x = digits ! (x mod 10) # print_digits digits 10 (x div 10)"
      by (subst print_digits.simps) simp
    have IH: "\<forall>c \<in> set (print_digits digits 10 (x div 10)). is_digit c"
      "atoi_loop 0 (rev (print_digits digits 10 (x div 10))) = int (x div 10)"
      using less.IH [of "x div 10"] False by auto
    have "int (x div 10) * 10 + int (x mod 10) = int x"
      by (metis div_mult_mod_eq of_nat_add of_nat_mult of_nat_numeral)
    then show ?thesis unfolding e using IH d by (simp add: atoi_loop_append)
  qed
qed



end
