(* ===== verification/User_Shell.thy ===== *)
theory User_Shell
  imports Kernel_Prelude
begin

text \<open>
  The command parser of the shell (\<^verbatim>\<open>user/sh.c\<close>). The input is the string from \<^verbatim>\<open>*ps\<close> to \<^verbatim>\<open>es\<close>, where the
  code finds the terminating zero; a token is the text from \<^verbatim>\<open>q\<close> to \<^verbatim>\<open>eq\<close>, which \<open>nulterminate\<close> makes a
  string of its own. The shell's \<open>panic\<close> prints a message and exits.

  The four functions that call each other have fuel. It is enough when it is four times the length
  of the input and four more: every way around the calls takes a character off the input.
\<close>

section \<open>Commands\<close>

datatype cmd =
    Exec "string list"
  | Redir cmd string nat nat
  | Pipe cmd cmd
  | ListC cmd cmd
  | Back cmd

definition MAXARGS :: nat where "MAXARGS = 10"

definition whitespace :: string where
  "whitespace = [CHR '' '', CHR 0x09, CHR 0x0D, CHR 0x0A, CHR 0x0B]"

definition symbols :: string where
  "symbols = ''<|>&;()''"

section \<open>Tokens\<close>

definition skip_ws :: "string \<Rightarrow> string" where
  "skip_ws s = dropWhile (\<lambda>c. c \<in> set whitespace) s"

definition word_char :: "char \<Rightarrow> bool" where
  "word_char c \<longleftrightarrow> c \<notin> set whitespace \<and> c \<notin> set symbols"

text \<open>The token (0 at the end, \<^verbatim>\<open>'a'\<close> for a word, \<^verbatim>\<open>'+'\<close> for \<^verbatim>\<open>>>\<close>), its text, and the input after it.\<close>

definition gettoken :: "string \<Rightarrow> char \<times> string \<times> string" where
  "gettoken s =
     (case skip_ws s of
        [] \<Rightarrow> (CHR 0x00, [], [])
      | c # t \<Rightarrow>
          if c \<in> set ''|();&<'' then (c, [c], skip_ws t)
          else if c = CHR ''>'' then
            (case t of
               d # u \<Rightarrow> if d = CHR ''>'' then (CHR ''+'', [c, d], skip_ws u) else (c, [c], skip_ws t)
             | [] \<Rightarrow> (c, [c], []))
          else (CHR ''a'', takeWhile word_char (c # t), skip_ws (dropWhile word_char (c # t))))"

text \<open>\<open>peek\<close> also moves past white space.\<close>

definition peek :: "string \<Rightarrow> string \<Rightarrow> bool" where
  "peek s toks \<longleftrightarrow> (case skip_ws s of [] \<Rightarrow> False | c # _ \<Rightarrow> c \<in> set toks)"

definition after :: "string \<Rightarrow> string" where
  "after s = snd (snd (gettoken s))"

lemma length_skip_ws: "length (skip_ws s) \<le> length s"
  by (simp add: skip_ws_def length_dropWhile_le)

lemma word_char_start: "c \<notin> set whitespace \<Longrightarrow> c \<notin> set ''|();&<'' \<Longrightarrow> c \<noteq> CHR ''>'' \<Longrightarrow> word_char c"
  by (auto simp: word_char_def symbols_def)

lemma skip_ws_head: "skip_ws s = c # t \<Longrightarrow> c \<notin> set whitespace"
  unfolding skip_ws_def using hd_dropWhile [of "\<lambda>c. c \<in> set whitespace" s] by auto

text \<open>A token takes at least one character.\<close>

lemma after_shorter:
  assumes "skip_ws s \<noteq> []"
  shows "length (after s) < length s"
proof -
  obtain c t where s: "skip_ws s = c # t" using assms by (cases "skip_ws s") auto
  have t: "length t < length s" using length_skip_ws [of s] s by simp
  have w: "length (skip_ws u) < length s" if "length u \<le> length t" for u
    using length_skip_ws [of u] that t by linarith
  have d: "length (dropWhile word_char (c # t)) \<le> length t" if "c \<notin> set ''|();&<''" "c \<noteq> CHR ''>''"
    using word_char_start [OF skip_ws_head [OF s] that] by (simp add: length_dropWhile_le)
  show ?thesis
    unfolding after_def gettoken_def s list.case
    using w d t by (auto split: list.splits if_splits)
qed

lemma length_after: "length (after s) \<le> length s"
proof (cases "skip_ws s = []")
  case True
  then show ?thesis by (simp add: after_def gettoken_def)
next
  case False
  then show ?thesis using after_shorter [of s] by simp
qed

lemma peek_nonempty: "peek s toks \<Longrightarrow> skip_ws s \<noteq> []"
  by (auto simp: peek_def split: list.splits)

lemma redir_shorter: "peek s toks \<Longrightarrow> length (after (after s)) < length s"
  using after_shorter [OF peek_nonempty, of s toks] length_after [of "after s"] by linarith

section \<open>The parser\<close>

definition O_RDONLY :: nat where "O_RDONLY = 0"
definition O_OUT :: nat where "O_OUT = 0x001 + 0x200 + 0x400"
definition O_APPEND :: nat where "O_APPEND = 0x001 + 0x200"

text \<open>\<open>parseredirs\<close> wraps the command in the redirections, the first innermost.\<close>

function parseredirs :: "cmd \<Rightarrow> string \<Rightarrow> (cmd \<times> string) res" where
  "parseredirs c s =
     (if peek s ''<>'' then
        let tok = fst (gettoken s); s1 = after s; (t, q, s2) = gettoken s1 in
        if t \<noteq> CHR ''a'' then Inl (Panic ''missing file for redirection'')
        else if tok = CHR ''<'' then parseredirs (Redir c q O_RDONLY 0) (after s1)
        else if tok = CHR ''>'' then parseredirs (Redir c q O_OUT 1) (after s1)
        else parseredirs (Redir c q O_APPEND 1) (after s1)
      else Inr (c, s))"
  by pat_completeness auto
termination
  by (relation "measure (\<lambda>(c, s). length s)") (auto dest: redir_shorter)

declare parseredirs.simps [simp del]

text \<open>
  \<open>parseexec\<close> stores the arguments in the \<^verbatim>\<open>execcmd\<close> at the bottom of the redirections that it has already
  built: \<open>add_arg\<close> appends one there.
\<close>

fun add_arg :: "string \<Rightarrow> cmd \<Rightarrow> cmd" where
  "add_arg q (Exec argv) = Exec (argv @ [q])"
| "add_arg q (Redir c f mode fd) = Redir (add_arg q c) f mode fd"
| "add_arg q c = c"

lemma parseredirs_length: "parseredirs c s = Inr (c', s') \<Longrightarrow> length s' \<le> length s"
proof (induction "length s" arbitrary: c s rule: less_induct)
  case less
  show ?case
  proof (cases "peek s ''<>''")
    case True
    have "\<exists>d. parseredirs d (after (after s)) = Inr (c', s')"
      using less.prems True unfolding parseredirs.simps [of c s] by (auto simp: Let_def split: prod.splits if_splits)
    then obtain d where "parseredirs d (after (after s)) = Inr (c', s')" ..
    then show ?thesis using less.hyps [OF redir_shorter [OF True]] redir_shorter [OF True] by force
  qed (use less.prems in \<open>simp add: parseredirs.simps [of c s]\<close>)
qed

function parseargs :: "nat \<Rightarrow> cmd \<Rightarrow> string \<Rightarrow> (cmd \<times> string) res" where
  "parseargs argc c s =
     (if peek s ''|)&;'' then Inr (c, s)
      else if skip_ws s = [] then Inr (c, after s)
      else if fst (gettoken s) \<noteq> CHR ''a'' then Inl (Panic ''syntax'')
      else if argc + 1 \<ge> MAXARGS then Inl (Panic ''too many args'')
      else ebind (parseredirs (add_arg (fst (snd (gettoken s))) c) (after s)) (\<lambda>(c, s). parseargs (argc + 1) c s))"
  by pat_completeness auto
termination
proof (relation "measure (\<lambda>(argc, c, s). length s)", simp)
  fix argc c s x c' s'
  assume a: "skip_ws s \<noteq> []" and b: "parseredirs (add_arg (fst (snd (gettoken s))) c) (after s) = Inr x" "(c', s') = x"
  show "((argc + 1, c', s'), (argc, c, s)) \<in> measure (\<lambda>(argc, c, s). length s)"
    using after_shorter [OF a] parseredirs_length [OF b(1) [folded b(2)]] by simp
qed

declare parseargs.simps [simp del]

text \<open>The \<^verbatim>\<open>while\<close> loop of \<open>parseline\<close>.\<close>

function backs :: "cmd \<Rightarrow> string \<Rightarrow> cmd \<times> string" where
  "backs c s = (if peek s ''&'' then backs (Back c) (after s) else (c, s))"
  by pat_completeness auto
termination
  by (relation "measure (\<lambda>(c, s). length s)") (auto intro!: after_shorter dest: peek_nonempty)

declare backs.simps [simp del]

fun parseline :: "nat \<Rightarrow> string \<Rightarrow> (cmd \<times> string) res"
  and parsepipe :: "nat \<Rightarrow> string \<Rightarrow> (cmd \<times> string) res"
  and parseblock :: "nat \<Rightarrow> string \<Rightarrow> (cmd \<times> string) res"
  and parseexec :: "nat \<Rightarrow> string \<Rightarrow> (cmd \<times> string) res" where
  "parseline 0 s = Inl NoFuel"
| "parseline (Suc n) s =
     ebind (parsepipe n s) (\<lambda>(c, s).
     case backs c s of (c, s) \<Rightarrow>
       if peek s '';'' then ebind (parseline n (after s)) (\<lambda>(d, s). Inr (ListC c d, s))
       else Inr (c, s))"
| "parsepipe 0 s = Inl NoFuel"
| "parsepipe (Suc n) s =
     ebind (parseexec n s) (\<lambda>(c, s).
     if peek s ''|'' then ebind (parsepipe n (after s)) (\<lambda>(d, s). Inr (Pipe c d, s))
     else Inr (c, s))"
| "parseblock 0 s = Inl NoFuel"
| "parseblock (Suc n) s =
     (if \<not> peek s ''('' then Inl (Panic ''parseblock'')
      else
        ebind (parseline n (after s)) (\<lambda>(c, s).
        if \<not> peek s '')'' then Inl (Panic ''syntax - missing )'')
        else parseredirs c (after s)))"
| "parseexec 0 s = Inl NoFuel"
| "parseexec (Suc n) s =
     (if peek s ''('' then parseblock n s
      else ebind (parseredirs (Exec []) s) (\<lambda>(c, s). parseargs 0 c s))"

definition parsecmd :: "string \<Rightarrow> cmd res" where
  "parsecmd s =
     ebind (parseline (4 * length s + 4) s) (\<lambda>(c, s).
     if skip_ws s \<noteq> [] then Inl (Panic ''syntax'') else Inr c)"

section \<open>The fuel is enough\<close>

lemma parseargs_length: "parseargs argc c s = Inr (c', s') \<Longrightarrow> length s' \<le> length s"
proof (induction "length s" arbitrary: argc c s rule: less_induct)
  case less
  show ?case
  proof (cases "peek s ''|)&;'' \<or> skip_ws s = []")
    case True
    then show ?thesis using less.prems length_after [of s] unfolding parseargs.simps [of argc c s] by (auto split: if_splits)
  next
    case False
    have "\<exists>b d s1. parseredirs b (after s) = Inr (d, s1) \<and> parseargs (argc + 1) d s1 = Inr (c', s')"
      using less.prems False unfolding parseargs.simps [of argc c s] by (auto simp: ebind_eq_Inr split: if_splits)
    then obtain b d s1 where r: "parseredirs b (after s) = Inr (d, s1)" "parseargs (argc + 1) d s1 = Inr (c', s')" by blast
    have "length s1 < length s" using parseredirs_length [OF r(1)] after_shorter [of s] False by simp
    then show ?thesis using less.hyps [OF _ r(2)] by simp
  qed
qed

lemma backs_length: "backs c s = (c', s') \<Longrightarrow> length s' \<le> length s"
proof (induction "length s" arbitrary: c s rule: less_induct)
  case less
  show ?case
  proof (cases "peek s ''&''")
    case True
    then have "backs (Back c) (after s) = (c', s')" using less.prems by (simp add: backs.simps [of c s])
    then show ?thesis using less.hyps [OF after_shorter [OF peek_nonempty [OF True]]] length_after [of s] by force
  qed (use less.prems in \<open>simp add: backs.simps [of c s]\<close>)
qed

definition shrinks :: "(string \<Rightarrow> (cmd \<times> string) res) \<Rightarrow> bool" where
  "shrinks f \<longleftrightarrow> (\<forall>s c r. f s = Inr (c, r) \<longrightarrow> length r \<le> length s)"

lemma shrinks_line:
  assumes "shrinks (parsepipe n)" "shrinks (parseline n)"
  shows "shrinks (parseline (Suc n))"
  unfolding shrinks_def
proof (intro allI impI)
  fix s c r assume r: "parseline (Suc n) s = Inr (c, r)"
  then obtain c1 s1 where 1: "parsepipe n s = Inr (c1, s1)" by (auto simp: ebind_eq_Inr)
  obtain c2 s2 where 2: "backs c1 s1 = (c2, s2)" by fastforce
  have l: "length s2 \<le> length s" using assms(1) 1 backs_length [OF 2] unfolding shrinks_def by (meson order_trans)
  show "length r \<le> length s"
  proof (cases "peek s2 '';''")
    case True
    then obtain d where "parseline n (after s2) = Inr (d, r)" using r 1 2 by (auto simp: ebind_eq_Inr)
    then have "length r \<le> length (after s2)" using assms(2) by (auto simp: shrinks_def)
    then show ?thesis using l length_after [of s2] by linarith
  qed (use r 1 2 l in simp)
qed

lemma shrinks_pipe:
  assumes "shrinks (parseexec n)" "shrinks (parsepipe n)"
  shows "shrinks (parsepipe (Suc n))"
  unfolding shrinks_def
proof (intro allI impI)
  fix s c r assume r: "parsepipe (Suc n) s = Inr (c, r)"
  then obtain c1 s1 where 1: "parseexec n s = Inr (c1, s1)" by (auto simp: ebind_eq_Inr)
  have l: "length s1 \<le> length s" using assms(1) 1 by (auto simp: shrinks_def)
  show "length r \<le> length s"
  proof (cases "peek s1 ''|''")
    case True
    then obtain d where "parsepipe n (after s1) = Inr (d, r)" using r 1 by (auto simp: ebind_eq_Inr)
    then have "length r \<le> length (after s1)" using assms(2) by (auto simp: shrinks_def)
    then show ?thesis using l length_after [of s1] by linarith
  qed (use r 1 l in simp)
qed

lemma shrinks_block:
  assumes "shrinks (parseline n)"
  shows "shrinks (parseblock (Suc n))"
  unfolding shrinks_def
proof (intro allI impI)
  fix s c r assume r: "parseblock (Suc n) s = Inr (c, r)"
  then obtain c1 s1 where 1: "parseline n (after s) = Inr (c1, s1)" "parseredirs c1 (after s1) = Inr (c, r)"
    by (auto simp: ebind_eq_Inr split: if_splits)
  have "length s1 \<le> length (after s)" using assms 1(1) by (auto simp: shrinks_def)
  then show "length r \<le> length s"
    using parseredirs_length [OF 1(2)] length_after [of s] length_after [of s1] by linarith
qed

lemma shrinks_exec:
  assumes "shrinks (parseblock n)"
  shows "shrinks (parseexec (Suc n))"
  unfolding shrinks_def
proof (intro allI impI)
  fix s c r assume r: "parseexec (Suc n) s = Inr (c, r)"
  show "length r \<le> length s"
  proof (cases "peek s ''(''")
    case True
    then show ?thesis using r assms by (auto simp: shrinks_def)
  next
    case False
    then obtain c1 s1 where "parseredirs (Exec []) s = Inr (c1, s1)" "parseargs 0 c1 s1 = Inr (c, r)"
      using r by (auto simp: ebind_eq_Inr)
    then show ?thesis using parseredirs_length parseargs_length by (meson order_trans)
  qed
qed

lemma parse_shrinks:
  "shrinks (parseline n) \<and> shrinks (parsepipe n) \<and> shrinks (parseblock n) \<and> shrinks (parseexec n)"
proof (induction n)
  case 0
  then show ?case by (simp add: shrinks_def)
next
  case (Suc n)
  then show ?case using shrinks_line shrinks_pipe shrinks_block shrinks_exec by blast
qed

text \<open>The only failures are the shell's own.\<close>

definition panics :: "'b res \<Rightarrow> bool" where
  "panics r \<longleftrightarrow> (\<forall>e. r = Inl e \<longrightarrow> (\<exists>msg. e = Panic msg))"

lemma panics_simps [simp]: "panics (Inr x)" "panics (Inl (Panic msg))"
  by (simp_all add: panics_def)

lemma panics_ebind: "panics m \<Longrightarrow> (\<And>x. m = Inr x \<Longrightarrow> panics (f x)) \<Longrightarrow> panics (ebind m f)"
  by (cases m) (auto simp: panics_def)

lemma parseredirs_panics: "panics (parseredirs c s)"
proof (induction "length s" arbitrary: c s rule: less_induct)
  case less
  then show ?case
    unfolding parseredirs.simps [of c s] using redir_shorter [of s "''<>''"] by (auto simp: Let_def split: prod.splits)
qed

lemma parseargs_panics: "panics (parseargs argc c s)"
proof (induction "length s" arbitrary: argc c s rule: less_induct)
  case less
  have "panics (parseargs (argc + 1) d s1)" if "skip_ws s \<noteq> []" "parseredirs b (after s) = Inr (d, s1)" for b d s1
    using parseredirs_length [OF that(2)] after_shorter [OF that(1)] by (intro less) simp
  then show ?case
    unfolding parseargs.simps [of argc c s] by (auto intro!: panics_ebind parseredirs_panics split: prod.splits)
qed

text \<open>\<open>enough k n f\<close>: \<open>f\<close> returns or panics when \<open>n\<close> is four times the input and \<open>k\<close> more.\<close>

definition enough :: "nat \<Rightarrow> nat \<Rightarrow> (string \<Rightarrow> (cmd \<times> string) res) \<Rightarrow> bool" where
  "enough k n f \<longleftrightarrow> (\<forall>s. 4 * length s + k \<le> n \<longrightarrow> panics (f s))"

lemma enough_line:
  assumes "enough 3 n (parsepipe n)" "enough 4 n (parseline n)"
  shows "enough 4 (Suc n) (parseline (Suc n))"
proof -
  have "panics (parseline n (after s2))"
    if n: "4 * length s + 4 \<le> Suc n" and 1: "parsepipe n s = Inr (c1, s1)" "backs c1 s1 = (c2, s2)" "peek s2 '';''" for s c1 s1 c2 s2
  proof -
    have "length s1 \<le> length s" using 1(1) parse_shrinks [of n] unfolding shrinks_def by blast
    then have "length (after s2) < length s"
      using backs_length [OF 1(2)] after_shorter [OF peek_nonempty [OF 1(3)]] by linarith
    then show ?thesis using assms(2) n by (simp add: enough_def)
  qed
  moreover have "panics (parsepipe n s)" if "4 * length s + 4 \<le> Suc n" for s using assms(1) that by (simp add: enough_def)
  ultimately show ?thesis
    unfolding enough_def parseline.simps by (auto intro!: panics_ebind split: prod.splits)
qed

lemma enough_pipe:
  assumes "enough 2 n (parseexec n)" "enough 3 n (parsepipe n)"
  shows "enough 3 (Suc n) (parsepipe (Suc n))"
proof -
  have "panics (parsepipe n (after s1))"
    if n: "4 * length s + 3 \<le> Suc n" and 1: "parseexec n s = Inr (c1, s1)" "peek s1 ''|''" for s c1 s1
  proof -
    have "length s1 \<le> length s" using 1(1) parse_shrinks [of n] unfolding shrinks_def by blast
    then have "length (after s1) < length s" using after_shorter [OF peek_nonempty [OF 1(2)]] by linarith
    then show ?thesis using assms(2) n by (simp add: enough_def)
  qed
  moreover have "panics (parseexec n s)" if "4 * length s + 3 \<le> Suc n" for s using assms(1) that by (simp add: enough_def)
  ultimately show ?thesis
    unfolding enough_def parsepipe.simps by (auto intro!: panics_ebind)
qed

lemma enough_block:
  assumes "enough 4 n (parseline n)"
  shows "enough 1 (Suc n) (parseblock (Suc n))"
proof -
  have "panics (parseline n (after s))" if "4 * length s + 1 \<le> Suc n" "peek s ''(''" for s
    using assms that after_shorter [OF peek_nonempty [OF that(2)]] by (simp add: enough_def)
  then show ?thesis unfolding enough_def parseblock.simps by (auto intro!: panics_ebind parseredirs_panics)
qed

lemma enough_exec:
  assumes "enough 1 n (parseblock n)"
  shows "enough 2 (Suc n) (parseexec (Suc n))"
  using assms unfolding enough_def parseexec.simps
  by (auto intro!: panics_ebind parseredirs_panics parseargs_panics)

lemma parse_enough:
  "enough 4 n (parseline n) \<and> enough 3 n (parsepipe n) \<and> enough 1 n (parseblock n) \<and> enough 2 n (parseexec n)"
proof (induction n)
  case 0
  then show ?case by (simp add: enough_def)
next
  case (Suc n)
  then show ?case using enough_line enough_pipe enough_block enough_exec by blast
qed

section \<open>Properties\<close>

text \<open>
  Claim C34. The parser terminates on every input: it returns a command or stops with one of the
  shell's syntax errors.
\<close>

theorem parsecmd_returns: "(\<exists>c. parsecmd s = Inr c) \<or> (\<exists>msg. parsecmd s = Inl (Panic msg))"
proof -
  have "panics (parseline (4 * length s + 4) s)" using parse_enough [of "4 * length s + 4"] by (simp add: enough_def)
  then have "panics (parsecmd s)" unfolding parsecmd_def by (auto intro!: panics_ebind)
  then show ?thesis by (cases "parsecmd s") (auto simp: panics_def)
qed

end
