(* ===== verification/Page_Table.thy ===== *)
theory Page_Table
  imports Vm_Paging
begin

text \<open>
  The page table as a map. A three-level table is a tree of pages of the kernel heap that no other
  table and no free page shares; its abstraction is the map from page numbers to the valid leaf
  entries. The operations of \<^verbatim>\<open>kernel/vm.c\<close> that build, change and free a table are proved
  against that map.
\<close>

section \<open>Indices and slots\<close>

definition pte_at :: "mem \<Rightarrow> u64 \<Rightarrow> nat \<Rightarrow> u64" where
  "pte_at m pt i = get64 m (unat pt + 8 * i)"

definition idx :: "nat \<Rightarrow> u64 \<Rightarrow> nat" where "idx l va = unat (PX l va)"

lemma idx_less: "idx l va < 512"
proof -
  have m: "(0x1FF :: u64) = mask 9" by (simp add: mask_eq_exp_minus_1)
  have "PX l va = take_bit 9 (drop_bit (12 + 9 * l) va)" unfolding PX_def m take_bit_eq_mask ..
  then have "idx l va = take_bit 9 (unat (drop_bit (12 + 9 * l) va))" unfolding idx_def by (simp add: unsigned_take_bit_eq)
  then show ?thesis using take_bit_nat_less_exp [of 9 "unat (drop_bit (12 + 9 * l) va)"] by simp
qed

lemma unat_slot:
  assumes "page_ok kend pt" "i < 512"
  shows "unat (pt + 8 * of_nat i) = unat pt + 8 * i"
proof -
  have i: "unat (8 * of_nat i :: u64) = 8 * i" using assms(2) by (simp add: unat_word_ariths unat_of_nat)
  have "unat pt + 8 * i < 2 ^ 64" using assms by (auto simp: page_ok_def PHYSTOP_def KERNBASE_def)
  then show ?thesis using i by (simp add: unat_word_ariths(1) [of pt])
qed

lemma slot_idx:
  assumes "page_ok kend pt"
  shows "unat (pt + 8 * PX l va) = unat pt + 8 * idx l va"
  using unat_slot [OF assms idx_less [of l va]] by (simp add: idx_def)

lemma load_slot: "page_ok kend pt \<Longrightarrow> load_pte (pt + 8 * PX l va) s = pte_at (kmemory s) pt (idx l va)"
  by (simp add: load_pte_def pte_at_def slot_idx)

lemma slot_in_page: "i < 512 \<Longrightarrow> unat pt + 8 * i \<le> a \<Longrightarrow> a < unat pt + 8 * i + 8 \<Longrightarrow> in_page pt a"
  by (auto simp: in_page_def PGSIZE_def)

lemma pte_at_cong: "(\<And>a. in_page pt a \<Longrightarrow> m a = m' a) \<Longrightarrow> i < 512 \<Longrightarrow> pte_at m pt i = pte_at m' pt i"
  unfolding pte_at_def by (rule getle_cong) (auto intro: slot_in_page)

lemma pte_at_put: "pte_at (put64 (unat pt + 8 * i) v m) pt j = (if i = j then v else pte_at m pt j)"
proof (cases "i = j")
  case False
  then have "unat pt + 8 * i + 8 \<le> unat pt + 8 * j \<or> unat pt + 8 * j + 8 \<le> unat pt + 8 * i" by arith
  with False show ?thesis by (simp add: pte_at_def getle_putle_other)
qed (simp add: pte_at_def)

lemma put_slot_other: "i < 512 \<Longrightarrow> \<not> in_page pt a \<Longrightarrow> put64 (unat pt + 8 * i) v m a = m a"
  by (rule put64_other) (auto intro: slot_in_page)

lemma pages_differ: "page_ok kend p \<Longrightarrow> page_ok kend q \<Longrightarrow> p \<noteq> q \<Longrightarrow> in_page p a \<Longrightarrow> \<not> in_page q a"
  using pages_apart [of p q a] by (auto simp: page_ok_def)

section \<open>Encoding of an entry\<close>

lemma bit_take_zero: "take_bit m w = 0 \<Longrightarrow> n < m \<Longrightarrow> \<not> bit (w :: 'w::len word) n"
  by (metis bit_0_eq bit_take_bit_iff bot_apply bot_bool_def)

lemma bit_drop_zero: "drop_bit m w = 0 \<Longrightarrow> m \<le> n \<Longrightarrow> \<not> bit (w :: 'w::len word) n"
  by (metis bit_0_eq bit_drop_bit_eq bot_apply bot_bool_def comp_apply le_add_diff_inverse)

text \<open>
  A page-table entry keeps what was put into it: for a page-aligned physical address of at most 56
  bits and flags of at most 10 bits, the address and the flags read back are the ones written.
\<close>

lemma pte_roundtrip:
  assumes "take_bit 12 pa = 0" "drop_bit 56 pa = 0" "drop_bit 10 fl = 0"
  shows "PTE2PA (PA2PTE pa OR fl) = pa" "PTE_FLAGS (PA2PTE pa OR fl) = fl"
proof -
  show "PTE2PA (PA2PTE pa OR fl) = pa"
  proof (rule bit_word_eqI)
    fix n assume n: "n < LENGTH(64)"
    show "bit (PTE2PA (PA2PTE pa OR fl)) n = bit pa n"
      using n bit_take_zero [OF assms(1), of n] bit_drop_zero [OF assms(2), of n] bit_drop_zero [OF assms(3), of "n - 2"]
      by (cases "n < 12"; cases "56 \<le> n") (auto simp: PTE2PA_def PA2PTE_def bit_simps not_less)
  qed
  show "PTE_FLAGS (PA2PTE pa OR fl) = fl"
  proof (rule bit_word_eqI)
    fix n assume n: "n < LENGTH(64)"
    have m: "(0x3FF :: u64) = mask 10" by (simp add: mask_eq_exp_minus_1)
    show "bit (PTE_FLAGS (PA2PTE pa OR fl)) n = bit fl n"
      using n bit_drop_zero [OF assms(3), of n]
      unfolding PTE_FLAGS_def m by (cases "n < 10") (auto simp: PA2PTE_def bit_simps not_less)
  qed
qed

lemma page_bits:
  assumes "page_ok kend pa"
  shows "take_bit 12 pa = 0" "drop_bit 56 pa = 0"
proof -
  have a: "unat pa mod 4096 = 0" "unat pa < 2 ^ 56" using assms by (auto simp: page_ok_def PGSIZE_def PHYSTOP_def KERNBASE_def)
  have "unat (take_bit 12 pa) = 0" unfolding unsigned_take_bit_eq using a(1) by (simp add: take_bit_eq_mod)
  then show "take_bit 12 pa = 0" by (simp add: unat_eq_zero)
  have "unat (drop_bit 56 pa) = 0" using a(2) unfolding unsigned_drop_bit_eq by (simp add: drop_bit_eq_div take_bit_eq_mod)
  then show "drop_bit 56 pa = 0" by (simp add: unat_eq_zero)
qed

definition interior :: "u64 \<Rightarrow> bool" where
  "interior e \<longleftrightarrow> e AND (PTE_R OR PTE_W OR PTE_X) = 0"

lemma pte_has_V: "pte_has (e OR PTE_V) PTE_V"
proof -
  have "bit ((e OR PTE_V) AND PTE_V) 0" by (simp add: PTE_V_def bit_simps)
  then show ?thesis unfolding pte_has_def by (metis bit_0_eq bot_apply bot_bool_def)
qed

lemma pte_has_zero: "\<not> pte_has 0 f"
  by (simp add: pte_has_def)

text \<open>The entry that \<open>walk\<close> writes for a new table.\<close>

lemma table_entry:
  assumes "page_ok kend pt"
  shows "PTE2PA (PA2PTE pt OR PTE_V) = pt" "pte_has (PA2PTE pt OR PTE_V) PTE_V" "interior (PA2PTE pt OR PTE_V)"
proof -
  show "PTE2PA (PA2PTE pt OR PTE_V) = pt"
    by (rule pte_roundtrip [OF page_bits [OF assms]]) (simp add: PTE_V_def drop_bit_eq_div)
  show "pte_has (PA2PTE pt OR PTE_V) PTE_V" by (rule pte_has_V)
  have "(PTE_R OR PTE_W OR PTE_X :: u64) = 14" by (simp add: PTE_R_def PTE_W_def PTE_X_def)
  moreover have "(PA2PTE pt OR PTE_V) AND 14 = 0"
  proof (rule bit_word_eqI)
    fix n assume n: "n < LENGTH(64)"
    have "bit (14 :: u64) n \<longleftrightarrow> n = 1 \<or> n = 2 \<or> n = 3"
    proof (cases "n < 4")
      case True
      then have "n = 0 \<or> n = 1 \<or> n = 2 \<or> n = 3" by arith
      then show ?thesis by (auto simp: bit_iff_odd)
    next
      case False
      have "drop_bit 4 (14 :: u64) = 0" by (simp add: drop_bit_eq_div)
      then show ?thesis using bit_drop_zero [of 4 "14 :: u64" n] False by auto
    qed
    then show "bit ((PA2PTE pt OR PTE_V) AND 14) n = bit 0 n"
      by (auto simp: PA2PTE_def PTE_V_def bit_simps)
  qed
  ultimately show "interior (PA2PTE pt OR PTE_V)" by (simp add: interior_def)
qed

section \<open>The tree and its entries\<close>

text \<open>\<open>entry l pt va m\<close>: the leaf entry of \<open>va\<close>, 0 where a table on the way is missing.\<close>

fun entry :: "nat \<Rightarrow> u64 \<Rightarrow> u64 \<Rightarrow> mem \<Rightarrow> u64" where
  "entry 0 pt va m = pte_at m pt (idx 0 va)"
| "entry (Suc l) pt va m =
     (let e = pte_at m pt (idx (Suc l) va) in
      if pte_has e PTE_V then entry l (PTE2PA e) va m else 0)"

text \<open>\<open>tree kend l pt S m\<close>: the table of level \<open>l\<close> at \<open>pt\<close> is a tree over the set of pages \<open>S\<close>.\<close>

fun tree :: "nat \<Rightarrow> nat \<Rightarrow> u64 \<Rightarrow> u64 set \<Rightarrow> mem \<Rightarrow> bool" where
  "tree kend 0 pt S m \<longleftrightarrow> page_ok kend pt \<and> S = {pt}"
| "tree kend (Suc l) pt S m \<longleftrightarrow> page_ok kend pt \<and>
     (\<exists>C. S = insert pt (\<Union>i<512. C i) \<and> (\<forall>i<512. pt \<notin> C i) \<and>
        (\<forall>i<512. \<forall>j<512. i \<noteq> j \<longrightarrow> C i \<inter> C j = {}) \<and>
        (\<forall>i<512. if pte_has (pte_at m pt i) PTE_V
           then interior (pte_at m pt i) \<and> tree kend l (PTE2PA (pte_at m pt i)) (C i) m
           else C i = {}))"

lemma tree_pages: "tree kend l pt S m \<Longrightarrow> p \<in> S \<Longrightarrow> page_ok kend p"
proof (induction l arbitrary: pt S)
  case (Suc l)
  then obtain C where C: "page_ok kend pt" "S = insert pt (\<Union>i<512. C i)"
    "\<forall>i<512. if pte_has (pte_at m pt i) PTE_V
       then interior (pte_at m pt i) \<and> tree kend l (PTE2PA (pte_at m pt i)) (C i) m else C i = {}" by auto
  consider "p = pt" | i where "i < 512" "p \<in> C i" using Suc.prems(2) C(2) by blast
  then show ?case using C(1,3) Suc.IH by cases (auto split: if_splits)
qed simp

lemma tree_root: "tree kend l pt S m \<Longrightarrow> pt \<in> S \<and> page_ok kend pt"
  by (cases l) auto

lemma tree_finite: "tree kend l pt S m \<Longrightarrow> finite S"
proof (induction l arbitrary: pt S)
  case (Suc l)
  then obtain C where C: "S = insert pt (\<Union>i<512. C i)"
    "\<forall>i<512. if pte_has (pte_at m pt i) PTE_V
       then interior (pte_at m pt i) \<and> tree kend l (PTE2PA (pte_at m pt i)) (C i) m else C i = {}" by auto
  have "finite (C i)" if "i < 512" for i using that C(2) Suc.IH by (cases "pte_has (pte_at m pt i) PTE_V") auto
  then show ?case unfolding C(1) by auto
qed simp

lemma tree_cong:
  assumes "tree kend l pt S m" "\<And>p a. p \<in> S \<Longrightarrow> in_page p a \<Longrightarrow> m a = m' a"
  shows "tree kend l pt S m' \<and> (\<forall>va. entry l pt va m' = entry l pt va m)"
  using assms
proof (induction l arbitrary: pt S)
  case 0
  then show ?case using pte_at_cong [of pt m m'] idx_less by auto
next
  case (Suc l)
  obtain C where C: "page_ok kend pt" "S = insert pt (\<Union>i<512. C i)" "\<forall>i<512. pt \<notin> C i"
    "\<forall>i<512. \<forall>j<512. i \<noteq> j \<longrightarrow> C i \<inter> C j = {}"
    "\<And>i. i < 512 \<Longrightarrow> if pte_has (pte_at m pt i) PTE_V
       then interior (pte_at m pt i) \<and> tree kend l (PTE2PA (pte_at m pt i)) (C i) m else C i = {}"
    using Suc.prems(1) by auto
  have e: "pte_at m' pt i = pte_at m pt i" if "i < 512" for i
    using pte_at_cong [of pt m m' i] Suc.prems(2) [of pt] that C(2) by auto
  have sub: "tree kend l (PTE2PA (pte_at m pt i)) (C i) m' \<and>
      (\<forall>va. entry l (PTE2PA (pte_at m pt i)) va m' = entry l (PTE2PA (pte_at m pt i)) va m)"
    if i: "i < 512" "pte_has (pte_at m pt i) PTE_V" for i
  proof (rule Suc.IH)
    show "tree kend l (PTE2PA (pte_at m pt i)) (C i) m" using C(5) [OF i(1)] i(2) by simp
    show "m a = m' a" if "p \<in> C i" "in_page p a" for p a
      using Suc.prems(2) [of p a] that C(2) i(1) by blast
  qed
  have "tree kend (Suc l) pt S m'"
    unfolding tree.simps using C(1-4) C(5) e sub by (intro conjI exI [of _ C]) auto
  moreover have "entry (Suc l) pt va m' = entry (Suc l) pt va m" for va
    using sub [OF idx_less] e [OF idx_less] by (simp add: Let_def)
  ultimately show ?case by blast
qed

text \<open>Replacing the subtree below entry \<open>i\<close>.\<close>

lemma tree_graft:
  assumes t: "tree kend (Suc l) pt S m" and i: "i < 512" and v: "pte_has (pte_at m pt i) PTE_V"
  obtains D where "tree kend l (PTE2PA (pte_at m pt i)) D m" "D \<subseteq> S" "pt \<notin> D"
    "\<And>T m'. tree kend l (PTE2PA (pte_at m pt i)) T m' \<Longrightarrow> T \<inter> (S - D) = {} \<Longrightarrow>
       (\<And>p a. p \<in> S - D \<Longrightarrow> in_page p a \<Longrightarrow> m' a = m a) \<Longrightarrow>
       tree kend (Suc l) pt (S - D \<union> T) m' \<and>
       (\<forall>va. entry (Suc l) pt va m' = (if idx (Suc l) va = i then entry l (PTE2PA (pte_at m pt i)) va m'
              else entry (Suc l) pt va m))"
proof -
  obtain C where C: "page_ok kend pt" "S = insert pt (\<Union>i<512. C i)" "\<forall>i<512. pt \<notin> C i"
    "\<forall>i<512. \<forall>j<512. i \<noteq> j \<longrightarrow> C i \<inter> C j = {}"
    "\<And>i. i < 512 \<Longrightarrow> if pte_has (pte_at m pt i) PTE_V
       then interior (pte_at m pt i) \<and> tree kend l (PTE2PA (pte_at m pt i)) (C i) m else C i = {}"
    using t by auto
  have keep: "C j \<subseteq> S - C i" if "j < 512" "j \<noteq> i" for j using C(2,4) that i by blast
  have rest: "S - C i = insert pt (\<Union>j \<in> {..<512} - {i}. C j)" using C(2,3,4) i by blast
  show thesis
  proof (rule that [of "C i"])
    show "tree kend l (PTE2PA (pte_at m pt i)) (C i) m" using C(5) [OF i] v by simp
    show "C i \<subseteq> S" "pt \<notin> C i" using C(2,3) i by auto
    fix T m'
    assume T: "tree kend l (PTE2PA (pte_at m pt i)) T m'" "T \<inter> (S - C i) = {}"
      and fr: "\<And>p a. p \<in> S - C i \<Longrightarrow> in_page p a \<Longrightarrow> m' a = m a"
    have e: "pte_at m' pt j = pte_at m pt j" if "j < 512" for j
      using pte_at_cong [of pt m' m j] fr [of pt] that C(2,3) i by auto
    have sub: "tree kend l (PTE2PA (pte_at m pt j)) (C j) m' \<and>
        (\<forall>va. entry l (PTE2PA (pte_at m pt j)) va m' = entry l (PTE2PA (pte_at m pt j)) va m)"
      if j: "j < 512" "j \<noteq> i" "pte_has (pte_at m pt j) PTE_V" for j
    proof (rule tree_cong)
      show "tree kend l (PTE2PA (pte_at m pt j)) (C j) m" using C(5) [OF j(1)] j(3) by simp
      show "m a = m' a" if "p \<in> C j" "in_page p a" for p a
        using fr [of p a] that keep [OF j(1,2)] by auto
    qed
    have "tree kend (Suc l) pt (S - C i \<union> T) m'"
      unfolding tree.simps
    proof (intro conjI exI [of _ "C(i := T)"] C(1))
      show "S - C i \<union> T = insert pt (\<Union>j<512. (C(i := T)) j)" unfolding rest using i by auto
      show "\<forall>j<512. pt \<notin> (C(i := T)) j" using C(3) T(2) rest by auto
      show "\<forall>j<512. \<forall>k<512. j \<noteq> k \<longrightarrow> (C(i := T)) j \<inter> (C(i := T)) k = {}"
        using C(4) T(2) keep by (auto simp: fun_upd_def) blast+
      show "\<forall>j<512. if pte_has (pte_at m' pt j) PTE_V
           then interior (pte_at m' pt j) \<and> tree kend l (PTE2PA (pte_at m' pt j)) ((C(i := T)) j) m'
           else (C(i := T)) j = {}"
        using e C(5) sub T(1) v by (auto simp: split: if_splits)
    qed
    moreover have "entry (Suc l) pt va m' = (if idx (Suc l) va = i then entry l (PTE2PA (pte_at m pt i)) va m'
        else entry (Suc l) pt va m)" for va
      using sub [OF idx_less] e [OF idx_less] v by (auto simp: Let_def)
    ultimately show "tree kend (Suc l) pt (S - C i \<union> T) m' \<and>
       (\<forall>va. entry (Suc l) pt va m' = (if idx (Suc l) va = i then entry l (PTE2PA (pte_at m pt i)) va m'
              else entry (Suc l) pt va m))" by blast
  qed
qed

section \<open>Walking\<close>

lemma zero_table:
  assumes "page_ok kend pt" "\<And>a. in_page pt a \<Longrightarrow> m a = 0"
  shows "tree kend l pt {pt} m" "entry l pt va m = 0"
proof -
  have z: "pte_at m pt i = 0" if "i < 512" for i
    using pte_at_cong [of pt m "\<lambda>_. 0" i] assms(2) that by (simp add: pte_at_def)
  show "tree kend l pt {pt} m"
    by (cases l) (auto simp: assms(1) z pte_has_zero intro!: exI [of _ "\<lambda>_. {}"])
  show "entry l pt va m = 0"
    by (cases l) (auto simp: z idx_less pte_has_zero)
qed

lemma walk_from_noalloc: "snd (walk_from l pt va False s) = s"
  by (induction l arbitrary: pt) (auto simp: Let_def)

lemma walk_entry:
  assumes "tree kend l pt S (kmemory s)"
  shows "entry l pt va (kmemory s) = (case fst (walk_from l pt va False s) of None \<Rightarrow> 0 | Some p \<Rightarrow> load_pte p s)"
  using assms
proof (induction l arbitrary: pt S)
  case 0
  then show ?case by (simp add: load_slot [of kend])
next
  case (Suc l)
  have ld: "load_pte (pt + 8 * PX (Suc l) va) s = pte_at (kmemory s) pt (idx (Suc l) va)"
    using Suc.prems by (intro load_slot) auto
  show ?case
  proof (cases "pte_has (pte_at (kmemory s) pt (idx (Suc l) va)) PTE_V")
    case True
    obtain D where "tree kend l (PTE2PA (pte_at (kmemory s) pt (idx (Suc l) va))) D (kmemory s)"
      by (rule tree_graft [OF Suc.prems idx_less True])
    from Suc.IH [OF this] True show ?thesis by (simp add: ld Let_def)
  qed (simp add: ld Let_def)
qed

text \<open>A store through the address that a walk returned changes the entry of that page only.\<close>

lemma store_leaf:
  fixes v :: u64
  assumes "tree kend l pt S (kmemory s)" "fst (walk_from l pt va False s) = Some p"
  defines "m' \<equiv> put64 (unat p) v (kmemory s)"
  shows "tree kend l pt S m' \<and>
    (\<forall>va'. entry l pt va' m' = (if \<forall>j \<le> l. idx j va' = idx j va then v else entry l pt va' (kmemory s))) \<and>
    (\<forall>a. m' a \<noteq> kmemory s a \<longrightarrow> (\<exists>q \<in> S. in_page q a))"
  using assms(1,2) unfolding m'_def
proof (induction l arbitrary: pt S)
  case 0
  then have pt: "page_ok kend pt" "S = {pt}" "p = pt + 8 * PX 0 va" by auto
  then show ?case
    using put_slot_other [OF idx_less, of pt _ 0 va v "kmemory s"] by (auto simp: slot_idx [OF pt(1)] pte_at_put)
next
  case (Suc l)
  let ?e = "pte_at (kmemory s) pt (idx (Suc l) va)"
  let ?m' = "put64 (unat p) v (kmemory s)"
  have ld: "load_pte (pt + 8 * PX (Suc l) va) s = ?e" using Suc.prems by (intro load_slot) auto
  have V: "pte_has ?e PTE_V" and w: "fst (walk_from l (PTE2PA ?e) va False s) = Some p"
    using Suc.prems(2) by (auto simp: ld Let_def split: if_splits)
  obtain D where D: "tree kend l (PTE2PA ?e) D (kmemory s)" "D \<subseteq> S"
    and graft: "\<And>T m'. tree kend l (PTE2PA ?e) T m' \<Longrightarrow> T \<inter> (S - D) = {} \<Longrightarrow>
       (\<And>p a. p \<in> S - D \<Longrightarrow> in_page p a \<Longrightarrow> m' a = kmemory s a) \<Longrightarrow>
       tree kend (Suc l) pt (S - D \<union> T) m' \<and>
       (\<forall>va'. entry (Suc l) pt va' m' = (if idx (Suc l) va' = idx (Suc l) va then entry l (PTE2PA ?e) va' m'
              else entry (Suc l) pt va' (kmemory s)))"
    by (rule tree_graft [OF Suc.prems(1) idx_less V]) blast
  from Suc.IH [OF D(1) w] have IH: "tree kend l (PTE2PA ?e) D ?m'"
    "\<And>va'. entry l (PTE2PA ?e) va' ?m' = (if \<forall>j \<le> l. idx j va' = idx j va then v else entry l (PTE2PA ?e) va' (kmemory s))"
    "\<And>a. ?m' a \<noteq> kmemory s a \<Longrightarrow> \<exists>q \<in> D. in_page q a" by blast+
  have "tree kend (Suc l) pt (S - D \<union> D) ?m' \<and>
       (\<forall>va'. entry (Suc l) pt va' ?m' = (if idx (Suc l) va' = idx (Suc l) va then entry l (PTE2PA ?e) va' ?m'
              else entry (Suc l) pt va' (kmemory s)))"
  proof (rule graft [OF IH(1)])
    fix q a assume q: "q \<in> S - D" "in_page q a"
    have "\<not> in_page r a" if "r \<in> D" for r
      using pages_differ [of kend q r a] tree_pages [OF Suc.prems(1)] q that D(2) by blast
    then show "?m' a = kmemory s a" using IH(3) [of a] by blast
  qed blast
  then have t': "tree kend (Suc l) pt S ?m'"
    and e': "\<And>va'. entry (Suc l) pt va' ?m' = (if idx (Suc l) va' = idx (Suc l) va then entry l (PTE2PA ?e) va' ?m'
              else entry (Suc l) pt va' (kmemory s))" using D(2) by (simp_all only: Un_Diff_cancel2 Un_absorb2)
  have "entry (Suc l) pt va' ?m' = (if \<forall>j \<le> Suc l. idx j va' = idx j va then v else entry (Suc l) pt va' (kmemory s))" for va'
  proof (cases "idx (Suc l) va' = idx (Suc l) va")
    case True
    then have "entry (Suc l) pt va' (kmemory s) = entry l (PTE2PA ?e) va' (kmemory s)" using V by (simp add: Let_def)
    with True show ?thesis unfolding e' IH(2) by (auto simp: le_Suc_eq simp del: entry.simps)
  next
    case False
    then show ?thesis unfolding e' by (auto simp del: entry.simps)
  qed
  moreover have "\<exists>q \<in> S. in_page q a" if "?m' a \<noteq> kmemory s a" for a using IH(3) [OF that] D(2) by blast
  ultimately show ?case using t' by blast
qed

text \<open>
  The whole of a walk that may allocate: it takes pages from the free list for the tables that
  are missing, and no entry changes.
\<close>

definition vm_ok :: "nat \<Rightarrow> nat \<Rightarrow> u64 \<Rightarrow> u64 set \<Rightarrow> u64 list \<Rightarrow> 'a kmem_scheme \<Rightarrow> bool" where
  "vm_ok kend l pt S fr s \<longleftrightarrow> 0 < kend \<and> tree kend l pt S (kmemory s) \<and> kmem_ok kend fr s \<and> S \<inter> set fr = {}"

lemma new_table:
  assumes ok: "vm_ok kend (Suc l) pt S (x # xs) s" and e: "\<not> pte_has (pte_at (kmemory s) pt (idx (Suc l) va)) PTE_V"
    and k: "kalloc s = (y, s1)"
  defines "s' \<equiv> store_pte (pt + 8 * PX (Suc l) va) (PA2PTE y OR PTE_V) (fill_page y 0 s1)"
  shows "y = x \<and> x \<noteq> 0 \<and> vm_ok kend (Suc l) pt (insert x S) xs s' \<and> kmem.more s' = kmem.more s \<and>
    pte_at (kmemory s') pt (idx (Suc l) va) = PA2PTE x OR PTE_V \<and>
    (\<forall>va'. entry (Suc l) pt va' (kmemory s') = entry (Suc l) pt va' (kmemory s)) \<and>
    (\<forall>a. kmemory s' a \<noteq> kmemory s a \<longrightarrow> in_page x a \<or> in_page pt a)"
proof -
  let ?i = "idx (Suc l) va"
  let ?m = "kmemory s" and ?m' = "kmemory s'"
  have kend: "0 < kend" and t: "tree kend (Suc l) pt S ?m" and km: "kmem_ok kend (x # xs) s"
    and dis: "S \<inter> set (x # xs) = {}" using ok by (auto simp: vm_ok_def)
  have pg: "page_ok kend pt" "page_ok kend x" "x \<notin> set xs" "\<forall>z \<in> set xs. page_ok kend z" "pt \<in> S"
    using t km by (auto simp: kmem_ok_def)
  have nz: "x \<noteq> 0" using km by (auto simp: kmem_ok_def)
  obtain y: "y = x" and s1: "kmem_ok kend xs s1" "kmem.more s1 = kmem.more s"
      "\<And>a. kmemory s1 a = (if in_page x a then 5 else ?m a)"
    using kalloc_ok [OF km] k by auto
  have m': "?m' = put64 (unat pt + 8 * ?i) (PA2PTE x OR PTE_V) (memset (unat x) 0 PGSIZE (kmemory s1))"
    by (simp add: s'_def y store_pte_def fill_page_def slot_idx [OF pg(1)])
  have fill: "memset (unat x) 0 PGSIZE (kmemory s1) a = (if in_page x a then 0 else ?m a)" for a
    using s1(3) [of a] by (auto simp: memset_fills in_page_def)
  have frame: "?m' a = (if in_page x a then 0 else ?m a)" if "\<not> in_page pt a" for a
    unfolding m' using put_slot_other [OF idx_less that] fill by simp
  have ptx: "pt \<noteq> x" using pg(5) dis by auto
  have zx: "?m' a = 0" if "in_page x a" for a
    using frame [of a] that pages_differ [OF pg(2,1)] ptx by auto
  have at: "pte_at ?m' pt j = (if j = ?i then PA2PTE x OR PTE_V else pte_at ?m pt j)" if "j < 512" for j
  proof -
    have "pte_at (memset (unat x) 0 PGSIZE (kmemory s1)) pt j = pte_at ?m pt j"
      by (rule pte_at_cong [OF _ that]) (use fill pages_differ [OF pg(1,2) ptx] in auto)
    then show ?thesis unfolding m' by (simp add: pte_at_put)
  qed
  obtain C where C: "S = insert pt (\<Union>i<512. C i)" "\<forall>i<512. pt \<notin> C i"
    "\<forall>i<512. \<forall>j<512. i \<noteq> j \<longrightarrow> C i \<inter> C j = {}"
    "\<And>i. i < 512 \<Longrightarrow> if pte_has (pte_at ?m pt i) PTE_V
       then interior (pte_at ?m pt i) \<and> tree kend l (PTE2PA (pte_at ?m pt i)) (C i) ?m else C i = {}"
    using t by auto
  have Ci: "C ?i = {}" using C(4) [OF idx_less] e by simp
  have sub: "tree kend l (PTE2PA (pte_at ?m pt j)) (C j) ?m' \<and>
      (\<forall>va. entry l (PTE2PA (pte_at ?m pt j)) va ?m' = entry l (PTE2PA (pte_at ?m pt j)) va ?m)"
    if j: "j < 512" "pte_has (pte_at ?m pt j) PTE_V" for j
  proof (rule tree_cong)
    show "tree kend l (PTE2PA (pte_at ?m pt j)) (C j) ?m" using C(4) [OF j(1)] j(2) by simp
    show "?m a = ?m' a" if "p \<in> C j" "in_page p a" for p a
    proof -
      have "p \<in> S" "p \<noteq> pt" "p \<noteq> x" using that(1) C(1,2) j(1) dis by auto
      then have "\<not> in_page pt a" "\<not> in_page x a"
        using pages_differ [of kend p _ a] tree_pages [OF t] pg(1,2) that(2) by blast+
      then show ?thesis using frame [of a] by simp
    qed
  qed
  have "tree kend (Suc l) pt (insert x S) ?m'"
    unfolding tree.simps
  proof (intro conjI exI [of _ "C(?i := {x})"] pg(1))
    show "insert x S = insert pt (\<Union>i<512. (C(?i := {x})) i)" using C(1) Ci idx_less [of "Suc l" va] by auto
    show "\<forall>i<512. pt \<notin> (C(?i := {x})) i" using C(2) ptx by simp
    have "x \<notin> C j" if "j < 512" for j using that C(1) dis by auto
    then show "\<forall>i<512. \<forall>j<512. i \<noteq> j \<longrightarrow> (C(?i := {x})) i \<inter> (C(?i := {x})) j = {}" using C(3) by auto
    show "\<forall>i<512. if pte_has (pte_at ?m' pt i) PTE_V
           then interior (pte_at ?m' pt i) \<and> tree kend l (PTE2PA (pte_at ?m' pt i)) ((C(?i := {x})) i) ?m'
           else (C(?i := {x})) i = {}"
      using at sub C(4) table_entry [OF pg(2)] zero_table(1) [OF pg(2) zx] by simp
  qed
  moreover have "entry (Suc l) pt va' ?m' = entry (Suc l) pt va' ?m" for va'
    using at [OF idx_less] sub [OF idx_less] table_entry [OF pg(2)] zero_table(2) [OF pg(2) zx] e
    by (cases "idx (Suc l) va' = ?i") (simp_all add: Let_def)
  moreover have "kmem_ok kend xs s'"
  proof -
    have "chain ?m' p xs = chain (kmemory s1) p xs" for p
    proof (rule chain_cong)
      fix z a assume z: "z \<in> set xs" "in_page z a"
      then have "\<not> in_page pt a" "\<not> in_page x a"
        using pages_differ [of kend z _ a] pg dis by auto
      then show "?m' a = kmemory s1 a" using frame [of a] s1(3) [of a] by simp
    qed
    then show ?thesis using s1(1) by (simp add: kmem_ok_def s'_def store_pte_def fill_page_def)
  qed
  ultimately show ?thesis
    using y nz kend dis pg(3) at [OF idx_less] frame s1(2)
    by (auto simp: vm_ok_def s'_def store_pte_def fill_page_def)
qed

declare tree.simps [simp del] entry.simps [simp del]

text \<open>What an operation on a table with the pages \<open>S\<close> and the free pages \<open>fr\<close> keeps.\<close>

definition vm_step ::
  "nat \<Rightarrow> nat \<Rightarrow> u64 \<Rightarrow> u64 set \<Rightarrow> u64 list \<Rightarrow> 'a kmem_scheme \<Rightarrow> u64 set \<Rightarrow> u64 list \<Rightarrow> 'a kmem_scheme \<Rightarrow> bool" where
  "vm_step kend l pt S fr s S' fr' s' \<longleftrightarrow>
     vm_ok kend l pt S' fr' s' \<and> S \<subseteq> S' \<and> S' \<union> set fr' = S \<union> set fr \<and> kmem.more s' = kmem.more s \<and>
     (\<forall>a. kmemory s' a \<noteq> kmemory s a \<longrightarrow> (\<exists>q \<in> S \<union> set fr. in_page q a))"

lemma vm_step_refl: "vm_ok kend l pt S fr s \<Longrightarrow> vm_step kend l pt S fr s S fr s"
  by (simp add: vm_step_def)

lemma vm_step_trans:
  assumes "vm_step kend l pt S fr s S' fr' s'" "vm_step kend l pt S' fr' s' S'' fr'' s''"
  shows "vm_step kend l pt S fr s S'' fr'' s''"
proof -
  have "\<exists>q \<in> S \<union> set fr. in_page q a" if "kmemory s'' a \<noteq> kmemory s a" for a
    using assms that unfolding vm_step_def by (cases "kmemory s' a = kmemory s a") metis+
  then show ?thesis using assms unfolding vm_step_def by auto
qed

text \<open>The walk continues in the subtree below its entry.\<close>

lemma vm_step_graft:
  assumes ok: "vm_ok kend (Suc l) pt S fr s" and V: "pte_has (pte_at (kmemory s) pt i) PTE_V" and i: "i < 512"
  obtains D where "vm_ok kend l (PTE2PA (pte_at (kmemory s) pt i)) D fr s"
    "\<And>D' fr' s'. vm_step kend l (PTE2PA (pte_at (kmemory s) pt i)) D fr s D' fr' s' \<Longrightarrow>
       \<exists>S'. vm_step kend (Suc l) pt S fr s S' fr' s' \<and> pte_at (kmemory s') pt i = pte_at (kmemory s) pt i \<and>
         (\<forall>va. entry (Suc l) pt va (kmemory s') =
           (if idx (Suc l) va = i then entry l (PTE2PA (pte_at (kmemory s) pt i)) va (kmemory s')
            else entry (Suc l) pt va (kmemory s)))"
proof -
  let ?e = "pte_at (kmemory s) pt i"
  have kend: "0 < kend" and t: "tree kend (Suc l) pt S (kmemory s)" and km: "kmem_ok kend fr s"
    and dis: "S \<inter> set fr = {}" using ok by (auto simp: vm_ok_def)
  obtain D where D: "tree kend l (PTE2PA ?e) D (kmemory s)" "D \<subseteq> S" "pt \<notin> D"
    and graft: "\<And>T m'. tree kend l (PTE2PA ?e) T m' \<Longrightarrow> T \<inter> (S - D) = {} \<Longrightarrow>
       (\<And>p a. p \<in> S - D \<Longrightarrow> in_page p a \<Longrightarrow> m' a = kmemory s a) \<Longrightarrow>
       tree kend (Suc l) pt (S - D \<union> T) m' \<and>
       (\<forall>va. entry (Suc l) pt va m' = (if idx (Suc l) va = i then entry l (PTE2PA ?e) va m'
              else entry (Suc l) pt va (kmemory s)))"
    by (rule tree_graft [OF t i V]) blast
  show thesis
  proof (rule that [of D])
    show "vm_ok kend l (PTE2PA ?e) D fr s" using kend D(1,2) km dis by (auto simp: vm_ok_def)
    fix D' fr' s' assume st: "vm_step kend l (PTE2PA ?e) D fr s D' fr' s'"
    then have D': "tree kend l (PTE2PA ?e) D' (kmemory s')" "kmem_ok kend fr' s'" "D' \<inter> set fr' = {}" "D \<subseteq> D'"
      "D' \<union> set fr' = D \<union> set fr" "kmem.more s' = kmem.more s"
      "\<And>a. kmemory s' a \<noteq> kmemory s a \<Longrightarrow> \<exists>q \<in> D \<union> set fr. in_page q a"
      by (auto simp: vm_step_def vm_ok_def)
    have same: "kmemory s' a = kmemory s a" if q: "q \<in> S - D" "in_page q a" for q a
    proof -
      have "\<not> in_page r a" if r: "r \<in> D \<union> set fr" for r
      proof (rule pages_differ [of kend q r a])
        show "page_ok kend q" using tree_pages [OF t] q by blast
        show "page_ok kend r" using r tree_pages [OF D(1)] km by (auto simp: kmem_ok_def)
        show "q \<noteq> r" using r q dis by auto
      qed (rule q(2))
      then show ?thesis using D'(7) [of a] by blast
    qed
    have apart: "D' \<inter> (S - D) = {}" using D'(5) dis by auto
    have gr: "tree kend (Suc l) pt (S - D \<union> D') (kmemory s') \<and>
      (\<forall>va. entry (Suc l) pt va (kmemory s') = (if idx (Suc l) va = i then entry l (PTE2PA ?e) va (kmemory s')
              else entry (Suc l) pt va (kmemory s)))"
      by (rule graft [OF D'(1) apart]) (rule same)
    then have g: "tree kend (Suc l) pt (S - D \<union> D') (kmemory s')"
      "\<forall>va. entry (Suc l) pt va (kmemory s') = (if idx (Suc l) va = i then entry l (PTE2PA ?e) va (kmemory s')
              else entry (Suc l) pt va (kmemory s))"
      by simp_all
    have "vm_step kend (Suc l) pt S fr s (S - D \<union> D') fr' s'"
      unfolding vm_step_def vm_ok_def
    proof (intro conjI kend g(1) D'(2,6))
      show "(S - D \<union> D') \<inter> set fr' = {}" using D'(3,5) dis by blast
      show "S \<subseteq> S - D \<union> D'" using D'(4) by blast
      show "S - D \<union> D' \<union> set fr' = S \<union> set fr" using D'(5) D(2) by blast
      show "\<forall>a. kmemory s' a \<noteq> kmemory s a \<longrightarrow> (\<exists>q\<in>S \<union> set fr. in_page q a)" using D'(7) D(2) by blast
    qed
    moreover have "pte_at (kmemory s') pt i = ?e"
      using pte_at_cong [OF _ i, of pt "kmemory s'" "kmemory s"] same [of pt] tree_root [OF t] D(3) by blast
    ultimately show "\<exists>S'. vm_step kend (Suc l) pt S fr s S' fr' s' \<and> pte_at (kmemory s') pt i = ?e \<and>
         (\<forall>va. entry (Suc l) pt va (kmemory s') = (if idx (Suc l) va = i then entry l (PTE2PA ?e) va (kmemory s')
            else entry (Suc l) pt va (kmemory s)))" using g(2) by blast
  qed
qed

lemma walk_alloc:
  assumes "vm_ok kend l pt S fr s" "walk_from l pt va True s = (r, s')"
  shows "\<exists>S' fr'. vm_step kend l pt S fr s S' fr' s' \<and>
    (\<forall>va'. entry l pt va' (kmemory s') = entry l pt va' (kmemory s)) \<and>
    (case r of None \<Rightarrow> fr' = [] | Some p \<Rightarrow> fst (walk_from l pt va False s') = Some p)"
  using assms
proof (induction l arbitrary: pt S fr s)
  case 0
  then show ?case by (auto intro!: exI vm_step_refl)
next
  case (Suc l)
  let ?i = "idx (Suc l) va"
  have pg: "page_ok kend pt" using Suc.prems(1) tree_root by (auto simp: vm_ok_def)
  have ld: "load_pte (pt + 8 * PX (Suc l) va) s = pte_at (kmemory s) pt ?i" for s :: "'a kmem_scheme"
    by (rule load_slot [OF pg])
  have down: "\<exists>S' fr'. vm_step kend (Suc l) pt S fr s S' fr' s' \<and>
      (\<forall>va'. entry (Suc l) pt va' (kmemory s') = entry (Suc l) pt va' (kmemory s)) \<and>
      (case r of None \<Rightarrow> fr' = [] | Some p \<Rightarrow> fst (walk_from (Suc l) pt va False s') = Some p)"
    if ok: "vm_ok kend (Suc l) pt S fr s" and V: "pte_has (pte_at (kmemory s) pt ?i) PTE_V"
      and w: "walk_from l (PTE2PA (pte_at (kmemory s) pt ?i)) va True s = (r, s')" for S fr and s :: "'a kmem_scheme"
  proof -
    let ?e = "pte_at (kmemory s) pt ?i"
    obtain D where D: "vm_ok kend l (PTE2PA ?e) D fr s"
      and graft: "\<And>D' fr' s'. vm_step kend l (PTE2PA ?e) D fr s D' fr' s' \<Longrightarrow>
       \<exists>S'. vm_step kend (Suc l) pt S fr s S' fr' s' \<and> pte_at (kmemory s') pt ?i = ?e \<and>
         (\<forall>va'. entry (Suc l) pt va' (kmemory s') =
           (if idx (Suc l) va' = ?i then entry l (PTE2PA ?e) va' (kmemory s') else entry (Suc l) pt va' (kmemory s)))"
      by (rule vm_step_graft [OF ok V idx_less]) blast
    obtain D' fr' where D': "vm_step kend l (PTE2PA ?e) D fr s D' fr' s'"
      "\<forall>va'. entry l (PTE2PA ?e) va' (kmemory s') = entry l (PTE2PA ?e) va' (kmemory s)"
      "case r of None \<Rightarrow> fr' = [] | Some p \<Rightarrow> fst (walk_from l (PTE2PA ?e) va False s') = Some p"
      using Suc.IH [OF D w] by blast
    obtain S' where S': "vm_step kend (Suc l) pt S fr s S' fr' s'" "pte_at (kmemory s') pt ?i = ?e"
      "\<forall>va'. entry (Suc l) pt va' (kmemory s') =
         (if idx (Suc l) va' = ?i then entry l (PTE2PA ?e) va' (kmemory s') else entry (Suc l) pt va' (kmemory s))"
      using graft [OF D'(1)] by blast
    have "entry (Suc l) pt va' (kmemory s') = entry (Suc l) pt va' (kmemory s)" for va'
    proof (cases "idx (Suc l) va' = ?i")
      case True
      then have "entry (Suc l) pt va' (kmemory s) = entry l (PTE2PA ?e) va' (kmemory s)" using V by (simp add: entry.simps Let_def)
      then show ?thesis using S'(3) D'(2) True by simp
    qed (use S'(3) in simp)
    moreover have "fst (walk_from (Suc l) pt va False s') = fst (walk_from l (PTE2PA ?e) va False s')"
      using V S'(2) by (simp add: Let_def ld)
    ultimately show ?thesis using S'(1) D'(3) by (intro exI [of _ S'] exI [of _ fr']) (auto split: option.splits)
  qed
  show ?case
  proof (cases "pte_has (pte_at (kmemory s) pt ?i) PTE_V")
    case True
    show ?thesis by (rule down [OF Suc.prems(1) True]) (use Suc.prems(2) True in \<open>simp add: ld Let_def\<close>)
  next
    case False
    obtain y s1 where k: "kalloc s = (y, s1)" by (cases "kalloc s")
    show ?thesis
    proof (cases fr)
      case Nil
      then have "kalloc s = (0, s)" using Suc.prems(1) kalloc_empty [of kend s] by (simp add: vm_ok_def)
      then have "r = None" "s' = s" using Suc.prems(2) False by (auto simp: ld Let_def)
      then show ?thesis using vm_step_refl [OF Suc.prems(1)] Nil by fastforce
    next
      case (Cons x xs)
      let ?s2 = "store_pte (pt + 8 * PX (Suc l) va) (PA2PTE y OR PTE_V) (fill_page y 0 s1)"
      have n: "y = x" "x \<noteq> 0" "vm_ok kend (Suc l) pt (insert x S) xs ?s2" "kmem.more ?s2 = kmem.more s"
        "pte_at (kmemory ?s2) pt ?i = PA2PTE x OR PTE_V"
        "\<forall>va'. entry (Suc l) pt va' (kmemory ?s2) = entry (Suc l) pt va' (kmemory s)"
        "\<forall>a. kmemory ?s2 a \<noteq> kmemory s a \<longrightarrow> in_page x a \<or> in_page pt a"
        using new_table [OF Suc.prems(1) [unfolded Cons] False k] by blast+
      have px: "page_ok kend x" using Suc.prems(1) Cons by (auto simp: vm_ok_def kmem_ok_def)
      have s02: "vm_step kend (Suc l) pt S fr s (insert x S) xs ?s2"
        unfolding vm_step_def Cons using n(3,4,7) tree_root [of kend "Suc l" pt S] Suc.prems(1)
        by (auto simp: vm_ok_def)
      have w: "walk_from l (PTE2PA (pte_at (kmemory ?s2) pt ?i)) va True ?s2 = (r, s')"
        unfolding n(5) using Suc.prems(2) False k n(1,2) table_entry(1) [OF px] by (simp add: ld Let_def)
      have V2: "pte_has (pte_at (kmemory ?s2) pt ?i) PTE_V" unfolding n(5) by (rule pte_has_V)
      obtain S' fr' where S': "vm_step kend (Suc l) pt (insert x S) xs ?s2 S' fr' s'"
        "\<forall>va'. entry (Suc l) pt va' (kmemory s') = entry (Suc l) pt va' (kmemory ?s2)"
        "case r of None \<Rightarrow> fr' = [] | Some p \<Rightarrow> fst (walk_from (Suc l) pt va False s') = Some p"
        using down [OF n(3) V2 w] by blast
      then show ?thesis using vm_step_trans [OF s02 S'(1)] n(6) by (intro exI [of _ S'] exI [of _ fr']) (simp del: walk_from.simps)
    qed
  qed
qed

end
