(* ===== verification/Page_Map.thy ===== *)
theory Page_Map
  imports Page_Table
begin

text \<open>
  The operations of \<^verbatim>\<open>kernel/vm.c\<close> on the map that a page table is: mapping adds a run of pages,
  unmapping removes one, a failed allocation leaves a prefix, and freeing a table without leaves
  returns every page of it.
\<close>

section \<open>Page numbers\<close>

definition page_va :: "nat \<Rightarrow> u64" where "page_va v = of_nat (v * PGSIZE)"

lemma idx_eq: "idx l va = unat va div 2 ^ (12 + 9 * l) mod 512"
proof -
  have m: "(0x1FF :: u64) = mask 9" by (simp add: mask_eq_exp_minus_1)
  have "PX l va = take_bit 9 (drop_bit (12 + 9 * l) va)" unfolding PX_def m take_bit_eq_mask ..
  then have "idx l va = take_bit 9 (unat (drop_bit (12 + 9 * l) va))" unfolding idx_def by (simp only: unsigned_take_bit_eq)
  also have "\<dots> = (unat va div 2 ^ (12 + 9 * l)) mod 512"
    unfolding unat_drop_bit_eq by (simp add: take_bit_eq_mod drop_bit_eq_div)
  finally show ?thesis .
qed

lemma unat_page_va: "v < 2 ^ 40 \<Longrightarrow> unat (page_va v) = v * PGSIZE"
  by (simp add: page_va_def PGSIZE_def unat_word_ariths unat_of_nat)

lemma page_va_below: "v < 2 ^ 26 \<Longrightarrow> page_va v < MAXVA"
  by (simp add: word_less_nat_alt unat_page_va MAXVA_def PGSIZE_def)

lemma page_va_add: "page_va (v + n) = page_va v + page_va n"
  by (simp add: page_va_def algebra_simps)

lemma page_va_Suc: "page_va v + of_nat PGSIZE = page_va (Suc v)"
  by (simp add: page_va_def algebra_simps)

lemma idx_page: "v < 2 ^ 40 \<Longrightarrow> idx j (page_va v) = v div 512 ^ j mod 512"
proof -
  assume v: "v < 2 ^ 40"
  have e: "(2 :: nat) ^ (12 + 9 * j) = 512 ^ j * 4096" by (simp add: power_add power_mult)
  show ?thesis unfolding idx_eq unat_page_va [OF v] e PGSIZE_def by (simp del: of_nat_mult)
qed

lemma digits_eq:
  assumes "v < 512 ^ 3" "w < 512 ^ 3" "\<forall>j \<le> 2. v div 512 ^ j mod 512 = w div 512 ^ j mod (512 :: nat)"
  shows "v = w"
proof -
  have d: "v mod 512 = w mod 512" "v div 512 mod 512 = w div 512 mod 512" "v div 262144 mod 512 = w div 262144 mod 512"
    using spec [OF assms(3), of 0] spec [OF assms(3), of 1] spec [OF assms(3), of 2] by simp_all
  have split: "x = x mod 512 + 512 * (x div 512 mod 512) + 262144 * (x div 262144 mod 512)" if "x < 512 ^ 3" for x :: nat
  proof -
    have "x div 262144 mod 512 = x div 262144" using that by (simp add: less_mult_imp_div_less)
    moreover have "x div 262144 = x div 512 div 512" by (simp add: div_mult2_eq [symmetric])
    ultimately show ?thesis
      using div_mult_mod_eq [of x 512] div_mult_mod_eq [of "x div 512" 512] by linarith
  qed
  show ?thesis using split [OF assms(1)] split [OF assms(2)] unfolding d by linarith
qed

lemma same_page: "v < 2 ^ 27 \<Longrightarrow> w < 2 ^ 27 \<Longrightarrow> (\<forall>j \<le> 2. idx j (page_va v) = idx j (page_va w)) \<longleftrightarrow> v = w"
  using digits_eq [of v w] by (auto simp: idx_page)

lemma entry_cong: "\<forall>j \<le> l. idx j va = idx j va' \<Longrightarrow> entry l pt va m = entry l pt va' m"
  by (induction l arbitrary: pt) (auto simp: entry.simps Let_def)

lemma entry_page:
  assumes "va < MAXVA"
  shows "entry 2 pt va m = entry 2 pt (page_va (unat va div PGSIZE)) m" "unat va div PGSIZE < 2 ^ 26"
proof -
  have a: "unat va < 2 ^ 38" using assms by (simp add: word_less_nat_alt MAXVA_def)
  then show v: "unat va div PGSIZE < 2 ^ 26" by (simp add: PGSIZE_def less_mult_imp_div_less)
  have "idx j va = idx j (page_va (unat va div PGSIZE))" for j
  proof -
    have "unat va div 2 ^ (12 + 9 * j) = unat va div PGSIZE div 512 ^ j"
      by (simp add: PGSIZE_def power_add power_mult div_mult2_eq)
    then show ?thesis using v by (simp add: idx_page) (simp add: idx_eq)
  qed
  then show "entry 2 pt va m = entry 2 pt (page_va (unat va div PGSIZE)) m" by (intro entry_cong) simp
qed

section \<open>The map\<close>

text \<open>Three indices of nine bits address \<open>2 ^ 27\<close> pages; \<^verbatim>\<open>MAXVA\<close> keeps the kernel to the lower half.\<close>

definition pmap :: "u64 \<Rightarrow> mem \<Rightarrow> nat \<Rightarrow> u64 option" where
  "pmap pt m v = (if v < 2 ^ 27 \<and> pte_has (entry 2 pt (page_va v) m) PTE_V then Some (entry 2 pt (page_va v) m) else None)"

abbreviation table_ok :: "nat \<Rightarrow> u64 \<Rightarrow> u64 set \<Rightarrow> u64 list \<Rightarrow> 'a kmem_scheme \<Rightarrow> bool" where
  "table_ok kend \<equiv> vm_ok kend 2"

lemma pmap_cong: "(\<And>va. entry 2 pt va m' = entry 2 pt va m) \<Longrightarrow> pmap pt m' = pmap pt m"
  by (simp add: pmap_def fun_eq_iff)

text \<open>The translation of a user address is a lookup in the map.\<close>

lemma walkaddr_pmap:
  assumes "tree kend 2 pt S (kmemory s)"
  shows "walkaddr pt va s =
    (if va < MAXVA then case pmap pt (kmemory s) (unat va div PGSIZE) of
       Some e \<Rightarrow> if pte_has e PTE_U then PTE2PA e else 0 | None \<Rightarrow> 0 else 0)"
proof (cases "va < MAXVA")
  case True
  then show ?thesis
    using walk_entry [OF assms, of va] entry_page(1) [OF True, of pt "kmemory s"] entry_page(2) [OF True]
    by (auto simp: walkaddr_def pmap_def pte_has_zero split: option.splits)
next
  case False
  then have "MAXVA \<le> va" by simp
  then show ?thesis unfolding walkaddr_def if_not_P [OF False] by simp
qed

lemma vm_step_store:
  assumes ok: "vm_ok kend l pt S fr s" and w: "fst (walk_from l pt va False s) = Some p"
  shows "vm_step kend l pt S fr s S fr (store_pte p v s)"
    and "entry l pt va' (kmemory (store_pte p v s)) = (if \<forall>j \<le> l. idx j va' = idx j va then v else entry l pt va' (kmemory s))"
proof -
  have t: "tree kend l pt S (kmemory s)" and km: "kmem_ok kend fr s" and dis: "S \<inter> set fr = {}" and k: "0 < kend"
    using ok by (auto simp: vm_ok_def)
  let ?m' = "put64 (unat p) v (kmemory s)"
  have st: "tree kend l pt S ?m'" "\<And>a. ?m' a \<noteq> kmemory s a \<Longrightarrow> \<exists>q \<in> S. in_page q a"
    and e: "entry l pt va' ?m' = (if \<forall>j \<le> l. idx j va' = idx j va then v else entry l pt va' (kmemory s))"
    using store_leaf [OF t w, of v] by blast+
  have "chain ?m' q fr = chain (kmemory s) q fr" for q
  proof (rule chain_cong)
    fix z a assume z: "z \<in> set fr" "in_page z a"
    have "\<not> in_page r a" if "r \<in> S" for r
      using pages_differ [of kend z r a] tree_pages [OF t that] km z dis that by (auto simp: kmem_ok_def)
    then show "?m' a = kmemory s a" using st(2) by blast
  qed
  then have "kmem_ok kend fr (store_pte p v s)" using km by (simp add: kmem_ok_def store_pte_def)
  then show "vm_step kend l pt S fr s S fr (store_pte p v s)"
    using st k dis by (auto simp: vm_step_def vm_ok_def store_pte_def)
  show "entry l pt va' (kmemory (store_pte p v s)) = (if \<forall>j \<le> l. idx j va' = idx j va then v else entry l pt va' (kmemory s))"
    using e by (simp add: store_pte_def)
qed

lemma pmap_store:
  assumes ok: "vm_ok kend 2 pt S fr s" and w: "fst (walk_from 2 pt (page_va v) False s) = Some p" and v: "v < 2 ^ 26"
  shows "pmap pt (kmemory (store_pte p e s)) = (pmap pt (kmemory s))(v := if pte_has e PTE_V then Some e else None)"
proof
  fix x
  have "entry 2 pt (page_va x) (kmemory (store_pte p e s)) = (if x = v then e else entry 2 pt (page_va x) (kmemory s))"
    if "x < 2 ^ 27" using vm_step_store(2) [OF ok w] same_page [OF that, of v] v by simp
  then show "pmap pt (kmemory (store_pte p e s)) x = ((pmap pt (kmemory s))(v := if pte_has e PTE_V then Some e else None)) x"
    using v by (auto simp: pmap_def)
qed

section \<open>Mapping\<close>

text \<open>The run of \<open>k\<close> pages from page \<open>v\<close> to physical address \<open>pa\<close>.\<close>

definition page_run :: "nat \<Rightarrow> nat \<Rightarrow> u64 \<Rightarrow> u64 \<Rightarrow> nat \<Rightarrow> u64 option" where
  "page_run v k pa perm = (\<lambda>w. if v \<le> w \<and> w < v + k then Some (PA2PTE (pa + page_va (w - v)) OR perm OR PTE_V) else None)"

lemma page_run_0 [simp]: "page_run v 0 pa perm = Map.empty"
  by (auto simp: page_run_def fun_eq_iff)

lemma page_run_Suc:
  "(f (v \<mapsto> PA2PTE pa OR perm OR PTE_V)) ++ page_run (Suc v) k (pa + of_nat PGSIZE) perm = f ++ page_run v (Suc k) pa perm"
proof
  fix w
  consider "w = v" | "w < v" | d where "w = Suc v + d" using less_iff_Suc_add [of v w] by fastforce
  then show "((f (v \<mapsto> PA2PTE pa OR perm OR PTE_V)) ++ page_run (Suc v) k (pa + of_nat PGSIZE) perm) w
      = (f ++ page_run v (Suc k) pa perm) w"
  proof cases
    case 3
    have "pa + of_nat PGSIZE + page_va d = pa + page_va (Suc d)" by (simp add: page_va_def algebra_simps)
    then show ?thesis using 3 by (simp add: page_run_def map_add_def add.assoc)
  qed (auto simp: page_run_def map_add_def page_va_def)
qed

text \<open>One page: the walk finds or makes the slot, and the store sets the page in the map.\<close>

lemma map_one:
  assumes ok: "table_ok kend pt S fr s" and v: "v < 2 ^ 26" and free: "pmap pt (kmemory s) v = None"
  obtains s1 fr1 S1 where "walk pt (page_va v) True s = Inr (None, s1)" "vm_step kend 2 pt S fr s S1 fr1 s1" "fr1 = []"
      "pmap pt (kmemory s1) = pmap pt (kmemory s)"
  | p s1 fr1 S1 where "walk pt (page_va v) True s = Inr (Some p, s1)" "\<not> pte_has (load_pte p s1) PTE_V"
      "vm_step kend 2 pt S fr s S1 fr1 (store_pte p (PA2PTE pa OR perm OR PTE_V) s1)"
      "pmap pt (kmemory (store_pte p (PA2PTE pa OR perm OR PTE_V) s1)) = (pmap pt (kmemory s))(v \<mapsto> PA2PTE pa OR perm OR PTE_V)"
proof -
  obtain r s1 where w: "walk_from 2 pt (page_va v) True s = (r, s1)" by (cases "walk_from 2 pt (page_va v) True s")
  then have wk: "walk pt (page_va v) True s = Inr (r, s1)" using page_va_below [OF v] by (simp add: walk_def)
  obtain S1 fr1 where 1: "vm_step kend 2 pt S fr s S1 fr1 s1"
      "\<And>va'. entry 2 pt va' (kmemory s1) = entry 2 pt va' (kmemory s)"
      "case r of None \<Rightarrow> fr1 = [] | Some p \<Rightarrow> fst (walk_from 2 pt (page_va v) False s1) = Some p"
    using walk_alloc [OF ok w] by blast
  have pm: "pmap pt (kmemory s1) = pmap pt (kmemory s)" by (rule pmap_cong [OF 1(2)])
  have ok1: "vm_ok kend 2 pt S1 fr1 s1" using 1(1) by (simp add: vm_step_def)
  show thesis
  proof (cases r)
    case None
    then show ?thesis using that(1) [OF _ 1(1) _ pm] wk 1(3) by simp
  next
    case (Some p)
    let ?e = "PA2PTE pa OR perm OR PTE_V"
    have p: "fst (walk_from 2 pt (page_va v) False s1) = Some p" using 1(3) Some by simp
    have "entry 2 pt (page_va v) (kmemory s1) = load_pte p s1"
      using walk_entry [of kend 2 pt S1 s1 "page_va v"] ok1 p by (simp add: vm_ok_def)
    then have nv: "\<not> pte_has (load_pte p s1) PTE_V" using free v pm by (auto simp: pmap_def fun_eq_iff split: if_splits)
    have "pte_has ?e PTE_V" using pte_has_V [of "PA2PTE pa OR perm"] by (simp add: or.assoc)
    then show ?thesis
      using that(2) [OF _ nv vm_step_trans [OF 1(1) vm_step_store(1) [OF ok1 p]]] pmap_store [OF ok1 p v, of ?e] wk Some pm by simp
  qed
qed

lemma mappages_run:
  assumes "table_ok kend pt S fr s" "v + n < 2 ^ 26" "\<forall>i \<le> n. pmap pt (kmemory s) (v + i) = None"
  shows "\<exists>r k s' S' fr'. mappages_from pt (page_va v) (page_va (v + n)) pa perm s = Inr (r, s') \<and>
    vm_step kend 2 pt S fr s S' fr' s' \<and> pmap pt (kmemory s') = pmap pt (kmemory s) ++ page_run v k pa perm \<and>
    (r = 0 \<and> k = Suc n \<or> r = - 1 \<and> k \<le> n \<and> fr' = [])"
  using assms
proof (induction n arbitrary: v pa s S fr)
  case (0 v pa s S fr)
  have v: "v < 2 ^ 26" and none: "pmap pt (kmemory s) v = None" using "0.prems" by simp_all
  show ?case
  proof (cases rule: map_one [OF "0.prems"(1) v none, where pa = pa and perm = perm, case_names none some])
    case (none s1 fr1 S1)
    then have "mappages_from pt (page_va v) (page_va (v + 0)) pa perm s = Inr (- 1, s1)" by (subst mappages_from.simps) simp
    then show ?thesis using none by (intro exI [of _ "- 1"] exI [of _ 0] exI [of _ s1] exI [of _ S1] exI [of _ fr1]) simp
  next
    case (some p s1 fr1 S1)
    let ?s' = "store_pte p (PA2PTE pa OR perm OR PTE_V) s1"
    have "mappages_from pt (page_va v) (page_va (v + 0)) pa perm s = Inr (0, ?s')"
      using some(1,2) by (subst mappages_from.simps) (simp add: Let_def PGSIZE_def)
    then show ?thesis
      using some(3,4) page_run_Suc [of "pmap pt (kmemory s)" v pa perm 0]
      by (intro exI [of _ 0] exI [of _ 1] exI [of _ ?s'] exI [of _ S1] exI [of _ fr1]) simp
  qed
next
  case (Suc n v pa s S fr)
  have v: "v < 2 ^ 26" and none: "pmap pt (kmemory s) v = None" using Suc.prems(2) spec [OF Suc.prems(3), of 0] by simp_all
  show ?case
  proof (cases rule: map_one [OF Suc.prems(1) v none, where pa = pa and perm = perm, case_names none some])
    case (none s1 fr1 S1)
    then have "mappages_from pt (page_va v) (page_va (v + Suc n)) pa perm s = Inr (- 1, s1)" by (subst mappages_from.simps) simp
    then show ?thesis using none by (intro exI [of _ "- 1"] exI [of _ 0] exI [of _ s1] exI [of _ S1] exI [of _ fr1]) simp
  next
    case (some p s1 fr1 S1)
    let ?s2 = "store_pte p (PA2PTE pa OR perm OR PTE_V) s1"
    have "page_va (v + Suc n) - page_va v = page_va (Suc n)" unfolding page_va_add by simp
    then have "\<not> unat (page_va (v + Suc n) - page_va v) < PGSIZE" using unat_page_va [of "Suc n"] Suc.prems(2) by simp
    then have rec: "mappages_from pt (page_va v) (page_va (v + Suc n)) pa perm s =
        mappages_from pt (page_va (Suc v)) (page_va (Suc v + n)) (pa + of_nat PGSIZE) perm ?s2"
      using some(1,2) by (subst mappages_from.simps) (simp add: Let_def page_va_Suc)
    have ok2: "table_ok kend pt S1 fr1 ?s2" using some(3) by (simp add: vm_step_def)
    have "\<forall>i \<le> n. pmap pt (kmemory ?s2) (Suc v + i) = None"
      using Suc.prems(3) unfolding some(4) by (auto dest: spec [of _ "Suc _"])
    then obtain r k s' S' fr' where IH:
      "mappages_from pt (page_va (Suc v)) (page_va (Suc v + n)) (pa + of_nat PGSIZE) perm ?s2 = Inr (r, s')"
      "vm_step kend 2 pt S1 fr1 ?s2 S' fr' s'"
      "pmap pt (kmemory s') = pmap pt (kmemory ?s2) ++ page_run (Suc v) k (pa + of_nat PGSIZE) perm"
      "r = 0 \<and> k = Suc n \<or> r = - 1 \<and> k \<le> n \<and> fr' = []"
      using Suc.IH [OF ok2, of "Suc v" "pa + of_nat PGSIZE"] Suc.prems(2) by auto
    have "pmap pt (kmemory s') = pmap pt (kmemory s) ++ page_run v (Suc k) pa perm"
      unfolding IH(3) some(4) by (rule page_run_Suc)
    then show ?thesis unfolding rec IH(1)
      using vm_step_trans [OF some(3) IH(2)] IH(4)
      by (intro exI [of _ r] exI [of _ "Suc k"] exI [of _ s'] exI [of _ S'] exI [of _ fr']) auto
  qed
qed

section \<open>Unmapping\<close>

lemma walk_cong:
  assumes "tree kend l pt S (kmemory s)" "\<And>p a. p \<in> S \<Longrightarrow> in_page p a \<Longrightarrow> kmemory s a = kmemory s' a"
  shows "fst (walk_from l pt va False s') = fst (walk_from l pt va False s)"
  using assms
proof (induction l arbitrary: pt S)
  case (Suc l)
  let ?e = "pte_at (kmemory s) pt (idx (Suc l) va)"
  have pg: "page_ok kend pt" "pt \<in> S" using tree_root [OF Suc.prems(1)] by auto
  have e: "load_pte (pt + 8 * PX (Suc l) va) s = ?e" "load_pte (pt + 8 * PX (Suc l) va) s' = ?e"
    using load_slot [OF pg(1), of "Suc l" va s] load_slot [OF pg(1), of "Suc l" va s'] pte_at_cong [of pt "kmemory s" "kmemory s'", OF _ idx_less] Suc.prems(2) [OF pg(2)] by auto
  show ?case
  proof (cases "pte_has ?e PTE_V")
    case True
    obtain D where D: "tree kend l (PTE2PA ?e) D (kmemory s)" "D \<subseteq> S" by (rule tree_graft [OF Suc.prems(1) idx_less True])
    have "fst (walk_from l (PTE2PA ?e) va False s') = fst (walk_from l (PTE2PA ?e) va False s)"
      by (rule Suc.IH [OF D(1)]) (use Suc.prems(2) D(2) in blast)
    then show ?thesis by (simp add: e True Let_def)
  qed (simp add: e Let_def)
qed simp

text \<open>Freeing a page that is no part of the table.\<close>

lemma vm_kfree:
  assumes ok: "vm_ok kend l pt S fr s" and pa: "page_ok kend pa" "pa \<notin> S" "pa \<notin> set fr"
  obtains s' where "kfree kend pa s = Inr s'" "vm_ok kend l pt S (pa # fr) s'" "kmem.more s' = kmem.more s"
    "\<And>va. entry l pt va (kmemory s') = entry l pt va (kmemory s)"
    "\<And>va. fst (walk_from l pt va False s') = fst (walk_from l pt va False s)"
    "\<And>a. \<not> in_page pa a \<Longrightarrow> kmemory s' a = kmemory s a"
proof -
  have t: "tree kend l pt S (kmemory s)" and km: "kmem_ok kend fr s" and dis: "S \<inter> set fr = {}" and k: "0 < kend"
    using ok by (auto simp: vm_ok_def)
  obtain s' where s': "kfree kend pa s = Inr s'" "kmem_ok kend (pa # fr) s'" "kmem.more s' = kmem.more s"
    "\<And>a. \<not> in_page pa a \<Longrightarrow> kmemory s' a = kmemory s a" using kfree_ok [OF km pa(1,3) k] by blast
  have same: "kmemory s a = kmemory s' a" if "p \<in> S" "in_page p a" for p a
  proof -
    have "p \<noteq> pa" using that(1) pa(2) by auto
    then show ?thesis using s'(4) [OF pages_differ [OF tree_pages [OF t that(1)] pa(1) _ that(2)]] by simp
  qed
  have tc: "tree kend l pt S (kmemory s') \<and> (\<forall>va. entry l pt va (kmemory s') = entry l pt va (kmemory s))"
    by (rule tree_cong [OF t]) (rule same)
  show thesis
  proof (rule that [OF s'(1) _ s'(3)])
    show "vm_ok kend l pt S (pa # fr) s'" using tc s'(2) k dis pa(2) by (auto simp: vm_ok_def)
    show "entry l pt va (kmemory s') = entry l pt va (kmemory s)" for va using tc by blast
    show "fst (walk_from l pt va False s') = fst (walk_from l pt va False s)" for va
      by (rule walk_cong [OF t]) (rule same)
    show "\<not> in_page pa a \<Longrightarrow> kmemory s' a = kmemory s a" for a by (rule s'(4))
  qed
qed

text \<open>The physical pages of a run of mapped pages, in the order in which they are freed.\<close>

definition frames :: "(nat \<Rightarrow> u64 option) \<Rightarrow> nat \<Rightarrow> nat \<Rightarrow> u64 list" where
  "frames f v n = map (\<lambda>i. PTE2PA (the (f i))) [v..<v + n]"

lemma frames_Suc: "frames f v (Suc n) = PTE2PA (the (f v)) # frames f (Suc v) n"
proof -
  have "[v..<v + Suc n] = v # [Suc v..<Suc v + n]" by (simp add: upt_conv_Cons del: upt_Suc)
  then show ?thesis by (simp add: frames_def)
qed

lemma frames_cong: "(\<And>w. v \<le> w \<Longrightarrow> w < v + n \<Longrightarrow> f w = g w) \<Longrightarrow> frames f v n = frames g v n"
  by (simp add: frames_def)

definition unmapped :: "(nat \<Rightarrow> u64 option) \<Rightarrow> nat \<Rightarrow> nat \<Rightarrow> nat \<Rightarrow> u64 option" where
  "unmapped f v n = (\<lambda>w. if v \<le> w \<and> w < v + n then None else f w)"

lemma unmap_run:
  assumes "table_ok kend pt S fr s" "v + n \<le> 2 ^ 26"
    "\<And>w. v \<le> w \<Longrightarrow> w < v + n \<Longrightarrow> \<exists>e. pmap pt (kmemory s) w = Some e \<and> PTE_FLAGS e \<noteq> PTE_V"
    "do_free \<Longrightarrow> distinct (frames (pmap pt (kmemory s)) v n @ fr) \<and>
       (\<forall>q \<in> set (frames (pmap pt (kmemory s)) v n). page_ok kend q \<and> q \<notin> S)"
  shows "\<exists>s'. uvmunmap_from kend pt (page_va v) (page_va (v + n)) do_free s = Inr s' \<and>
    table_ok kend pt S (if do_free then rev (frames (pmap pt (kmemory s)) v n) @ fr else fr) s' \<and>
    kmem.more s' = kmem.more s \<and> pmap pt (kmemory s') = unmapped (pmap pt (kmemory s)) v n"
  using assms
proof (induction n arbitrary: v s fr)
  case 0
  have "unmapped (pmap pt (kmemory s)) v 0 = pmap pt (kmemory s)" by (auto simp: unmapped_def fun_eq_iff)
  then show ?case using "0.prems"(1) by (subst uvmunmap_from.simps) (simp add: frames_def)
next
  case (Suc n v s fr)
  let ?f = "pmap pt (kmemory s)"
  have v: "v < 2 ^ 26" using Suc.prems(2) by simp
  obtain e where e: "?f v = Some e" "PTE_FLAGS e \<noteq> PTE_V" using Suc.prems(3) [of v] by auto
  have t: "tree kend 2 pt S (kmemory s)" using Suc.prems(1) by (simp add: vm_ok_def)
  have ev: "entry 2 pt (page_va v) (kmemory s) = e" "pte_has e PTE_V" using e(1) by (auto simp: pmap_def split: if_splits)
  then obtain p where p: "fst (walk_from 2 pt (page_va v) False s) = Some p" "load_pte p s = e"
    using walk_entry [OF t, of "page_va v"] by (auto simp: pte_has_zero split: option.splits)
  have wk: "walk pt (page_va v) False s = Inr (Some p, s)"
    using p(1) walk_from_noalloc [of 2 pt "page_va v" s] page_va_below [OF v] by (auto simp: walk_def prod_eq_iff)
  have lt: "page_va v < page_va (v + Suc n)"
    using Suc.prems(2) by (simp add: word_less_nat_alt unat_page_va PGSIZE_def)
  have "\<exists>s1. (if do_free then kfree kend (PTE2PA e) s else Inr s) = Inr s1 \<and>
      vm_ok kend 2 pt S (if do_free then PTE2PA e # fr else fr) s1 \<and> kmem.more s1 = kmem.more s \<and>
      pmap pt (kmemory s1) = ?f \<and> fst (walk_from 2 pt (page_va v) False s1) = Some p"
  proof (cases do_free)
    case True
    then have "page_ok kend (PTE2PA e)" "PTE2PA e \<notin> S" "PTE2PA e \<notin> set fr"
      using Suc.prems(4) e(1) by (auto simp: frames_Suc)
    then show ?thesis using True p(1) by (elim vm_kfree [OF Suc.prems(1)]) (auto intro!: pmap_cong)
  qed (use Suc.prems(1) p(1) in auto)
  then obtain s1 where s1: "(if do_free then kfree kend (PTE2PA e) s else Inr s) = Inr s1"
      "vm_ok kend 2 pt S (if do_free then PTE2PA e # fr else fr) s1" "kmem.more s1 = kmem.more s"
      "pmap pt (kmemory s1) = ?f" "fst (walk_from 2 pt (page_va v) False s1) = Some p" by blast
  let ?s2 = "store_pte p 0 s1"
  have rec: "uvmunmap_from kend pt (page_va v) (page_va (v + Suc n)) do_free s =
      uvmunmap_from kend pt (page_va (Suc v)) (page_va (Suc v + n)) do_free ?s2"
    using lt wk p(2) e(2) ev(2) s1(1) by (subst uvmunmap_from.simps, cases do_free) (simp_all add: page_va_Suc)
  have pm2: "pmap pt (kmemory ?s2) = ?f(v := None)"
    using pmap_store [OF s1(2,5) v, of 0] s1(4) by (simp add: pte_has_zero)
  have fr2: "frames (pmap pt (kmemory ?s2)) (Suc v) n = frames ?f (Suc v) n" unfolding pm2 by (rule frames_cong) simp
  have "\<exists>s'. uvmunmap_from kend pt (page_va (Suc v)) (page_va (Suc v + n)) do_free ?s2 = Inr s' \<and>
    table_ok kend pt S (if do_free then rev (frames (pmap pt (kmemory ?s2)) (Suc v) n) @ (if do_free then PTE2PA e # fr else fr)
      else (if do_free then PTE2PA e # fr else fr)) s' \<and>
    kmem.more s' = kmem.more ?s2 \<and> pmap pt (kmemory s') = unmapped (pmap pt (kmemory ?s2)) (Suc v) n"
  proof (rule Suc.IH)
    show "table_ok kend pt S (if do_free then PTE2PA e # fr else fr) ?s2"
      using vm_step_store(1) [OF s1(2,5), of 0] by (simp add: vm_step_def)
    show "\<exists>e. pmap pt (kmemory ?s2) w = Some e \<and> PTE_FLAGS e \<noteq> PTE_V" if "Suc v \<le> w" "w < Suc v + n" for w
      using Suc.prems(3) [of w] that unfolding pm2 by simp
    show "distinct (frames (pmap pt (kmemory ?s2)) (Suc v) n @ (if do_free then PTE2PA e # fr else fr)) \<and>
       (\<forall>q \<in> set (frames (pmap pt (kmemory ?s2)) (Suc v) n). page_ok kend q \<and> q \<notin> S)" if do_free
      using Suc.prems(4) that e(1) unfolding fr2 by (auto simp: frames_Suc)
  qed (use Suc.prems(2) in simp)
  moreover have "unmapped (?f(v := None)) (Suc v) n = unmapped ?f v (Suc n)" by (auto simp: unmapped_def fun_eq_iff)
  ultimately show ?case
    unfolding rec pm2 using s1(3) e(1) by (simp add: fr2 [unfolded pm2] frames_Suc store_pte_def split: if_splits)
qed

section \<open>Freeing the table\<close>

text \<open>No entry of the lowest level is valid.\<close>

fun no_leaf :: "nat \<Rightarrow> u64 \<Rightarrow> mem \<Rightarrow> bool" where
  "no_leaf 0 pt m \<longleftrightarrow> (\<forall>i<512. \<not> pte_has (pte_at m pt i) PTE_V)"
| "no_leaf (Suc l) pt m \<longleftrightarrow> (\<forall>i<512. pte_has (pte_at m pt i) PTE_V \<longrightarrow> no_leaf l (PTE2PA (pte_at m pt i)) m)"

lemma no_leaf_cong:
  assumes "tree kend l pt S m" "\<And>p a. p \<in> S \<Longrightarrow> in_page p a \<Longrightarrow> m a = m' a" "no_leaf l pt m"
  shows "no_leaf l pt m'"
  using assms
proof (induction l arbitrary: pt S)
  case 0
  then have "pte_at m' pt i = pte_at m pt i" if "i < 512" for i
    using pte_at_cong [of pt m m' i] that by (auto simp: tree.simps)
  then show ?case using "0.prems"(3) by simp
next
  case (Suc l)
  have e: "pte_at m' pt i = pte_at m pt i" if "i < 512" for i
    using pte_at_cong [of pt m m' i] Suc.prems(2) [of pt] tree_root [OF Suc.prems(1)] that by auto
  have "no_leaf l (PTE2PA (pte_at m pt i)) m'" if i: "i < 512" "pte_has (pte_at m pt i) PTE_V" for i
  proof -
    obtain D where D: "tree kend l (PTE2PA (pte_at m pt i)) D m" "D \<subseteq> S" by (rule tree_graft [OF Suc.prems(1) i])
    show ?thesis by (rule Suc.IH [OF D(1)]) (use Suc.prems(2,3) D(2) i in auto)
  qed
  then show ?case using e by simp
qed

text \<open>A subtree whose pages were freed, cut off by clearing its entry.\<close>

lemma tree_prune:
  assumes t: "tree kend (Suc l) pt S m" and i: "i < 512" and v: "pte_has (pte_at m pt i) PTE_V"
  obtains D where "tree kend l (PTE2PA (pte_at m pt i)) D m" "D \<subseteq> S" "pt \<notin> D"
    "\<And>m'. (\<And>p a. p \<in> S - D - {pt} \<Longrightarrow> in_page p a \<Longrightarrow> m' a = m a) \<Longrightarrow>
       (\<And>j. j < 512 \<Longrightarrow> pte_at m' pt j = (if j = i then 0 else pte_at m pt j)) \<Longrightarrow>
       tree kend (Suc l) pt (S - D) m' \<and> (no_leaf (Suc l) pt m \<longrightarrow> no_leaf (Suc l) pt m')"
proof -
  obtain C where C: "page_ok kend pt" "S = insert pt (\<Union>i<512. C i)" "\<forall>i<512. pt \<notin> C i"
    "\<forall>i<512. \<forall>j<512. i \<noteq> j \<longrightarrow> C i \<inter> C j = {}"
    "\<And>i. i < 512 \<Longrightarrow> if pte_has (pte_at m pt i) PTE_V
       then interior (pte_at m pt i) \<and> tree kend l (PTE2PA (pte_at m pt i)) (C i) m else C i = {}"
    using t by (auto simp: tree.simps)
  have rest: "S - C i = insert pt (\<Union>j \<in> {..<512} - {i}. C j)" using C(2,3,4) i by blast
  show thesis
  proof (rule that [of "C i"])
    show "tree kend l (PTE2PA (pte_at m pt i)) (C i) m" using C(5) [OF i] v by simp
    show "C i \<subseteq> S" "pt \<notin> C i" using C(2,3) i by auto
    fix m'
    assume fr: "\<And>p a. p \<in> S - C i - {pt} \<Longrightarrow> in_page p a \<Longrightarrow> m' a = m a"
      and e: "\<And>j. j < 512 \<Longrightarrow> pte_at m' pt j = (if j = i then 0 else pte_at m pt j)"
    have same: "m a = m' a" if "j < 512" "j \<noteq> i" "p \<in> C j" "in_page p a" for j p a
    proof -
      have "p \<in> S - C i - {pt}" using that(1-3) C(2,3,4) i by auto
      then show ?thesis using fr that(4) by simp
    qed
    have Cj: "tree kend l (PTE2PA (pte_at m pt j)) (C j) m" if "j < 512" "pte_has (pte_at m pt j) PTE_V" for j
      using C(5) [OF that(1)] that(2) by simp
    have sub: "tree kend l (PTE2PA (pte_at m pt j)) (C j) m'" if j: "j < 512" "j \<noteq> i" "pte_has (pte_at m pt j) PTE_V" for j
      by (rule tree_cong [OF Cj [OF j(1,3)], THEN conjunct1]) (rule same [OF j(1,2)])
    have leaf: "no_leaf l (PTE2PA (pte_at m pt j)) m'"
      if j: "j < 512" "j \<noteq> i" "pte_has (pte_at m pt j) PTE_V" "no_leaf (Suc l) pt m" for j
    proof (rule no_leaf_cong [OF Cj [OF j(1,3)]])
      show "no_leaf l (PTE2PA (pte_at m pt j)) m" using j by simp
    qed (rule same [OF j(1,2)])
    have "tree kend (Suc l) pt (S - C i) m'"
      unfolding tree.simps
    proof (intro conjI exI [of _ "C(i := {})"] C(1))
      show "S - C i = insert pt (\<Union>j<512. (C(i := {})) j)" unfolding rest by auto
      show "\<forall>j<512. if pte_has (pte_at m' pt j) PTE_V
           then interior (pte_at m' pt j) \<and> tree kend l (PTE2PA (pte_at m' pt j)) ((C(i := {})) j) m'
           else (C(i := {})) j = {}"
      proof (intro allI impI)
        fix j :: nat assume j: "j < 512"
        show "if pte_has (pte_at m' pt j) PTE_V
           then interior (pte_at m' pt j) \<and> tree kend l (PTE2PA (pte_at m' pt j)) ((C(i := {})) j) m'
           else (C(i := {})) j = {}"
          unfolding e [OF j] using C(5) [OF j] sub [OF j] by (cases "j = i") (auto simp: pte_has_zero split: if_splits)
      qed
      show "\<forall>j<512. pt \<notin> (C(i := {})) j" using C(3) by simp
      show "\<forall>j<512. \<forall>k<512. j \<noteq> k \<longrightarrow> (C(i := {})) j \<inter> (C(i := {})) k = {}" using C(4) by simp
    qed
    moreover have "no_leaf (Suc l) pt m'" if "no_leaf (Suc l) pt m"
      using leaf [OF _ _ _ that] e by (auto simp: pte_has_zero)
    ultimately show "tree kend (Suc l) pt (S - C i) m' \<and> (no_leaf (Suc l) pt m \<longrightarrow> no_leaf (Suc l) pt m')" by blast
  qed
qed

lemma load_of_nat: "page_ok kend pt \<Longrightarrow> i < 512 \<Longrightarrow> load_pte (pt + 8 * of_nat i) s = pte_at (kmemory s) pt i"
  by (simp add: load_pte_def pte_at_def unat_slot)

lemma kmemory_store: "page_ok kend pt \<Longrightarrow> i < 512 \<Longrightarrow>
    kmemory (store_pte (pt + 8 * of_nat i) v s) = put64 (unat pt + 8 * i) v (kmemory s)"
  by (simp add: store_pte_def unat_slot)

text \<open>What freeing pages of \<open>S\<close> leaves: they are on the free list, and nothing else was written.\<close>

definition freed :: "nat \<Rightarrow> u64 set \<Rightarrow> u64 list \<Rightarrow> 'a kmem_scheme \<Rightarrow> u64 list \<Rightarrow> 'a kmem_scheme \<Rightarrow> bool" where
  "freed kend S fr s fr' s' \<longleftrightarrow> kmem_ok kend fr' s' \<and> set fr' = set fr \<union> S \<and> kmem.more s' = kmem.more s \<and>
     (\<forall>a. kmemory s' a \<noteq> kmemory s a \<longrightarrow> (\<exists>q \<in> S. in_page q a))"

lemma kfree_freed:
  assumes "0 < kend" "kmem_ok kend fr s" "page_ok kend pt" "pt \<notin> set fr"
  shows "\<exists>s'. kfree kend pt s = Inr s' \<and> freed kend {pt} fr s (pt # fr) s'"
proof -
  obtain s' where "kfree kend pt s = Inr s'" "kmem_ok kend (pt # fr) s'" "kmem.more s' = kmem.more s"
    "\<And>a. \<not> in_page pt a \<Longrightarrow> kmemory s' a = kmemory s a" using kfree_ok [OF assms(2,3,4,1)] by blast
  then show ?thesis by (auto simp: freed_def)
qed

text \<open>Entry \<open>i\<close> of a table: the subtree is freed and the entry cleared.\<close>

lemma vm_prune:
  assumes ok: "vm_ok kend (Suc l) pt S fr s" and i: "i < 512" and V: "pte_has (pte_at (kmemory s) pt i) PTE_V"
  obtains D where "vm_ok kend l (PTE2PA (pte_at (kmemory s) pt i)) D fr s" "D \<subseteq> S"
    "\<And>fr' t. freed kend D fr s fr' t \<Longrightarrow>
       vm_ok kend (Suc l) pt (S - D) fr' (store_pte (pt + 8 * of_nat i) 0 t) \<and>
       (no_leaf (Suc l) pt (kmemory s) \<longrightarrow> no_leaf (Suc l) pt (kmemory (store_pte (pt + 8 * of_nat i) 0 t))) \<and>
       (\<forall>j<512. pte_at (kmemory (store_pte (pt + 8 * of_nat i) 0 t)) pt j = (if j = i then 0 else pte_at (kmemory s) pt j)) \<and>
       (\<forall>a. kmemory (store_pte (pt + 8 * of_nat i) 0 t) a \<noteq> kmemory s a \<longrightarrow> (\<exists>q \<in> S. in_page q a))"
proof -
  let ?e = "pte_at (kmemory s) pt i"
  have kend: "0 < kend" and t: "tree kend (Suc l) pt S (kmemory s)" and km: "kmem_ok kend fr s"
    and dis: "S \<inter> set fr = {}" using ok by (auto simp: vm_ok_def)
  have pg: "page_ok kend pt" "pt \<in> S" using tree_root [OF t] by auto
  obtain D where D: "tree kend l (PTE2PA ?e) D (kmemory s)" "D \<subseteq> S" "pt \<notin> D"
    and prune: "\<And>m'. (\<And>p a. p \<in> S - D - {pt} \<Longrightarrow> in_page p a \<Longrightarrow> m' a = kmemory s a) \<Longrightarrow>
       (\<And>j. j < 512 \<Longrightarrow> pte_at m' pt j = (if j = i then 0 else pte_at (kmemory s) pt j)) \<Longrightarrow>
       tree kend (Suc l) pt (S - D) m' \<and> (no_leaf (Suc l) pt (kmemory s) \<longrightarrow> no_leaf (Suc l) pt m')"
    by (rule tree_prune [OF t i V]) blast
  show thesis
  proof (rule that [of D])
    show "vm_ok kend l (PTE2PA ?e) D fr s" using kend D(1,2) km dis by (auto simp: vm_ok_def)
    show "D \<subseteq> S" by (rule D(2))
    fix fr' t1 assume fd: "freed kend D fr s fr' t1"
    then have f: "kmem_ok kend fr' t1" "set fr' = set fr \<union> D"
        "\<And>a. kmemory t1 a \<noteq> kmemory s a \<Longrightarrow> \<exists>q \<in> D. in_page q a" by (auto simp: freed_def)
    let ?t = "store_pte (pt + 8 * of_nat i) 0 t1"
    have m: "kmemory ?t = put64 (unat pt + 8 * i) 0 (kmemory t1)" by (rule kmemory_store [OF pg(1) i])
    have same: "kmemory t1 a = kmemory s a" if "p \<in> S - D" "in_page p a" for p a
    proof -
      have "\<not> in_page q a" if "q \<in> D" for q
        using pages_differ [of kend p q a] tree_pages [OF t] tree_pages [OF D(1)] that \<open>p \<in> S - D\<close> \<open>in_page p a\<close> by blast
      then show ?thesis using f(3) by blast
    qed
    have off: "kmemory ?t a = kmemory t1 a" if "\<not> in_page pt a" for a unfolding m by (rule put_slot_other [OF i that])
    have at: "pte_at (kmemory ?t) pt j = (if j = i then 0 else pte_at (kmemory s) pt j)" if "j < 512" for j
      unfolding m using pte_at_put [of pt i 0 "kmemory t1" j] pte_at_cong [of pt "kmemory t1" "kmemory s" j] same [of pt] pg(2) D(3) that
      by auto
    have tr: "tree kend (Suc l) pt (S - D) (kmemory ?t) \<and>
        (no_leaf (Suc l) pt (kmemory s) \<longrightarrow> no_leaf (Suc l) pt (kmemory ?t))"
    proof (rule prune [OF _ at])
      fix p a assume p: "p \<in> S - D - {pt}" "in_page p a"
      then have "\<not> in_page pt a" using pages_differ [of kend p pt a] tree_pages [OF t] pg(1) by blast
      then show "kmemory ?t a = kmemory s a" using off same [of p a] p by auto
    qed
    have "chain (kmemory ?t) q fr' = chain (kmemory t1) q fr'" for q
    proof (rule chain_cong)
      fix z a assume z: "z \<in> set fr'" "in_page z a"
      have "z \<noteq> pt" using z(1) f(2) pg(2) D(3) dis by auto
      then have "\<not> in_page pt a" using pages_differ [of kend z pt a] f(1) z pg(1) by (auto simp: kmem_ok_def)
      then show "kmemory ?t a = kmemory t1 a" by (rule off)
    qed
    then have "kmem_ok kend fr' ?t" using f(1) by (simp add: kmem_ok_def store_pte_def)
    moreover have "(S - D) \<inter> set fr' = {}" using f(2) dis by auto
    moreover have "\<exists>q \<in> S. in_page q a" if "kmemory ?t a \<noteq> kmemory s a" for a
    proof (cases "in_page pt a")
      case False
      then have "kmemory t1 a \<noteq> kmemory s a" using that off by simp
      then show ?thesis using f(3) D(2) by blast
    qed (use pg(2) in blast)
    ultimately show "vm_ok kend (Suc l) pt (S - D) fr' ?t \<and>
       (no_leaf (Suc l) pt (kmemory s) \<longrightarrow> no_leaf (Suc l) pt (kmemory ?t)) \<and>
       (\<forall>j<512. pte_at (kmemory ?t) pt j = (if j = i then 0 else pte_at (kmemory s) pt j)) \<and>
       (\<forall>a. kmemory ?t a \<noteq> kmemory s a \<longrightarrow> (\<exists>q \<in> S. in_page q a))"
      using tr at kend by (simp add: vm_ok_def)
  qed
qed

lemma tree_interior:
  assumes "tree kend (Suc l) pt S m" "i < 512" "pte_has (pte_at m pt i) PTE_V"
  shows "pte_at m pt i AND (PTE_R OR PTE_W OR PTE_X) = 0"
  using assms unfolding tree.simps interior_def by metis

lemma tree_bare:
  assumes "tree kend (Suc l) pt S m" "\<forall>i<512. \<not> pte_has (pte_at m pt i) PTE_V"
  shows "S = {pt}"
  using assms unfolding tree.simps by auto

lemma freewalk_frees:
  assumes "vm_ok kend l pt S fr s" "no_leaf l pt (kmemory s)"
  shows "\<exists>s' fr'. freewalk (Suc l) kend pt s = Inr s' \<and> freed kend S fr s fr' s'"
  using assms
proof (induction l arbitrary: pt S fr s)
  case 0
  have p: "page_ok kend pt" "S = {pt}" "0 < kend" "kmem_ok kend fr s" "pt \<notin> set fr"
    using "0.prems"(1) by (auto simp: vm_ok_def tree.simps)
  let ?f = "\<lambda>i s. let pte = load_pte (pt + 8 * of_nat i) s in
         if pte_has pte PTE_V \<and> pte AND (PTE_R OR PTE_W OR PTE_X) = 0 then
           ebind (freewalk 0 kend (PTE2PA pte) s) (\<lambda>s. Inr (store_pte (pt + 8 * of_nat i) 0 s))
         else if pte_has pte PTE_V then Inl (Panic ''freewalk: leaf'') else Inr s"
  have "\<exists>s'. efold ?f [0..<512] s = Inr s' \<and> s' = s"
    by (rule efold_inv [where P = "\<lambda>_ t. t = s"]) (use "0.prems"(2) p(1) in \<open>simp_all add: load_of_nat Let_def\<close>)
  then show ?case using kfree_freed [OF p(3,4,1,5)] p(2) by (auto simp: Let_def)
next
  case (Suc l)
  let ?g = "\<lambda>i s. let pte = load_pte (pt + 8 * of_nat i) s in
         if pte_has pte PTE_V \<and> pte AND (PTE_R OR PTE_W OR PTE_X) = 0 then
           ebind (freewalk (Suc l) kend (PTE2PA pte) s) (\<lambda>s. Inr (store_pte (pt + 8 * of_nat i) 0 s))
         else if pte_has pte PTE_V then Inl (Panic ''freewalk: leaf'') else Inr s"
  let ?P = "\<lambda>j t. \<exists>S' fr'. vm_ok kend (Suc l) pt S' fr' t \<and> S' \<subseteq> S \<and> S' \<union> set fr' = S \<union> set fr \<and>
      no_leaf (Suc l) pt (kmemory t) \<and> kmem.more t = kmem.more s \<and>
      (\<forall>i<j. \<not> pte_has (pte_at (kmemory t) pt i) PTE_V) \<and>
      (\<forall>a. kmemory t a \<noteq> kmemory s a \<longrightarrow> (\<exists>q \<in> S. in_page q a))"
  have root: "page_ok kend pt" "pt \<in> S" using tree_root [of kend "Suc l" pt S] Suc.prems(1) by (auto simp: vm_ok_def)
  have "\<exists>t. efold ?g [0..<512] s = Inr t \<and> ?P 512 t"
  proof (rule efold_inv [where P = ?P])
    show "?P 0 s" using Suc.prems by (intro exI [of _ S] exI [of _ fr]) auto
    fix j t assume j: "j < 512" and "?P j t"
    then obtain S' fr' where P: "vm_ok kend (Suc l) pt S' fr' t" "S' \<subseteq> S" "S' \<union> set fr' = S \<union> set fr"
      "no_leaf (Suc l) pt (kmemory t)" "kmem.more t = kmem.more s"
      "\<And>i. i < j \<Longrightarrow> \<not> pte_has (pte_at (kmemory t) pt i) PTE_V"
      "\<And>a. kmemory t a \<noteq> kmemory s a \<Longrightarrow> \<exists>q \<in> S. in_page q a" by blast
    let ?e = "pte_at (kmemory t) pt j"
    have ld: "load_pte (pt + 8 * of_nat j) t = ?e" by (rule load_of_nat [OF root(1) j])
    show "\<exists>t'. ?g j t = Inr t' \<and> ?P (Suc j) t'"
    proof (cases "pte_has ?e PTE_V")
      case False
      then have "?g j t = Inr t" by (simp add: ld)
      moreover have "?P (Suc j) t" using P False by (intro exI [of _ S'] exI [of _ fr']) (auto simp: less_Suc_eq)
      ultimately show ?thesis by blast
    next
      case True
      have int: "?e AND (PTE_R OR PTE_W OR PTE_X) = 0" using tree_interior [OF _ j True, of kend l S'] P(1) by (simp add: vm_ok_def)
      obtain D where D: "vm_ok kend l (PTE2PA ?e) D fr' t" "D \<subseteq> S'"
        and pr: "\<And>fr1 t1. freed kend D fr' t fr1 t1 \<Longrightarrow>
           vm_ok kend (Suc l) pt (S' - D) fr1 (store_pte (pt + 8 * of_nat j) 0 t1) \<and>
           (no_leaf (Suc l) pt (kmemory t) \<longrightarrow> no_leaf (Suc l) pt (kmemory (store_pte (pt + 8 * of_nat j) 0 t1))) \<and>
           (\<forall>i<512. pte_at (kmemory (store_pte (pt + 8 * of_nat j) 0 t1)) pt i = (if i = j then 0 else pte_at (kmemory t) pt i)) \<and>
           (\<forall>a. kmemory (store_pte (pt + 8 * of_nat j) 0 t1) a \<noteq> kmemory t a \<longrightarrow> (\<exists>q \<in> S'. in_page q a))"
        by (rule vm_prune [OF P(1) j True]) blast
      have "no_leaf l (PTE2PA ?e) (kmemory t)" using P(4) j True by simp
      then obtain t1 fr1 where t1: "freewalk (Suc l) kend (PTE2PA ?e) t = Inr t1" "freed kend D fr' t fr1 t1"
        using Suc.IH [OF D(1)] by blast
      let ?t = "store_pte (pt + 8 * of_nat j) 0 t1"
      have "?g j t = Inr ?t" using True int t1(1) by (simp add: ld del: freewalk.simps)
      moreover have "?P (Suc j) ?t"
      proof (intro exI [of _ "S' - D"] exI [of _ fr1] conjI)
        note q = pr [OF t1(2)]
        show "vm_ok kend (Suc l) pt (S' - D) fr1 ?t" "no_leaf (Suc l) pt (kmemory ?t)" using q P(4) by blast+
        show "S' - D \<subseteq> S" using P(2) by blast
        show "S' - D \<union> set fr1 = S \<union> set fr" using t1(2) P(3) D(2) by (auto simp: freed_def)
        show "kmem.more ?t = kmem.more s" using t1(2) P(5) by (simp add: freed_def store_pte_def)
        show "\<forall>i<Suc j. \<not> pte_has (pte_at (kmemory ?t) pt i) PTE_V"
          using q P(6) j by (auto simp: less_Suc_eq pte_has_zero)
        show "\<forall>a. kmemory ?t a \<noteq> kmemory s a \<longrightarrow> (\<exists>q\<in>S. in_page q a)" using q P(2,7) by (metis subsetD)
      qed
      ultimately show ?thesis by blast
    qed
  qed
  then obtain t S' fr' where t: "efold ?g [0..<512] s = Inr t" and P: "vm_ok kend (Suc l) pt S' fr' t" "S' \<union> set fr' = S \<union> set fr"
      "kmem.more t = kmem.more s" "\<forall>i<512. \<not> pte_has (pte_at (kmemory t) pt i) PTE_V"
      "\<And>a. kmemory t a \<noteq> kmemory s a \<Longrightarrow> \<exists>q \<in> S. in_page q a" by blast
  have S': "S' = {pt}" using tree_bare [OF _ P(4), of kend l S'] P(1) by (simp add: vm_ok_def)
  have "0 < kend" "kmem_ok kend fr' t" "pt \<notin> set fr'" using P(1) S' by (auto simp: vm_ok_def)
  then obtain s' where s': "kfree kend pt t = Inr s'" "freed kend {pt} fr' t (pt # fr') s'" using kfree_freed root(1) by blast
  have "freed kend S fr s (pt # fr') s'"
    unfolding freed_def
  proof (intro conjI)
    show "set (pt # fr') = set fr \<union> S" using P(2) S' by auto
    show "\<forall>a. kmemory s' a \<noteq> kmemory s a \<longrightarrow> (\<exists>q\<in>S. in_page q a)"
      using s'(2) P(5) root(2) unfolding freed_def by (metis singletonD)
  qed (use s'(2) P(3) in \<open>auto simp: freed_def\<close>)
  then show ?case using t s'(1) by (auto simp: Let_def)
qed

lemma pmap_no_leaf:
  assumes "pmap pt m = Map.empty"
  shows "no_leaf 2 pt m"
proof -
  have "\<not> pte_has (pte_at m (PTE2PA (pte_at m (PTE2PA (pte_at m pt i)) j)) k) PTE_V"
    if ijk: "i < 512" "j < 512" "k < 512" and V: "pte_has (pte_at m pt i) PTE_V" "pte_has (pte_at m (PTE2PA (pte_at m pt i)) j) PTE_V"
    for i j k
  proof -
    let ?v = "(i * 512 + j) * 512 + k"
    have v: "?v < 2 ^ 27" "?v < 2 ^ 40" using ijk by simp_all
    have g: "(a * 512 + k) div 512 = a" "(a * 512 + k) mod 512 = k" for a using ijk(3) by simp_all
    have d: "?v div 512 = i * 512 + j" "?v mod 512 = k" by (rule g)+
    have "?v div (512 * 512) = ?v div 512 div 512" by (rule div_mult2_eq)
    then have d2: "?v div (512 * 512) = i" unfolding d using ijk(2) by simp
    have x: "idx 0 (page_va ?v) = k" "idx (Suc 0) (page_va ?v) = j" "idx 2 (page_va ?v) = i"
      unfolding idx_page [OF v(2)] power_0 power_one_right One_nat_def [symmetric] power2_eq_square d2 div_by_1 d
      using ijk by simp_all
    have "\<not> pte_has (entry 2 pt (page_va ?v) m) PTE_V"
      using fun_cong [OF assms, of ?v] v(1) by (simp add: pmap_def split: if_splits)
    then show ?thesis using x V by (simp add: numeral_2_eq_2 entry.simps)
  qed
  then show ?thesis by (simp add: numeral_2_eq_2)
qed

section \<open>An address space of one page\<close>

lemma tree_link:
  assumes t: "tree kend l c T m" and pt: "page_ok kend pt" "pt \<notin> T" and i: "i < 512"
    and z: "\<And>j. j < 512 \<Longrightarrow> pte_at m pt j = 0"
  defines "m' \<equiv> put64 (unat pt + 8 * i) (PA2PTE c OR PTE_V) m"
  shows "tree kend (Suc l) pt (insert pt T) m'"
    and "entry (Suc l) pt va m' = (if idx (Suc l) va = i then entry l c va m else 0)"
    and "\<not> in_page pt a \<Longrightarrow> m' a = m a"
proof -
  show off: "m' a = m a" if "\<not> in_page pt a" for a unfolding m'_def by (rule put_slot_other [OF i that])
  have c: "page_ok kend c" using tree_root [OF t] by simp
  have at: "pte_at m' pt j = (if j = i then PA2PTE c OR PTE_V else 0)" if "j < 512" for j
    unfolding m'_def using z [OF that] by (simp add: pte_at_put)
  have sub: "tree kend l c T m' \<and> (\<forall>va. entry l c va m' = entry l c va m)"
  proof (rule tree_cong [OF t])
    fix p a assume p: "p \<in> T" "in_page p a"
    have "p \<noteq> pt" using p(1) pt(2) by auto
    then show "m a = m' a" using off [OF pages_differ [OF tree_pages [OF t p(1)] pt(1) _ p(2)]] by simp
  qed
  show "tree kend (Suc l) pt (insert pt T) m'"
    unfolding tree.simps
  proof (intro conjI exI [of _ "(\<lambda>_. {})(i := T)"] pt(1))
    show "\<forall>j<512. if pte_has (pte_at m' pt j) PTE_V
           then interior (pte_at m' pt j) \<and> tree kend l (PTE2PA (pte_at m' pt j)) (((\<lambda>_. {})(i := T)) j) m'
           else ((\<lambda>_. {})(i := T)) j = {}"
      using at sub table_entry [OF c] by (auto simp: pte_has_zero)
  qed (use pt(2) i in \<open>auto split: if_splits\<close>)
  show "entry (Suc l) pt va m' = (if idx (Suc l) va = i then entry l c va m else 0)"
    using at [OF idx_less, of "Suc l" va] sub table_entry [OF c] by (simp add: entry.simps pte_has_zero)
qed

definition one_page :: "byte \<Rightarrow> kmem" where
  "one_page c = \<lparr>kmemory = put64 0x80003000 (PA2PTE 0x80002000 OR PTE_V) (put64 0x80002000 (PA2PTE 0x80001000 OR PTE_V)
     (put64 0x80001000 (PA2PTE 0x80004000 OR 0x17) (memset 0x80004000 c PGSIZE (\<lambda>_. 0)))), freelist = 0\<rparr>"

lemma one_page_table:
  "table_ok 0x80000000 0x80003000 {0x80003000, 0x80002000, 0x80001000} [] (one_page c)"
  "pmap 0x80003000 (kmemory (one_page c)) = [0 \<mapsto> PA2PTE 0x80004000 OR 0x17]"
proof -
  let ?U = "memset 0x80004000 c PGSIZE (\<lambda>_. 0)"
  let ?e = "PA2PTE 0x80004000 OR 0x17"
  let ?m0 = "put64 0x80001000 ?e ?U"
  let ?m1 = "put64 0x80002000 (PA2PTE 0x80001000 OR PTE_V) ?m0"
  let ?m2 = "put64 0x80003000 (PA2PTE 0x80002000 OR PTE_V) ?m1"
  have ok: "page_ok 0x80000000 0x80001000" "page_ok 0x80000000 0x80002000" "page_ok 0x80000000 0x80003000"
    by (simp_all add: page_ok_def PGSIZE_def PHYSTOP_def KERNBASE_def)
  have z0: "pte_at ?m0 0x80001000 j = (if j = 0 then ?e else 0)" if "j < 512" for j
  proof -
    have "pte_at ?U 0x80001000 j = pte_at (\<lambda>_. 0) 0x80001000 j"
      by (rule pte_at_cong [OF _ that]) (simp add: in_page_def PGSIZE_def memset_fills)
    then show ?thesis using pte_at_put [of "0x80001000" 0 ?e ?U j] by (simp add: pte_at_def)
  qed
  have z1: "pte_at ?m0 0x80002000 j = 0" if "j < 512" for j
  proof -
    have "pte_at ?m0 0x80002000 j = pte_at (\<lambda>_. 0) 0x80002000 j"
      by (rule pte_at_cong [OF _ that]) (simp add: in_page_def PGSIZE_def put64_other memset_fills)
    then show ?thesis by (simp add: pte_at_def)
  qed
  have z2: "pte_at ?m1 0x80003000 j = 0" if "j < 512" for j
  proof -
    have "pte_at ?m1 0x80003000 j = pte_at (\<lambda>_. 0) 0x80003000 j"
      by (rule pte_at_cong [OF _ that]) (simp add: in_page_def PGSIZE_def put64_other memset_fills)
    then show ?thesis by (simp add: pte_at_def)
  qed
  have t0: "tree 0x80000000 0 0x80001000 {0x80001000} ?m0" using ok(1) by (simp add: tree.simps)
  note l1 = tree_link [OF t0 ok(2), of 0, simplified, OF z1, simplified]
  note l2 = tree_link [OF l1(1) ok(3), of 0, simplified, OF z2, simplified]
  have two: "Suc (Suc 0) = (2 :: nat)" by simp
  have tr: "tree 0x80000000 2 0x80003000 {0x80003000, 0x80002000, 0x80001000} ?m2"
    using l2(1) by (simp add: numeral_2_eq_2)
  then show "table_ok 0x80000000 0x80003000 {0x80003000, 0x80002000, 0x80001000} [] (one_page c)"
    by (simp add: vm_ok_def kmem_ok_def one_page_def)
  have en: "entry 2 0x80003000 va ?m2 = (if idx 2 va = 0 \<and> idx 1 va = 0 \<and> idx 0 va = 0 then ?e else 0)" for va
    using l2(2) [of va] l1(2) [of va] z0 [OF idx_less, of 0 va] z0 [of 0] by (simp add: numeral_2_eq_2 entry.simps(1))
  have V: "pte_has ?e PTE_V"
    using pte_has_V [of "PA2PTE 0x80004000 OR 0x17"] by (simp add: PTE_V_def or.assoc)
  show "pmap 0x80003000 (kmemory (one_page c)) = [0 \<mapsto> ?e]"
  proof
    fix v
    show "pmap 0x80003000 (kmemory (one_page c)) v = [0 \<mapsto> ?e] v"
    proof (cases "v < 2 ^ 27")
      case True
      have p0: "idx j (page_va 0) = 0" for j by (simp add: idx_page)
      have "(idx 2 (page_va v) = 0 \<and> idx 1 (page_va v) = 0 \<and> idx 0 (page_va v) = 0) \<longleftrightarrow> v = 0"
        using same_page [OF True, of 0] p0 by (auto simp: le_Suc_eq numeral_2_eq_2)
      then show ?thesis using True V by (auto simp: pmap_def one_page_def en pte_has_zero)
    qed (auto simp: pmap_def)
  qed
qed

section \<open>What the operations promise\<close>

text \<open>
  Claim C11. \<open>mappages\<close> adds a run of pages to the map of the table and changes nothing else in it: when
  the pages are not mapped yet and lie below \<^verbatim>\<open>MAXVA\<close>, it does not panic; it returns 0 with all \<open>n\<close>
  pages mapped to consecutive physical pages with the permissions asked for, or \<open>-1\<close> with a proper prefix
  of them mapped, and then only because no page is free. Every page it needed for the tables came from
  the free list, and it stays a tree that shares no page with it.
\<close>

theorem mappages_refines:
  assumes "table_ok kend pt S fr s" "0 < n" "v + n \<le> 2 ^ 26" "\<forall>i<n. pmap pt (kmemory s) (v + i) = None"
  shows "\<exists>r k s' S' fr'. mappages pt (page_va v) (page_va n) pa perm s = Inr (r, s') \<and>
    pmap pt (kmemory s') = pmap pt (kmemory s) ++ page_run v k pa perm \<and>
    (r = 0 \<and> k = n \<or> r = - 1 \<and> k < n \<and> freelist s' = 0) \<and>
    table_ok kend pt S' fr' s' \<and> S \<subseteq> S' \<and> S' \<union> set fr' = S \<union> set fr"
proof -
  obtain l where l: "n = Suc l" using assms(2) by (cases n) auto
  have u: "unat (page_va v) = v * PGSIZE" "unat (page_va n) = n * PGSIZE" using assms(3) by (simp_all add: unat_page_va)
  have "page_va n \<noteq> 0" using u(2) assms(2) by (auto simp: PGSIZE_def)
  moreover have "page_va v + page_va n - of_nat PGSIZE = page_va (v + l)"
    unfolding l page_va_add [symmetric] using page_va_Suc [of "v + l", symmetric] by simp
  ultimately have e: "mappages pt (page_va v) (page_va n) pa perm s = mappages_from pt (page_va v) (page_va (v + l)) pa perm s"
    unfolding mappages_def u by simp
  obtain r k s' S' fr' where m: "mappages_from pt (page_va v) (page_va (v + l)) pa perm s = Inr (r, s')"
    "vm_step kend 2 pt S fr s S' fr' s'" "pmap pt (kmemory s') = pmap pt (kmemory s) ++ page_run v k pa perm"
    "r = 0 \<and> k = Suc l \<or> r = - 1 \<and> k \<le> l \<and> fr' = []"
    using mappages_run [OF assms(1), of v l pa perm] assms(3,4) l by auto
  have "freelist s' = 0" if "fr' = []" using m(2) that by (simp add: vm_step_def vm_ok_def kmem_ok_def)
  then show ?thesis unfolding e m(1) using m(2,3,4) l
    by (intro exI [of _ r] exI [of _ k] exI [of _ s'] exI [of _ S'] exI [of _ fr']) (auto simp: vm_step_def)
qed

theorem mappages_refines_witness:
  "\<exists>r k s'. mappages 0x80003000 (page_va 5) (page_va 2) 0x80005000 6 (one_page 7) = Inr (r, s') \<and>
    pmap 0x80003000 (kmemory s') = [0 \<mapsto> PA2PTE 0x80004000 OR 0x17] ++ page_run 5 k 0x80005000 6"
  using mappages_refines [OF one_page_table(1) [of 7], of 2 5 "0x80005000" 6] unfolding one_page_table(2) by auto

text \<open>
  Claim C12. \<open>uvmfree\<close> returns a whole address space to the allocator. When exactly the pages below the size
  are mapped, each to a page of its own, it neither panics nor runs past the three levels of
  the table, and afterwards the free list holds, once each, the pages that were free before, the user's pages and
  the pages of the table.
\<close>

theorem uvmfree_returns_all:
  assumes "table_ok kend pt S fr s" "dom (pmap pt (kmemory s)) = {..<n}" "n \<le> 2 ^ 26"
    "PGROUNDUP64 sz = page_va n" "sz = 0 \<longrightarrow> n = 0"
    "\<forall>w<n. PTE_FLAGS (the (pmap pt (kmemory s) w)) \<noteq> PTE_V"
    "distinct (frames (pmap pt (kmemory s)) 0 n @ fr)"
    "\<forall>q \<in> set (frames (pmap pt (kmemory s)) 0 n). page_ok kend q \<and> q \<notin> S"
  shows "\<exists>s' fr'. uvmfree 3 kend pt sz s = Inr s' \<and> kmem_ok kend fr' s' \<and>
    set fr' = set fr \<union> set (frames (pmap pt (kmemory s)) 0 n) \<union> S"
proof -
  let ?f = "pmap pt (kmemory s)"
  have "\<exists>e. ?f w = Some e \<and> PTE_FLAGS e \<noteq> PTE_V" if "w < 0 + n" for w
  proof -
    have "w \<in> dom ?f" using assms(2) that by simp
    then obtain e where "?f w = Some e" by blast
    then show ?thesis using assms(6) that by auto
  qed
  then obtain s1 where s1: "uvmunmap_from kend pt (page_va 0) (page_va (0 + n)) True s = Inr s1"
    "table_ok kend pt S (rev (frames ?f 0 n) @ fr) s1" "pmap pt (kmemory s1) = unmapped ?f 0 n"
    using unmap_run [of kend pt S fr s 0 n True] assms(1,3,7,8) by auto
  have "unmapped ?f 0 n = Map.empty"
  proof
    show "unmapped ?f 0 n w = None" for w
      using assms(2) domIff [of w ?f] by (cases "w < n") (auto simp: unmapped_def)
  qed
  then have "no_leaf 2 pt (kmemory s1)" using pmap_no_leaf s1(3) by simp
  moreover have three: "Suc 2 = (3 :: nat)" by simp
  ultimately obtain s' fr' where s': "freewalk 3 kend pt s1 = Inr s'" "freed kend S (rev (frames ?f 0 n) @ fr) s1 fr' s'"
    using freewalk_frees [OF s1(2)] unfolding three by blast
  have z: "uvmunmap_from kend pt (page_va 0) (page_va 0) True s = Inr s" by (subst uvmunmap_from.simps) simp
  have dv: "page_va n div of_nat PGSIZE = of_nat n" 
  proof -
    have "unat (page_va n div of_nat PGSIZE) = n" using assms(3) by (simp add: unat_div unat_page_va PGSIZE_def)
    then show ?thesis using assms(3) by (simp add: word_unat_eq_iff unat_of_nat)
  qed
  have p0: "0 + of_nat n * of_nat PGSIZE = page_va n" "page_va 0 = 0" by (simp_all add: page_va_def)
  have um: "(if sz > 0 then uvmunmap kend pt 0 (PGROUNDUP64 sz div of_nat PGSIZE) True s else Inr s) = Inr s1"
  proof (cases "sz = 0")
    case True
    then show ?thesis using s1(1) z assms(5) by simp
  next
    case False
    then show ?thesis using s1(1) p0 word_gt_0 [of sz] unfolding uvmunmap_def assms(4) dv by simp
  qed
  have "set fr' = set fr \<union> set (frames ?f 0 n) \<union> S" "kmem_ok kend fr' s'" using s'(2) by (auto simp: freed_def)
  moreover have "uvmfree 3 kend pt sz s = Inr s'" unfolding uvmfree_def um using s'(1) by simp
  ultimately show ?thesis by blast
qed

theorem uvmfree_returns_all_witness:
  "\<exists>s' fr'. uvmfree 3 0x80000000 0x80003000 0xFFF (one_page 7) = Inr s' \<and> kmem_ok 0x80000000 fr' s' \<and>
    set fr' = {0x80004000, 0x80003000, 0x80002000, 0x80001000}"
proof -
  let ?e = "PA2PTE 0x80004000 OR 0x17"
  have U: "page_ok 0x80000000 0x80004000" by (simp add: page_ok_def PGSIZE_def PHYSTOP_def KERNBASE_def)
  have fl: "drop_bit 10 (0x17 :: u64) = 0" by (simp add: drop_bit_eq_div)
  note rt = pte_roundtrip [OF page_bits [OF U] fl]
  have "frames [0 \<mapsto> ?e] 0 1 = [0x80004000]" by (simp add: frames_def rt(1))
  moreover have "PGROUNDUP64 0xFFF = page_va 1" by (simp add: PGROUNDUP64_def page_va_def PGSIZE_def)
  ultimately show ?thesis
    using uvmfree_returns_all [OF one_page_table(1) [of 7], of 1 "0xFFF"] U unfolding one_page_table(2)
    by (auto simp: rt(2) PTE_V_def insert_commute)
qed

end
