(* ===== verification/Vm_Copy.thy ===== *)
theory Vm_Copy
  imports Page_Map
begin

text \<open>
  The copies between kernel and user memory, byte by byte over the map of the page table: \<open>copyin\<close>
  reads and \<open>copyout\<close> writes the bytes that the map gives to consecutive user addresses, across
  page boundaries, and what was copied out is what is copied in.
\<close>

section \<open>Pages of user addresses\<close>

lemma unat_PGROUNDDOWN64: "unat (PGROUNDDOWN64 a) = unat a div PGSIZE * PGSIZE"
proof -
  have m: "(4095 :: u64) = mask 12" by (simp add: mask_eq_exp_minus_1)
  have "PGROUNDDOWN64 a = push_bit 12 (drop_bit 12 a)"
    unfolding PGROUNDDOWN64_def m by (rule bit_word_eqI) (auto simp: bit_simps)
  also have "\<dots> = of_nat (unat a div PGSIZE * PGSIZE)"
    by (simp add: word_unat_eq_iff push_bit_eq_mult unat_word_ariths unat_drop_bit_eq drop_bit_eq_div PGSIZE_def unat_of_nat)
  finally have "unat (PGROUNDDOWN64 a) = unat a div PGSIZE * PGSIZE mod 2 ^ 64" by (simp add: unat_of_nat del: of_nat_mult)
  moreover have "unat a div PGSIZE * PGSIZE < 2 ^ 64"
    by (rule le_less_trans [OF div_times_less_eq_dividend]) (use unsigned_less [of a, where 'a = nat] in simp)
  ultimately show ?thesis using mod_less by metis
qed

lemma page_offset: "unat (a - PGROUNDDOWN64 a) = unat a mod PGSIZE"
proof -
  have "PGROUNDDOWN64 a \<le> a" by (simp add: word_le_nat_alt unat_PGROUNDDOWN64)
  then show ?thesis by (simp add: unat_sub unat_PGROUNDDOWN64 minus_div_mult_eq_mod)
qed

lemma offset_word: "of_nat (unat a mod PGSIZE) = a - PGROUNDDOWN64 a"
  unfolding page_offset [symmetric] by simp

text \<open>The addresses of the rest of the page of \<open>a\<close>, and the page after it.\<close>

lemma in_same_page:
  fixes a :: u64
  assumes "unat a mod PGSIZE + k < PGSIZE"
  shows "unat (a + of_nat k) = unat a + k" "unat (a + of_nat k) div PGSIZE = unat a div PGSIZE"
    "unat (a + of_nat k) mod PGSIZE = unat a mod PGSIZE + k"
proof -
  let ?q = "unat a div PGSIZE" and ?r = "unat a mod PGSIZE"
  have a: "unat a = ?q * PGSIZE + ?r" by simp
  have "unat a < 2 ^ 52 * PGSIZE" using unsigned_less [of a, where 'a = nat] by (simp add: PGSIZE_def)
  then have "?q < 2 ^ 52" by (rule less_mult_imp_div_less)
  moreover have "x + k < 2 ^ 64" if "x = q * 4096 + r" "q < 2 ^ 52" "r + k < 4096" for x q r :: nat using that by simp
  ultimately have "unat a + k < 2 ^ 64" using a assms unfolding PGSIZE_def by blast
  then show u: "unat (a + of_nat k) = unat a + k" by (simp add: unat_word_ariths unat_of_nat)
  have e: "unat a + k = (?r + k) + ?q * PGSIZE" using a by simp
  show "unat (a + of_nat k) div PGSIZE = ?q" unfolding u e using assms by (simp only: div_mult_self1) simp
  show "unat (a + of_nat k) mod PGSIZE = ?r + k" unfolding u e using assms by (simp only: mod_mult_self1) simp
qed

lemma next_page: "PGROUNDDOWN64 a + of_nat PGSIZE = a + of_nat (PGSIZE - unat a mod PGSIZE)"
proof -
  have "of_nat (PGSIZE - unat a mod PGSIZE) = of_nat PGSIZE - (of_nat (unat a mod PGSIZE) :: u64)"
    by (rule of_nat_diff) (simp add: PGSIZE_def less_imp_le)
  then show ?thesis by (simp add: offset_word)
qed

lemma rounddown_below: "PGROUNDDOWN64 a < MAXVA \<longleftrightarrow> a < MAXVA"
proof -
  have "unat a div PGSIZE * PGSIZE < 2 ^ 38 \<longleftrightarrow> unat a < 2 ^ 38" by (simp add: PGSIZE_def) linarith
  then show ?thesis by (simp add: word_less_nat_alt unat_PGROUNDDOWN64 MAXVA_def)
qed

lemma unat_frame:
  assumes "k < PGSIZE"
  shows "unat (PTE2PA e + of_nat k) = unat (PTE2PA e) + k"
proof -
  have "take_bit 12 (PTE2PA e) = 0" by (rule bit_word_eqI) (simp add: PTE2PA_def bit_simps)
  then have "unat (PTE2PA e) mod PGSIZE = 0"
    using unsigned_take_bit_eq [of 12 "PTE2PA e"] by (simp add: take_bit_eq_mod PGSIZE_def)
  then show ?thesis using in_same_page(1) [of "PTE2PA e" k] assms by simp
qed

section \<open>Bytes of a user address space\<close>

text \<open>The entry that translates a user address, and the physical address of the byte there.\<close>

definition uentry :: "(nat \<Rightarrow> u64 option) \<Rightarrow> u64 \<Rightarrow> u64 option" where
  "uentry f va = (if va < MAXVA then case f (unat va div PGSIZE) of
       Some e \<Rightarrow> if pte_has e PTE_U \<and> PTE2PA e \<noteq> 0 then Some e else None | None \<Rightarrow> None else None)"

definition ubyte :: "(nat \<Rightarrow> u64 option) \<Rightarrow> u64 \<Rightarrow> nat option" where
  "ubyte f va = map_option (\<lambda>e. unat (PTE2PA e) + unat va mod PGSIZE) (uentry f va)"

lemma uentry_same_page:
  assumes "unat a mod PGSIZE + k < PGSIZE"
  shows "uentry f (a + of_nat k) = uentry f a"
proof -
  have "a + of_nat k < MAXVA \<longleftrightarrow> a < MAXVA"
    using rounddown_below [of a] rounddown_below [of "a + of_nat k"] in_same_page(2) [OF assms]
    by (simp add: word_less_nat_alt unat_PGROUNDDOWN64)
  then show ?thesis by (simp add: uentry_def in_same_page(2) [OF assms])
qed

lemma walkaddr_uentry:
  assumes "tree kend 2 pt S (kmemory s)"
  shows "walkaddr pt (PGROUNDDOWN64 va) s = (case uentry (pmap pt (kmemory s)) va of Some e \<Rightarrow> PTE2PA e | None \<Rightarrow> 0)"
  using walkaddr_pmap [OF assms, of "PGROUNDDOWN64 va"]
  by (auto simp: rounddown_below unat_PGROUNDDOWN64 uentry_def PGSIZE_def split: option.splits)

text \<open>The bytes that one pass of the loops handles, and those that are left.\<close>

lemma room_split:
  fixes va :: u64
  assumes "0 < len"
  defines "n \<equiv> page_room va len"
  shows "n \<le> len" "\<And>k. k < n \<Longrightarrow> unat va mod PGSIZE + k < PGSIZE" "n < len \<Longrightarrow> PGROUNDDOWN64 va + of_nat PGSIZE = va + of_nat n"
  using next_page [of va] by (auto simp: n_def page_room_def min_def split: if_splits)

lemma all_split: "n \<le> len \<Longrightarrow> (\<forall>i<len. P i) \<longleftrightarrow> (\<forall>i<n. P i) \<and> (\<forall>i<len - n. P (n + i))" for len :: nat
  by (metis add_diff_inverse_nat less_diff_conv2 nat_add_left_cancel_less not_less order_less_le_trans)

lemma copyin_reads:
  assumes "tree kend 2 pt S (kmemory s)"
  shows "fst (copyin pt va len s) \<longleftrightarrow> (\<forall>i<len. ubyte (pmap pt (kmemory s)) (va + of_nat i) \<noteq> None)"
    and "fst (copyin pt va len s) \<Longrightarrow>
      snd (copyin pt va len s) = map (\<lambda>i. kmemory s (the (ubyte (pmap pt (kmemory s)) (va + of_nat i)))) [0..<len]"
proof -
  let ?f = "pmap pt (kmemory s)"
  have "(fst (copyin pt va len s) \<longleftrightarrow> (\<forall>i<len. ubyte ?f (va + of_nat i) \<noteq> None)) \<and>
    (fst (copyin pt va len s) \<longrightarrow> snd (copyin pt va len s) = map (\<lambda>i. kmemory s (the (ubyte ?f (va + of_nat i)))) [0..<len])"
  proof (induction len arbitrary: va rule: less_induct)
    case (less len)
    show ?case
    proof (cases "len = 0")
      case True
      then show ?thesis by (simp add: copyin.simps)
    next
      case False
      let ?n = "page_room va len" and ?va' = "PGROUNDDOWN64 va + of_nat PGSIZE"
      have n: "0 < ?n" "?n \<le> len" using page_room_pos [of len va] False room_split(1) [of len va] by auto
      have same: "uentry ?f (va + of_nat k) = uentry ?f va" "unat (va + of_nat k) mod PGSIZE = unat va mod PGSIZE + k"
        if "k < ?n" for k
        using uentry_same_page in_same_page(3) room_split(2) [of len k va] False that by auto
      have rest: "ubyte ?f (?va' + of_nat i) = ubyte ?f (va + of_nat (?n + i))" if "i < len - ?n" for i
        using room_split(3) [of len va] False that by (simp add: add.assoc)
      have IH: "fst (copyin pt ?va' (len - ?n) s) \<longleftrightarrow> (\<forall>i<len - ?n. ubyte ?f (va + of_nat (?n + i)) \<noteq> None)"
        "fst (copyin pt ?va' (len - ?n) s) \<Longrightarrow> snd (copyin pt ?va' (len - ?n) s) =
           map (\<lambda>i. kmemory s (the (ubyte ?f (va + of_nat (?n + i))))) [0..<len - ?n]"
        using less.IH [of "len - ?n" ?va'] n rest by auto
      show ?thesis
      proof (cases "uentry ?f va")
        case None
        then have "copyin pt va len s = (False, [])" using False walkaddr_uentry [OF assms, of va] by (simp add: copyin.simps)
        moreover have "ubyte ?f (va + of_nat 0) = None" using None by (simp add: ubyte_def)
        ultimately show ?thesis using False by auto
      next
        case (Some e)
        have nz: "PTE2PA e \<noteq> 0" using Some by (auto simp: uentry_def split: if_splits option.splits)
        let ?bs = "map (\<lambda>i. kmemory s (the (ubyte ?f (va + of_nat i)))) [0..<?n]"
        have ub: "ubyte ?f (va + of_nat k) = Some (unat (PTE2PA e) + unat va mod PGSIZE + k)" if "k < ?n" for k
          using same [OF that] Some by (simp add: ubyte_def)
        have bs: "?bs = map (\<lambda>k. kmemory s (unat (PTE2PA e) + unat va mod PGSIZE + k)) [0..<?n]" using ub by simp
        have "unat (PTE2PA e + (va - PGROUNDDOWN64 va)) = unat (PTE2PA e) + unat va mod PGSIZE"
          using unat_frame [of "unat va mod PGSIZE" e] unfolding offset_word by (simp add: PGSIZE_def)
        then have "copyin pt va len s = (case copyin pt ?va' (len - ?n) s of (ok, rest) \<Rightarrow> (ok, ?bs @ rest))"
          unfolding bs using False walkaddr_uentry [OF assms, of va] Some nz by (subst copyin.simps) (simp add: Let_def)
        moreover have "map g [0..<len] = map g [0..<?n] @ map (\<lambda>i. g (?n + i)) [0..<len - ?n]" for g :: "nat \<Rightarrow> byte"
          using n(2) by (intro nth_equalityI) (auto simp: nth_append)
        ultimately show ?thesis using IH all_split [OF n(2)] ub by (auto split: prod.splits)
      qed
    qed
  qed
  then show "fst (copyin pt va len s) \<longleftrightarrow> (\<forall>i<len. ubyte ?f (va + of_nat i) \<noteq> None)"
    "fst (copyin pt va len s) \<Longrightarrow> snd (copyin pt va len s) = map (\<lambda>i. kmemory s (the (ubyte ?f (va + of_nat i)))) [0..<len]"
    by blast+
qed

section \<open>Copying out\<close>

lemma splice_upds: "splice p n g m = upds (\<lambda>i. p + i) g n m"
proof (induction n)
  case (Suc n)
  have "splice p (Suc n) g m = (splice p n g m)(p + n := g n)" by (auto simp: splice_def fun_eq_iff)
  then show ?case using Suc by simp
qed (auto simp: splice_def fun_eq_iff)

lemma upds_append: "upds dst v (n + k) m = upds (\<lambda>i. dst (n + i)) (\<lambda>i. v (n + i)) k (upds dst v n m)"
  by (induction k) auto

lemma upds_outside: "upds dst v n m a \<noteq> m a \<Longrightarrow> \<exists>k<n. dst k = a"
  using upds_other [of n dst a v m] by blast

text \<open>
  A range of user addresses that may be written: each address has an entry with the user and the
  write bit, and its physical page is no page of the table.
\<close>

definition writable :: "u64 set \<Rightarrow> (nat \<Rightarrow> u64 option) \<Rightarrow> u64 \<Rightarrow> nat \<Rightarrow> bool" where
  "writable S f va n \<longleftrightarrow> (\<forall>i<n. \<exists>e. uentry f (va + of_nat i) = Some e \<and> pte_has e PTE_W \<and> PTE2PA e \<notin> S)"

lemma frame_aligned: "unat (PTE2PA e) mod PGSIZE = 0"
proof -
  have "take_bit 12 (PTE2PA e) = 0" by (rule bit_word_eqI) (simp add: PTE2PA_def bit_simps)
  then show ?thesis using unsigned_take_bit_eq [of 12 "PTE2PA e"] by (simp add: take_bit_eq_mod PGSIZE_def)
qed

lemma ubyte_outside:
  assumes "uentry f va = Some e" "PTE2PA e \<notin> S" "\<forall>p \<in> S. page_ok kend p" "p \<in> S"
  shows "\<not> in_page p (the (ubyte f va))"
proof
  assume "in_page p (the (ubyte f va))"
  moreover have "in_page (PTE2PA e) (the (ubyte f va))" using assms(1) by (simp add: ubyte_def in_page_def PGSIZE_def)
  ultimately have "p = PTE2PA e" using pages_apart [of p "PTE2PA e"] frame_aligned assms(3,4) by (auto simp: page_ok_def)
  then show False using assms(2,4) by simp
qed

lemma copyout_writes:
  assumes "tree kend 2 pt S (kmemory s)" "writable S (pmap pt (kmemory s)) va (length src)"
  shows "copyout pt va src s = (True, s\<lparr>kmemory :=
      upds (\<lambda>i. the (ubyte (pmap pt (kmemory s)) (va + of_nat i))) (\<lambda>i. src ! i) (length src) (kmemory s)\<rparr>)"
  using assms
proof (induction "length src" arbitrary: va src s rule: less_induct)
  case less
  let ?f = "pmap pt (kmemory s)" and ?len = "length src"
  let ?dst = "\<lambda>i. the (ubyte ?f (va + of_nat i))"
  show ?case
  proof (cases "src = []")
    case True
    then show ?thesis by (simp add: copyout.simps)
  next
    case False
    let ?n = "page_room va ?len" and ?va0 = "PGROUNDDOWN64 va"
    have len: "0 < ?len" using False by simp
    have n: "0 < ?n" "?n \<le> ?len" using page_room_pos [OF len] room_split(1) [OF len] by auto
    obtain e where e: "uentry ?f va = Some e" "pte_has e PTE_W" "PTE2PA e \<notin> S"
      using less.prems(2) len by (auto simp: writable_def dest: spec [of _ 0])
    have below: "va < MAXVA" and fe: "?f (unat va div PGSIZE) = Some e" "pte_has e PTE_U"
      using e(1) by (auto simp: uentry_def split: if_splits option.splits)
    have b0: "?va0 < MAXVA" using below rounddown_below by simp
    have "entry 2 pt ?va0 (kmemory s) = e" "pte_has e PTE_V"
      using fe(1) entry_page(1) [OF b0, of pt "kmemory s"] by (auto simp: pmap_def unat_PGROUNDDOWN64 PGSIZE_def split: if_splits)
    then obtain p where p: "fst (walk_from 2 pt ?va0 False s) = Some p" "load_pte p s = e"
      using walk_entry [OF less.prems(1), of ?va0] by (auto simp: pte_has_zero split: option.splits)
    have dst: "?dst k = unat (PTE2PA e) + unat va mod PGSIZE + k" if "k < ?n" for k
      using uentry_same_page [of va k ?f] in_same_page(3) [of va k] room_split(2) [OF len that] e(1) by (simp add: ubyte_def)
    let ?m1 = "splice (unat (PTE2PA e + (va - ?va0))) ?n (\<lambda>k. src ! k) (kmemory s)"
    have "unat (PTE2PA e + (va - ?va0)) = unat (PTE2PA e) + unat va mod PGSIZE"
      using unat_frame [of "unat va mod PGSIZE" e] unfolding offset_word by (simp add: PGSIZE_def)
    then have m1: "?m1 = upds ?dst (\<lambda>k. src ! k) ?n (kmemory s)"
      unfolding splice_upds by (intro upds_cong) (simp_all add: dst)
    have rec: "copyout pt va src s = copyout pt (?va0 + of_nat PGSIZE) (drop ?n src) (s\<lparr>kmemory := ?m1\<rparr>)"
      using False b0 [folded not_le] p fe(2) e(2) \<open>pte_has e PTE_V\<close> by (subst copyout.simps) (simp add: Let_def)
    have pages: "\<forall>q \<in> S. page_ok kend q" using tree_pages [OF less.prems(1)] by blast
    have same: "kmemory s a = ?m1 a" if "q \<in> S" "in_page q a" for q a
    proof (rule ccontr)
      assume "kmemory s a \<noteq> ?m1 a"
      then obtain k where "k < ?n" "?dst k = a" using upds_outside [of ?dst "\<lambda>k. src ! k" ?n "kmemory s" a] unfolding m1 by auto
      moreover from this have "uentry ?f (va + of_nat k) = Some e" using uentry_same_page room_split(2) [OF len] e(1) by simp
      ultimately show False using ubyte_outside [of ?f _ e S kend q] e(3) pages that by blast
    qed
    have t1: "tree kend 2 pt S ?m1" and pm: "pmap pt ?m1 = ?f"
      using tree_cong [OF less.prems(1), of ?m1] same by (auto intro: pmap_cong)
    show ?thesis
    proof (cases "?n = ?len")
      case True
      then have "copyout pt va src s = (True, s\<lparr>kmemory := ?m1\<rparr>)" unfolding rec by (simp add: copyout.simps)
      then show ?thesis using m1 True by simp
    next
      case False
      then have va': "?va0 + of_nat PGSIZE = va + of_nat ?n" using room_split(3) [OF len] n(2) by simp
      have w: "writable S ?f (va + of_nat ?n) (length (drop ?n src))"
        unfolding writable_def
      proof (intro allI impI)
        fix i assume "i < length (drop ?n src)"
        then have "?n + i < ?len" by simp
        then have "\<exists>e. uentry ?f (va + of_nat (?n + i)) = Some e \<and> pte_has e PTE_W \<and> PTE2PA e \<notin> S"
          using less.prems(2) unfolding writable_def by blast
        then show "\<exists>e. uentry ?f (va + of_nat ?n + of_nat i) = Some e \<and> pte_has e PTE_W \<and> PTE2PA e \<notin> S"
          by (simp only: of_nat_add add.assoc)
      qed
      have "copyout pt (va + of_nat ?n) (drop ?n src) (s\<lparr>kmemory := ?m1\<rparr>) = (True, s\<lparr>kmemory := ?m1\<rparr>\<lparr>kmemory :=
          upds (\<lambda>i. the (ubyte (pmap pt (kmemory (s\<lparr>kmemory := ?m1\<rparr>))) (va + of_nat ?n + of_nat i)))
            (\<lambda>i. drop ?n src ! i) (length (drop ?n src)) (kmemory (s\<lparr>kmemory := ?m1\<rparr>))\<rparr>)"
      proof (rule less.hyps)
        show "length (drop ?n src) < length src" using n by simp
        show "tree kend 2 pt S (kmemory (s\<lparr>kmemory := ?m1\<rparr>))" using t1 by simp
        show "writable S (pmap pt (kmemory (s\<lparr>kmemory := ?m1\<rparr>))) (va + of_nat ?n) (length (drop ?n src))" using w pm by simp
      qed
      moreover have "upds (\<lambda>i. the (ubyte ?f (va + of_nat ?n + of_nat i))) (\<lambda>i. drop ?n src ! i) (length (drop ?n src)) ?m1
          = upds ?dst (\<lambda>i. src ! i) ?len (kmemory s)"
        using upds_append [of ?dst "\<lambda>i. src ! i" ?n "?len - ?n" "kmemory s", folded m1] n(2)
        by (simp add: add.assoc)
      ultimately show ?thesis unfolding rec va' by (simp add: pm)
    qed
  qed
qed

text \<open>
  Claim C13. What \<open>copyout\<close> writes is what \<open>copyin\<close> reads. For a range of user addresses whose pages
  are mapped writable to user mode, outside the table, and no byte of which shares its physical byte with another,
  \<open>copyout\<close> succeeds; \<open>copyin\<close> of the range then succeeds and returns the bytes that were copied
  out, however the range lies across pages; and no other byte of memory changed.
\<close>

theorem copyout_copyin:
  assumes "tree kend 2 pt S (kmemory s)" "writable S (pmap pt (kmemory s)) va (length src)"
    "inj_on (\<lambda>i. the (ubyte (pmap pt (kmemory s)) (va + of_nat i))) {..<length src}"
  shows "\<exists>s'. copyout pt va src s = (True, s') \<and> copyin pt va (length src) s' = (True, src) \<and>
    (\<forall>a. kmemory s' a \<noteq> kmemory s a \<longrightarrow> (\<exists>i<length src. ubyte (pmap pt (kmemory s)) (va + of_nat i) = Some a))"
proof -
  let ?f = "pmap pt (kmemory s)" and ?n = "length src"
  let ?dst = "\<lambda>i. the (ubyte ?f (va + of_nat i))"
  let ?m = "upds ?dst (\<lambda>i. src ! i) ?n (kmemory s)"
  have pages: "\<forall>q \<in> S. page_ok kend q" using tree_pages [OF assms(1)] by blast
  have nn: "\<forall>i<?n. ubyte ?f (va + of_nat i) \<noteq> None" using assms(2) by (auto simp: writable_def ubyte_def)
  have off: "\<exists>i<?n. ?dst i = a" if "?m a \<noteq> kmemory s a" for a using upds_outside [OF that] .
  have same: "kmemory s a = ?m a" if q: "q \<in> S" "in_page q a" for q a
  proof (rule ccontr)
    assume "kmemory s a \<noteq> ?m a"
    then have "?m a \<noteq> kmemory s a" by (rule not_sym)
    from off [OF this] obtain i where i: "i < ?n" "?dst i = a" by blast
    then obtain e where "uentry ?f (va + of_nat i) = Some e" "PTE2PA e \<notin> S" using assms(2) by (auto simp: writable_def)
    then have "\<not> in_page q (?dst i)" by (rule ubyte_outside [OF _ _ pages q(1)])
    then show False using q(2) i(2) by simp
  qed
  have tc: "tree kend 2 pt S ?m \<and> (\<forall>va. entry 2 pt va ?m = entry 2 pt va (kmemory s))"
    by (rule tree_cong [OF assms(1)]) (rule same)
  have pm: "pmap pt ?m = ?f" by (rule pmap_cong) (use tc in blast)
  let ?s = "s\<lparr>kmemory := ?m\<rparr>"
  have t': "tree kend 2 pt S (kmemory ?s)" using tc by simp
  have pm': "pmap pt (kmemory ?s) = ?f" using pm by simp
  have ok: "fst (copyin pt va ?n ?s) = True" using copyin_reads(1) [OF t', of va ?n] nn unfolding pm' by simp
  moreover have "snd (copyin pt va ?n ?s) = map (\<lambda>i. ?m (?dst i)) [0..<?n]"
    using copyin_reads(2) [OF t', of va ?n] ok unfolding pm' by simp
  moreover have "map (\<lambda>i. ?m (?dst i)) [0..<?n] = src"
    by (rule nth_equalityI) (simp_all add: upds_at [OF assms(3)])
  ultimately have "copyin pt va ?n ?s = (True, src)" by (simp only: prod_eq_iff fst_conv snd_conv)
  moreover have "\<forall>a. kmemory ?s a \<noteq> kmemory s a \<longrightarrow> (\<exists>i<?n. ubyte ?f (va + of_nat i) = Some a)"
    
  proof (intro allI impI)
    fix a assume "kmemory ?s a \<noteq> kmemory s a"
    then have "?m a \<noteq> kmemory s a" by simp
    from off [OF this] obtain i where i: "i < ?n" "?dst i = a" by blast
    then show "\<exists>i<?n. ubyte ?f (va + of_nat i) = Some a" using nn i by (metis option.collapse)
  qed
  ultimately show ?thesis using copyout_writes [OF assms(1,2)] by blast
qed

theorem copyout_copyin_witness:
  "\<exists>s'. copyout 0x80003000 0xFF0 [104, 105] (one_page 0) = (True, s') \<and> copyin 0x80003000 0xFF0 2 s' = (True, [104, 105])"
proof -
  let ?S = "{0x80003000, 0x80002000, 0x80001000} :: u64 set" and ?e = "PA2PTE 0x80004000 OR 0x17"
  have U: "page_ok 0x80000000 0x80004000" by (simp add: page_ok_def PGSIZE_def PHYSTOP_def KERNBASE_def)
  have rt: "PTE2PA ?e = 0x80004000" by (rule pte_roundtrip [OF page_bits [OF U]]) (simp add: drop_bit_eq_div)
  have fl: "pte_has ?e PTE_U" "pte_has ?e PTE_W"
    by (simp_all add: pte_has_def PTE_U_def PTE_W_def PA2PTE_def drop_bit_eq_div push_bit_eq_mult)
  have tr: "tree 0x80000000 2 0x80003000 ?S (kmemory (one_page 0))" using one_page_table(1) [of 0] by (simp add: vm_ok_def)
  have ue: "uentry [0 \<mapsto> ?e] (0xFF0 + of_nat i) = Some ?e" "ubyte [0 \<mapsto> ?e] (0xFF0 + of_nat i) = Some (0x80004FF0 + i)"
    if "i < 2" for i
    using that fl rt by (auto simp: less_2_cases_iff uentry_def ubyte_def MAXVA_def PGSIZE_def)
  have w: "writable ?S [0 \<mapsto> ?e] 0xFF0 (length [104, 105])"
    unfolding writable_def by (intro allI impI exI [of _ ?e]) (simp add: ue(1) fl(2) rt)
  have "inj_on (\<lambda>i. the (ubyte [0 \<mapsto> ?e] (0xFF0 + of_nat i))) {..<length [104, 105]}"
    by (rule inj_onI) (simp add: ue(2) numeral_2_eq_2)
  from copyout_copyin [OF tr, unfolded one_page_table(2), OF w this] show ?thesis by (auto simp: numeral_2_eq_2)
qed

end
