(* ===== verification/Console_Uart.thy ===== *)
theory Console_Uart
  imports Pipe_Buffer
begin

text \<open>
  The serial port (\<^verbatim>\<open>kernel/uart.c\<close>) and the console (\<^verbatim>\<open>kernel/console.c\<close>). Both keep bytes in a ring
  with free-running counters, as pipes do (locale \<open>ring_buffer\<close>). The registers of the device are
  inputs and outputs of the model: the values that successive reads of the line status register return
  are a list (the port is busy when it ends), and the bytes that were written to the transmit
  register, and the wakeups, are recorded in order.
\<close>

section \<open>The transmit buffer\<close>

definition UART_TX_BUF_SIZE :: nat where [layout_simps]: "UART_TX_BUF_SIZE = 32"

datatype uevent = Thr byte | Wake

record uart =
  tx_buf :: "nat \<Rightarrow> byte"
  tx_w :: u64
  tx_r :: u64
  panicked :: bool
  u_out :: "uevent list"

text \<open>The initialisation is a sequence of register writes: the register and the value.\<close>

definition uartinit :: "(nat \<times> byte) list" where
  "uartinit = [(1, 0), (3, 128), (0, 3), (1, 0), (3, 3), (2, 1 OR 6), (1, 2 OR 1)]"

text \<open>\<open>idle\<close>: whether each successive read of \<^verbatim>\<open>LSR\<close> shows the transmitter idle.\<close>

fun uartstart :: "bool list \<Rightarrow> uart \<Rightarrow> uart" where
  "uartstart [] s = s"
| "uartstart (i # idle) s =
     (if tx_w s = tx_r s then s
      else if \<not> i then s
      else
        let c = tx_buf s (unat (tx_r s) mod UART_TX_BUF_SIZE) in
        uartstart idle (s\<lparr>tx_r := tx_r s + 1, u_out := u_out s @ [Wake, Thr c]\<rparr>))"

text \<open>A frozen console spins for ever: \<open>Asleep\<close>, as a full buffer.\<close>

definition uartputc :: "bool list \<Rightarrow> byte \<Rightarrow> uart \<Rightarrow> uart res" where
  "uartputc idle c s =
     (if panicked s then Inl (Asleep ''panicked'')
      else if tx_w s = tx_r s + of_nat UART_TX_BUF_SIZE then Inl (Asleep ''uart_tx_r'')
      else Inr (uartstart idle
             (s\<lparr>tx_buf := (tx_buf s)(unat (tx_w s) mod UART_TX_BUF_SIZE := c), tx_w := tx_w s + 1\<rparr>)))"

text \<open>The synchronous version spins on \<^verbatim>\<open>LSR\<close>; it still spins when no read of the list shows idle.\<close>

definition uartputc_sync :: "bool list \<Rightarrow> byte \<Rightarrow> uart \<Rightarrow> uart res" where
  "uartputc_sync idle c s =
     (if panicked s then Inl (Asleep ''panicked'')
      else if True \<notin> set idle then Inl (Asleep ''LSR'')
      else Inr (s\<lparr>u_out := u_out s @ [Thr c]\<rparr>))"

definition uartgetc :: "byte \<Rightarrow> byte \<Rightarrow> byte option" where
  "uartgetc lsr rhr = (if lsr AND 1 \<noteq> 0 then Some rhr else None)"

interpretation tx_ring: ring_buffer UART_TX_BUF_SIZE "TYPE(64)"
  by unfold_locales (simp_all add: UART_TX_BUF_SIZE_def)

definition tx_bytes :: "uart \<Rightarrow> byte list" where
  "tx_bytes s = tx_ring.contents (tx_buf s) (tx_r s) (tx_w s)"

definition uart_ok :: "uart \<Rightarrow> bool" where
  "uart_ok s \<longleftrightarrow> unat (tx_w s - tx_r s) \<le> UART_TX_BUF_SIZE"

text \<open>The bytes given to the device.\<close>

fun sent :: "uevent list \<Rightarrow> byte list" where
  "sent [] = []"
| "sent (Thr c # es) = c # sent es"
| "sent (Wake # es) = sent es"

lemma sent_append [simp]: "sent (xs @ ys) = sent xs @ sent ys"
  by (induction xs rule: sent.induct) auto

lemma uartstart_fifo:
  "uart_ok s \<Longrightarrow> uart_ok (uartstart idle s) \<and>
     sent (u_out (uartstart idle s)) @ tx_bytes (uartstart idle s) = sent (u_out s) @ tx_bytes s"
proof (induction idle s rule: uartstart.induct)
  case (2 i idle s)
  let ?s' = "s\<lparr>tx_r := tx_r s + 1, u_out := u_out s @ [Wake, Thr (tx_buf s (unat (tx_r s) mod UART_TX_BUF_SIZE))]\<rparr>"
  show ?case
  proof (cases "tx_w s \<noteq> tx_r s \<and> i")
    case True
    then have ne: "tx_r s \<noteq> tx_w s" by auto
    have "uart_ok ?s'" using tx_ring.count_le_get [OF ne] 2(2) by (simp add: uart_ok_def)
    moreover have "sent (u_out ?s') @ tx_bytes ?s' = sent (u_out s) @ tx_bytes s"
      using tx_ring.contents_get [OF ne, of "tx_buf s"] by (simp add: tx_bytes_def)
    ultimately show ?thesis using 2(1) [OF _ _ refl] True by (simp add: Let_def)
  qed (use 2(2) in auto)
qed simp

section \<open>The line buffer\<close>

definition INPUT_BUF_SIZE :: nat where [layout_simps]: "INPUT_BUF_SIZE = 128"

text \<open>\<open>echo\<close> is what was sent to the port; \<open>woken\<close> and \<open>dumps\<close> count the calls of \<open>wakeup\<close> and \<open>procdump\<close>.\<close>

record cons =
  c_buf :: "nat \<Rightarrow> byte"
  c_r :: u32
  c_w :: u32
  c_e :: u32
  echo :: "byte list"
  woken :: nat
  dumps :: nat

definition ctrl_P :: byte where "ctrl_P = 16"
definition ctrl_U :: byte where "ctrl_U = 21"
definition ctrl_H :: byte where "ctrl_H = 8"
definition ctrl_D :: byte where "ctrl_D = 4"
definition DEL :: byte where "DEL = 127"
definition NLC :: byte where "NLC = 10"
definition CRC :: byte where "CRC = 13"

lemmas key_defs = ctrl_P_def ctrl_U_def ctrl_H_def ctrl_D_def DEL_def NLC_def CRC_def

text \<open>\<open>None\<close> is \<^verbatim>\<open>BACKSPACE\<close>.\<close>

definition consputc :: "byte option \<Rightarrow> byte list" where
  "consputc c = (case c of None \<Rightarrow> [ctrl_H, 32, ctrl_H] | Some c \<Rightarrow> [c])"

definition at_cons :: "cons \<Rightarrow> u32 \<Rightarrow> byte" where
  "at_cons s i = c_buf s (unat i mod INPUT_BUF_SIZE)"

text \<open>One round of the kill-line loop takes a byte off the line.\<close>

definition cons_erase :: "cons \<Rightarrow> cons" where
  "cons_erase s = s\<lparr>c_e := c_e s - 1, echo := echo s @ consputc None\<rparr>"

function kill_line :: "cons \<Rightarrow> cons" where
  "kill_line s =
     (if c_e s \<noteq> c_w s \<and> at_cons s (c_e s - 1) \<noteq> NLC then kill_line (cons_erase s) else s)"
  by pat_completeness auto
termination
proof (relation "measure (\<lambda>s. unat (c_e s - c_w s))", simp)
  fix s :: cons
  assume "c_e s \<noteq> c_w s \<and> at_cons s (c_e s - 1) \<noteq> NLC"
  then have "c_e s - c_w s \<noteq> 0" by simp
  then have "unat (c_e s - c_w s - 1) < unat (c_e s - c_w s)" by (simp add: unat_minus_one unat_gt_0)
  then show "(cons_erase s, s) \<in> measure (\<lambda>s. unat (c_e s - c_w s))" by (simp add: cons_erase_def algebra_simps)
qed

declare kill_line.simps [simp del]

definition consoleintr :: "byte \<Rightarrow> cons \<Rightarrow> cons" where
  "consoleintr c s =
     (if c = ctrl_P then s\<lparr>dumps := dumps s + 1\<rparr>
      else if c = ctrl_U then kill_line s
      else if c = ctrl_H \<or> c = DEL then (if c_e s \<noteq> c_w s then cons_erase s else s)
      else if c \<noteq> 0 \<and> c_e s - c_r s < of_nat INPUT_BUF_SIZE then
        let c = (if c = CRC then NLC else c);
            s = s\<lparr>echo := echo s @ consputc (Some c)\<rparr>;
            s = s\<lparr>c_buf := (c_buf s)(unat (c_e s) mod INPUT_BUF_SIZE := c), c_e := c_e s + 1\<rparr>
        in if c = NLC \<or> c = ctrl_D \<or> c_e s - c_r s = of_nat INPUT_BUF_SIZE
           then s\<lparr>c_w := c_e s, woken := woken s + 1\<rparr>
           else s
      else s)"

text \<open>
  \<open>consoleread\<close> from a buffer: \<open>n\<close> bytes are still wanted of \<open>target\<close>, \<open>put i b\<close> is whether the
  copy of byte \<open>b\<close> to position \<open>i\<close> of the destination succeeds. The result is the bytes copied
  and the value returned, or \<open>None\<close> where the reader goes to sleep.
\<close>

function consoleread_loop :: "bool \<Rightarrow> (nat \<Rightarrow> byte \<Rightarrow> bool) \<Rightarrow> nat \<Rightarrow> nat \<Rightarrow> cons \<Rightarrow> byte list \<times> int option \<times> cons" where
  "consoleread_loop kld put target n s =
     (if 0 < n then
        if c_r s = c_w s then ([], if kld then Some (- 1) else None, s)
        else
          let c = at_cons s (c_r s); s = s\<lparr>c_r := c_r s + 1\<rparr> in
          if c = ctrl_D then
            ([], Some (int (target - n)), if n < target then s\<lparr>c_r := c_r s - 1\<rparr> else s)
          else if \<not> put (target - n) c then ([], Some (int (target - n)), s)
          else if c = NLC then ([c], Some (int (target - (n - 1))), s)
          else case consoleread_loop kld put target (n - 1) s of (bs, r, s) \<Rightarrow> (c # bs, r, s)
      else ([], Some (int (target - n)), s))"
  by pat_completeness auto
termination
  by (relation "measure (\<lambda>(kld, put, target, n, s). n)") auto

declare consoleread_loop.simps [simp del]

definition consoleread :: "bool \<Rightarrow> (nat \<Rightarrow> byte \<Rightarrow> bool) \<Rightarrow> int \<Rightarrow> cons \<Rightarrow> byte list \<times> int option \<times> cons" where
  "consoleread kld put n s =
     (if n \<le> 0 then ([], Some 0, s) else consoleread_loop kld put (nat n) (nat n) s)"

text \<open>\<open>get i\<close> is byte \<open>i\<close> of the source, or \<open>None\<close>; \<open>idle\<close> gives what the port answers for each byte.\<close>

fun consolewrite_loop :: "(nat \<Rightarrow> byte option) \<Rightarrow> (nat \<Rightarrow> bool list) \<Rightarrow> nat \<Rightarrow> nat \<Rightarrow> uart \<Rightarrow> (nat \<times> uart) res" where
  "consolewrite_loop get idle i 0 s = Inr (i, s)"
| "consolewrite_loop get idle i (Suc n) s =
     (case get i of
        None \<Rightarrow> Inr (i, s)
      | Some c \<Rightarrow> ebind (uartputc (idle i) c s) (consolewrite_loop get idle (i + 1) n))"

definition consolewrite :: "(nat \<Rightarrow> byte option) \<Rightarrow> (nat \<Rightarrow> bool list) \<Rightarrow> int \<Rightarrow> uart \<Rightarrow> (nat \<times> uart) res" where
  "consolewrite get idle n s = consolewrite_loop get idle 0 (nat n) s"

text \<open>\<open>rx\<close> is what successive reads of \<^verbatim>\<open>LSR\<close> and \<^verbatim>\<open>RHR\<close> return; nothing is waiting when it ends.\<close>

fun uartintr_rx :: "(byte \<times> byte) list \<Rightarrow> cons \<Rightarrow> cons" where
  "uartintr_rx [] s = s"
| "uartintr_rx ((lsr, rhr) # rx) s =
     (case uartgetc lsr rhr of None \<Rightarrow> s | Some c \<Rightarrow> uartintr_rx rx (consoleintr c s))"

definition uartintr :: "(byte \<times> byte) list \<Rightarrow> bool list \<Rightarrow> cons \<Rightarrow> uart \<Rightarrow> cons \<times> uart" where
  "uartintr rx idle s u = (uartintr_rx rx s, uartstart idle u)"

section \<open>The port sends what was written, in order\<close>

lemma uartputc_fifo:
  assumes "uart_ok s" "uartputc idle c s = Inr s'"
  shows "uart_ok s' \<and> sent (u_out s') @ tx_bytes s' = sent (u_out s) @ tx_bytes s @ [c]"
proof -
  let ?s1 = "s\<lparr>tx_buf := (tx_buf s)(unat (tx_w s) mod UART_TX_BUF_SIZE := c), tx_w := tx_w s + 1\<rparr>"
  have "tx_w s \<noteq> tx_r s + of_nat UART_TX_BUF_SIZE" and s': "s' = uartstart idle ?s1"
    using assms(2) by (auto simp: uartputc_def split: if_splits)
  then have lt: "unat (tx_w s - tx_r s) < UART_TX_BUF_SIZE"
    using assms(1) tx_ring.full_iff [of "tx_w s" "tx_r s"] by (simp add: uart_ok_def)
  then have "uart_ok ?s1" using tx_ring.count_Suc [OF lt] by (simp add: uart_ok_def)
  moreover have "tx_bytes ?s1 = tx_bytes s @ [c]" using tx_ring.contents_put [OF lt] by (simp add: tx_bytes_def)
  ultimately show ?thesis using uartstart_fifo [of ?s1 idle] s' by simp
qed

lemma consolewrite_loop_fifo:
  "uart_ok s \<Longrightarrow> consolewrite_loop get idle i n s = Inr (j, s') \<Longrightarrow>
     uart_ok s' \<and> i \<le> j \<and> j \<le> i + n \<and>
     sent (u_out s') @ tx_bytes s' = sent (u_out s) @ tx_bytes s @ map (the \<circ> get) [i..<j] \<and>
     (\<forall>k \<in> {i..<j}. get k \<noteq> None) \<and> (j < i + n \<longrightarrow> get j = None)"
proof (induction n arbitrary: i s)
  case (Suc n)
  show ?case
  proof (cases "get i")
    case None
    then show ?thesis using Suc.prems by simp
  next
    case (Some c)
    then obtain s1 where s1: "uartputc (idle i) c s = Inr s1" and rest: "consolewrite_loop get idle (i + 1) n s1 = Inr (j, s')"
      using Suc.prems(2) by (auto simp: ebind_eq_Inr)
    note p = uartputc_fifo [OF Suc.prems(1) s1]
    note q = Suc.IH [OF conjunct1 [OF p] rest]
    have "[i..<j] = i # [i + 1..<j]" using q by (simp add: upt_conv_Cons)
    moreover have "get k \<noteq> None" if "k \<in> {i..<j}" for k using that q Some by (cases "k = i") auto
    ultimately show ?thesis using p q Some by auto
  qed
qed simp

section \<open>The console as a line editor\<close>

text \<open>
  The contract is a pair: the committed bytes, which a reader may take, and the line being edited.
\<close>

type_synonym line_ed = "byte list \<times> byte list"

fun edit_step :: "byte \<Rightarrow> line_ed \<Rightarrow> line_ed" where
  "edit_step c (com, ed) =
     (if c = ctrl_P \<or> c = 0 then (com, ed)
      else if c = ctrl_U then (com, [])
      else if c = ctrl_H \<or> c = DEL then (com, butlast ed)
      else if length com + length ed \<ge> INPUT_BUF_SIZE then (com, ed)
      else
        let c = (if c = CRC then NLC else c); ed = ed @ [c] in
        if c = NLC \<or> c = ctrl_D \<or> length com + length ed = INPUT_BUF_SIZE then (com @ ed, []) else (com, ed))"

context ring_buffer
begin

lemma contents_take: "unat (w - r) \<le> unat (e - r) \<Longrightarrow> contents d r w = take (unat (w - r)) (contents d r e)"
  by (simp add: contents_def take_map)

lemma contents_drop:
  assumes "unat (w - r :: 'w word) + unat (e - w) = unat (e - r)"
  shows "contents d w e = drop (unat (w - r)) (contents d r e)"
proof -
  have "(unat w + k) mod size = (unat r + (unat (w - r) + k)) mod size" for k
    using unat_mod [of r "w - r"] by (metis (no_types, lifting) add.assoc add_diff_cancel_left' diff_add_cancel add.commute mod_add_left_eq)
  then show ?thesis unfolding contents_def
    by (intro nth_equalityI) (use assms in \<open>auto simp: assms [symmetric]\<close>)
qed

lemma contents_split:
  "unat (w - r :: 'w word) + unat (e - w) = unat (e - r) \<Longrightarrow> contents d r e = contents d r w @ contents d w e"
  using contents_take [of w r e d] contents_drop [of w r e d] by simp

lemma count_erase: "(w :: 'w word) \<noteq> e \<Longrightarrow> unat (e - w) = Suc (unat (e - 1 - w))"
proof -
  assume "w \<noteq> e"
  then have "e - w \<noteq> 0" by simp
  then have "unat (e - w - 1) = unat (e - w) - 1" "0 < unat (e - w)" by (simp_all add: unat_minus_one unat_gt_0)
  then show ?thesis by (simp add: algebra_simps)
qed

lemma contents_erase: "(w :: 'w word) \<noteq> e \<Longrightarrow> contents d w (e - 1) = butlast (contents d w e)"
  using count_erase [of w e] by (simp add: contents_def butlast_append)

end

interpretation cons_ring: ring_buffer INPUT_BUF_SIZE "TYPE(32)"
  by unfold_locales (simp_all add: INPUT_BUF_SIZE_def)

definition ready_bytes :: "cons \<Rightarrow> byte list" where
  "ready_bytes s = cons_ring.contents (c_buf s) (c_r s) (c_w s)"

definition edited :: "cons \<Rightarrow> byte list" where
  "edited s = cons_ring.contents (c_buf s) (c_w s) (c_e s)"

text \<open>The read, write and edit indices are in this order on the ring, and no line end is being edited.\<close>

definition cons_ok :: "cons \<Rightarrow> bool" where
  "cons_ok s \<longleftrightarrow>
     unat (c_w s - c_r s) + unat (c_e s - c_w s) = unat (c_e s - c_r s) \<and>
     unat (c_e s - c_r s) \<le> INPUT_BUF_SIZE \<and> NLC \<notin> set (edited s)"

definition cons_abs :: "cons \<Rightarrow> line_ed" where
  "cons_abs s = (ready_bytes s, edited s)"

lemma length_cons:
  "length (ready_bytes s) = unat (c_w s - c_r s)" "length (edited s) = unat (c_e s - c_w s)"
  by (simp_all add: ready_bytes_def edited_def cons_ring.length_contents)

lemma last_edited:
  assumes "c_e s \<noteq> c_w s"
  shows "edited s \<noteq> [] \<and> last (edited s) = at_cons s (c_e s - 1)"
proof -
  have c: "unat (c_e s - c_w s) = Suc (unat (c_e s - 1 - c_w s))" using assms by (intro cons_ring.count_erase) simp
  have "(unat (c_w s) + unat (c_e s - 1 - c_w s)) mod INPUT_BUF_SIZE = unat (c_e s - 1) mod INPUT_BUF_SIZE"
    using cons_ring.unat_mod [of "c_w s" "c_e s - 1 - c_w s"] by simp
  then show ?thesis unfolding edited_def cons_ring.contents_def c at_cons_def by simp
qed

lemma erase_abs:
  assumes ok: "cons_ok s" and ne: "c_e s \<noteq> c_w s"
  shows "cons_ok (cons_erase s) \<and> cons_abs (cons_erase s) = (ready_bytes s, butlast (edited s))"
proof -
  have e: "edited (cons_erase s) = butlast (edited s)"
    using cons_ring.contents_erase [of "c_w s" "c_e s" "c_buf s"] ne by (simp add: edited_def cons_erase_def)
  have "c_e s \<noteq> c_r s"
  proof
    assume "c_e s = c_r s"
    then have "unat (c_e s - c_w s) = 0" using ok by (simp add: cons_ok_def)
    then show False using ne by (simp add: unat_eq_0)
  qed
  then show ?thesis
    using e ok ne cons_ring.count_erase [of "c_w s" "c_e s"] cons_ring.count_erase [of "c_r s" "c_e s"]
    by (auto simp: cons_ok_def cons_abs_def ready_bytes_def cons_erase_def dest: in_set_butlastD)
qed

lemma kill_line_abs:
  "cons_ok s \<Longrightarrow> cons_ok (kill_line s) \<and> cons_abs (kill_line s) = (ready_bytes s, [])"
proof (induction s rule: kill_line.induct)
  case (1 s)
  show ?case
  proof (cases "c_e s = c_w s")
    case True
    then show ?thesis using 1(2) by (subst kill_line.simps, simp add: kill_line.simps cons_abs_def edited_def)
  next
    case False
    then have "at_cons s (c_e s - 1) \<noteq> NLC"
      using last_edited [of s] 1(2) by (metis cons_ok_def last_in_set)
    then have k: "kill_line s = kill_line (cons_erase s)" using False by (subst kill_line.simps) simp
    have "ready_bytes (cons_erase s) = ready_bytes s" by (simp add: ready_bytes_def cons_erase_def)
    then show ?thesis using 1(1) erase_abs [OF 1(2) False] False \<open>at_cons s (c_e s - 1) \<noteq> NLC\<close> k by simp
  qed
qed

lemma consoleintr_insert:
  assumes ok: "cons_ok s" and c: "c \<notin> {ctrl_P, ctrl_U, ctrl_H, DEL, 0}" and room: "unat (c_e s - c_r s) < INPUT_BUF_SIZE"
  shows "cons_ok (consoleintr c s) \<and> cons_abs (consoleintr c s) = edit_step c (cons_abs s)"
proof -
  define d where "d = (if c = CRC then NLC else c)"
  define s1 where "s1 = s\<lparr>c_buf := (c_buf s)(unat (c_e s) mod INPUT_BUF_SIZE := d), c_e := c_e s + 1,
    echo := echo s @ consputc (Some d)\<rparr>"
  have cnt: "unat (c_w s - c_r s) + unat (c_e s - c_w s) = unat (c_e s - c_r s)" using ok by (simp add: cons_ok_def)
  then have roomw: "unat (c_e s - c_w s) < INPUT_BUF_SIZE" using room by simp
  have n: "unat (c_e s1 - c_r s) = Suc (unat (c_e s - c_r s))" "unat (c_e s1 - c_w s) = Suc (unat (c_e s - c_w s))"
    using cons_ring.count_Suc [OF room] cons_ring.count_Suc [OF roomw] by (simp_all add: s1_def)
  have ed: "edited s1 = edited s @ [d]"
    using cons_ring.contents_put [OF roomw] by (simp add: edited_def s1_def)
  have all: "cons_ring.contents (c_buf s1) (c_r s) (c_e s1) = cons_ring.contents (c_buf s) (c_r s) (c_e s) @ [d]"
    using cons_ring.contents_put [OF room] by (simp add: s1_def)
  have com: "ready_bytes s1 = ready_bytes s"
    using cons_ring.contents_take [of "c_w s" "c_r s" "c_e s1" "c_buf s1"]
      cons_ring.contents_take [of "c_w s" "c_r s" "c_e s" "c_buf s"] cnt n all
    by (simp add: ready_bytes_def cons_ring.length_contents s1_def)
  have full: "c_e s1 - c_r s = of_nat INPUT_BUF_SIZE \<longleftrightarrow> length (ready_bytes s) + length (edited s @ [d]) = INPUT_BUF_SIZE"
    using cons_ring.full_iff [of "c_e s1" "c_r s"] n cnt by (auto simp: length_cons algebra_simps)
  have lt: "c_e s - c_r s < of_nat INPUT_BUF_SIZE"
    using room by (simp add: word_less_nat_alt INPUT_BUF_SIZE_def)
  define fin where "fin \<longleftrightarrow> d = NLC \<or> d = ctrl_D \<or> c_e s1 - c_r s = of_nat INPUT_BUF_SIZE"
  have r: "consoleintr c s = (if fin then s1\<lparr>c_w := c_e s1, woken := woken s + 1\<rparr> else s1)"
    using c lt by (simp add: consoleintr_def Let_def d_def [symmetric] fin_def s1_def)
  have spec: "edit_step c (cons_abs s) =
      (if fin then (ready_bytes s @ edited s @ [d], []) else (ready_bytes s, edited s @ [d]))"
    using c room cnt by (simp add: cons_abs_def Let_def d_def [symmetric] fin_def full length_cons)
  have comd: "cons_ring.contents (c_buf s1) (c_r s) (c_e s1) = ready_bytes s @ edited s @ [d]"
    using all cons_ring.contents_split [OF cnt, of "c_buf s"] by (simp add: ready_bytes_def edited_def)
  show ?thesis
  proof (cases "fin")
    case True
    then show ?thesis using comd n room spec r
      by (simp add: cons_ok_def cons_abs_def ready_bytes_def edited_def s1_def)
  next
    case False
    then have "d \<noteq> NLC" by (simp add: fin_def)
    moreover have "c_w s1 = c_w s" "c_r s1 = c_r s" by (simp_all add: s1_def)
    ultimately show ?thesis using False ed com n cnt room spec r ok by (simp add: cons_ok_def cons_abs_def)
  qed
qed

lemma consoleintr_refines:
  assumes ok: "cons_ok s"
  shows "cons_ok (consoleintr c s) \<and> cons_abs (consoleintr c s) = edit_step c (cons_abs s)"
proof (cases "c \<in> {ctrl_P, ctrl_U, ctrl_H, DEL, 0}")
  case False
  show ?thesis
  proof (cases "unat (c_e s - c_r s) < INPUT_BUF_SIZE")
    case True
    then show ?thesis using consoleintr_insert [OF ok] False by blast
  next
    case full: False
    then have "\<not> c_e s - c_r s < of_nat INPUT_BUF_SIZE" by (simp add: word_less_nat_alt INPUT_BUF_SIZE_def)
    then have "consoleintr c s = s" using False by (simp add: consoleintr_def)
    then show ?thesis using ok False full by (simp add: cons_abs_def length_cons cons_ok_def)
  qed
next
  case True
  have "cons_ok (s\<lparr>dumps := k\<rparr>)" "cons_abs (s\<lparr>dumps := k\<rparr>) = cons_abs s" for k
    using ok by (simp_all add: cons_ok_def cons_abs_def ready_bytes_def edited_def)
  moreover have "edited s = []" if "c_e s = c_w s" using that by (simp add: edited_def)
  ultimately show ?thesis using True ok kill_line_abs [OF ok] erase_abs [OF ok]
    by (auto simp: consoleintr_def key_defs cons_abs_def)
qed

section \<open>Reading a line\<close>

lemma read_byte:
  assumes "cons_ok s" "ready_bytes s = c # cs"
  shows "c_r s \<noteq> c_w s \<and> at_cons s (c_r s) = c \<and> ready_bytes (s\<lparr>c_r := c_r s + 1\<rparr>) = cs \<and> cons_ok (s\<lparr>c_r := c_r s + 1\<rparr>)"
proof -
  have ne: "c_r s \<noteq> c_w s" using assms(2) by (auto simp: ready_bytes_def)
  note g = cons_ring.contents_get [OF ne, of "c_buf s"]
  have w: "unat (c_w s - c_r s) = Suc (unat (c_w s - (c_r s + 1)))" by (rule cons_ring.count_pred [OF ne])
  then have "c_r s \<noteq> c_e s" using assms(1) by (auto simp: cons_ok_def)
  then have "unat (c_e s - c_r s) = Suc (unat (c_e s - (c_r s + 1)))" by (rule cons_ring.count_pred)
  then show ?thesis using g ne w assms by (auto simp: cons_ok_def ready_bytes_def at_cons_def edited_def)
qed

lemma consoleread_loop_line:
  assumes "\<And>i b. put i b"
  shows "cons_ok s \<Longrightarrow> ready_bytes s = l @ NLC # rest \<Longrightarrow> set l \<inter> {NLC, ctrl_D} = {} \<Longrightarrow> length l < n \<Longrightarrow> n \<le> target \<Longrightarrow>
    \<exists>s'. consoleread_loop kld put target n s = (l @ [NLC], Some (int (target - n + length l + 1)), s') \<and>
      cons_ok s' \<and> ready_bytes s' = rest \<and> edited s' = edited s"
proof (induction l arbitrary: n s)
  case Nil
  then show ?case using read_byte [of s NLC rest] assms
    by (subst consoleread_loop.simps) (simp add: key_defs edited_def Let_def)
next
  case (Cons c l)
  let ?s = "s\<lparr>c_r := c_r s + 1\<rparr>"
  have c: "c \<noteq> NLC" "c \<noteq> ctrl_D" using Cons.prems(3) by auto
  note b = read_byte [of s c "l @ NLC # rest"]
  obtain s' where s': "consoleread_loop kld put target (n - 1) ?s = (l @ [NLC], Some (int (target - (n - 1) + length l + 1)), s')"
    "cons_ok s'" "ready_bytes s' = rest" "edited s' = edited ?s"
  proof -
    have "cons_ok ?s" "ready_bytes ?s = l @ NLC # rest" "set l \<inter> {NLC, ctrl_D} = {}" "length l < n - 1" "n - 1 \<le> target"
      using Cons.prems b by auto
    from Cons.IH [OF this] show thesis using that by blast
  qed
  have "target - (n - 1) + length l + 1 = target - n + length (c # l) + 1" using Cons.prems by simp
  then have "consoleread_loop kld put target n s = ((c # l) @ [NLC], Some (int (target - n + length (c # l) + 1)), s')"
    using s'(1) b Cons.prems c assms by (subst consoleread_loop.simps) (simp add: Let_def)
  then show ?case using s' by (simp add: edited_def)
qed

section \<open>Properties of the port and the console\<close>

text \<open>
  Claim C36. Console output is in order and complete. A \<open>consolewrite\<close> that returns \<open>j\<close> (it did not have
  to sleep on a full buffer) has appended exactly the first \<open>j\<close> bytes of its source, in order, to
  what the port was given and what still waits in its buffer; the transmit counters may wrap
  around. It stops short of \<open>n\<close> only at a byte that could not be copied in.
\<close>

theorem consolewrite_fifo:
  assumes "uart_ok s" "consolewrite get idle n s = Inr (j, s')"
  shows "uart_ok s' \<and> sent (u_out s') @ tx_bytes s' = sent (u_out s) @ tx_bytes s @ map (the \<circ> get) [0..<j] \<and>
    (\<forall>k < j. get k \<noteq> None) \<and> j \<le> nat n \<and> (j < nat n \<longrightarrow> get j = None)"
  using consolewrite_loop_fifo [OF assms(1), of get idle 0 "nat n" j s'] assms(2) by (auto simp: consolewrite_def)

definition uart0 :: uart where
  "uart0 = \<lparr>tx_buf = (\<lambda>_. 0), tx_w = - 1, tx_r = - 1, panicked = False, u_out = []\<rparr>"

theorem consolewrite_fifo_witness:
  "\<exists>s'. consolewrite (\<lambda>i. if i < 3 then Some (of_nat (97 + i)) else None) (\<lambda>i. [i = 1]) 5 uart0 = Inr (3, s') \<and>
     sent (u_out s') @ tx_bytes s' = [97, 98, 99]"
proof -
  let ?get = "\<lambda>i. if i < (3 :: nat) then Some (of_nat (97 + i) :: byte) else None"
  have ok: "uart_ok uart0" by (simp add: uart_ok_def uart0_def)
  have "\<exists>s'. consolewrite ?get (\<lambda>i. [i = 1]) 5 uart0 = Inr (3, s')"
  proof -
    have five: "nat 5 = Suc (Suc (Suc (Suc (Suc 0))))" by simp
    show ?thesis unfolding consolewrite_def five
      by (simp add: uartputc_def uart0_def UART_TX_BUF_SIZE_def Let_def)
  qed
  then obtain s' where s': "consolewrite ?get (\<lambda>i. [i = 1]) 5 uart0 = Inr (3, s')" by blast
  have "sent (u_out uart0) @ tx_bytes uart0 = []" by (simp add: uart0_def tx_bytes_def)
  moreover have "map (the \<circ> ?get) [0..<3] = [97, 98, 99]" by (simp add: upt_rec)
  ultimately have "sent (u_out s') @ tx_bytes s' = [97, 98, 99]"
    using consolewrite_fifo [OF ok s'] by simp
  then show ?thesis using s' by blast
qed

text \<open>
  Claim C19. The console is a line editor. Whatever bytes arrive, \<open>consoleintr\<close> acts on the ring with its
  three wrapping indices as the abstract editor acts on two lists: a backspace drops the last byte of
  the line being edited and never one that was committed, the kill character drops the whole line, a
  full buffer ignores input, a line end, an end-of-file mark or a full buffer commits the line; and
  the order of the indices is kept.
\<close>

theorem console_line_editor:
  assumes "cons_ok s"
  shows "cons_ok (fold consoleintr cs s) \<and> cons_abs (fold consoleintr cs s) = fold edit_step cs (cons_abs s)"
  using assms
proof (induction cs arbitrary: s)
  case (Cons c cs)
  then show ?case using consoleintr_refines [OF Cons.prems, of c] by simp
qed simp

definition cons0 :: cons where
  "cons0 = \<lparr>c_buf = (\<lambda>_. 0), c_r = - 2, c_w = - 2, c_e = - 2, echo = [], woken = 0, dumps = 0\<rparr>"

theorem console_line_editor_witness:
  "cons_abs (fold consoleintr [97, 98, 127, 99, 13, 100] cons0) = ([97, 99, 10], [100])"
proof -
  have ok: "cons_ok cons0" by (simp add: cons_ok_def cons0_def edited_def)
  have "cons_abs cons0 = ([], [])" by (simp add: cons_abs_def cons0_def ready_bytes_def edited_def)
  then show ?thesis using console_line_editor [OF ok, of "[97, 98, 127, 99, 13, 100]"]
    by (simp add: key_defs INPUT_BUF_SIZE_def)
qed



end
