(* ===== verification/Virtio_Disk.thy ===== *)
theory Virtio_Disk
  imports Pipe_Buffer Page_Alloc
begin

text \<open>
  The disk driver (\<^verbatim>\<open>kernel/virtio_disk.c\<close>): eight descriptors, of which every request takes a chain of
  three, a ring in which the driver announces chains and one in which the device reports them. The
  device is a step of the model that reports an announced chain. A call of \<open>virtio_disk_rw\<close> sleeps
  until its request is reported, so it is two operations, before and after the wait.
\<close>

unbundle bit_operations_syntax

section \<open>State\<close>

definition NUM :: nat where "NUM = 8"

definition VRING_DESC_F_NEXT :: u16 where "VRING_DESC_F_NEXT = 1"
definition VRING_DESC_F_WRITE :: u16 where "VRING_DESC_F_WRITE = 2"
definition VIRTIO_BLK_T_IN :: u32 where "VIRTIO_BLK_T_IN = 0"
definition VIRTIO_BLK_T_OUT :: u32 where "VIRTIO_BLK_T_OUT = 1"

record virtq_desc =
  d_addr :: u64
  d_len :: u32
  d_flags :: u16
  d_next :: u16

record virtio_blk_req =
  req_type :: u32
  req_reserved :: u32
  req_sector :: u64

text \<open>\<open>d_busy b\<close> is the field \<^verbatim>\<open>disk\<close> of buffer \<open>b\<close>; \<open>d_woken\<close> are the buffers whose sleepers were woken.\<close>

record vdisk =
  d_desc :: "nat \<Rightarrow> virtq_desc"
  d_free :: "nat \<Rightarrow> bool"
  avail_idx :: u16
  avail_ring :: "nat \<Rightarrow> u16"
  used_dev :: u16
  used_ring :: "nat \<Rightarrow> u32"
  used_idx :: u16
  info_b :: "nat \<Rightarrow> nat option"
  info_status :: "nat \<Rightarrow> byte"
  d_ops :: "nat \<Rightarrow> virtio_blk_req"
  d_busy :: "nat \<Rightarrow> bool"
  d_woken :: "nat list"

text \<open>Where the linker put the command headers and the status bytes, and the data of the buffers.\<close>

record dma =
  ops_at :: "nat \<Rightarrow> u64"
  status_at :: "nat \<Rightarrow> u64"
  data_at :: "nat \<Rightarrow> u64"

definition null_desc :: virtq_desc where
  "null_desc = \<lparr>d_addr = 0, d_len = 0, d_flags = 0, d_next = 0\<rparr>"

section \<open>Initialisation\<close>

text \<open>
  \<open>reg\<close> is what a read of each register returns, and \<open>status2\<close> the status when it is read back. The
  result is the list of register writes and the three pages, in the order of the code.
\<close>

definition features_off :: "u64 \<Rightarrow> u64" where
  "features_off f = fold (\<lambda>k f. f AND NOT (push_bit k 1)) [5, 7, 11, 12, 27, 29, 28] f"

definition virtio_disk_init :: "(nat \<Rightarrow> u32) \<Rightarrow> u32 \<Rightarrow> 'a kmem_scheme \<Rightarrow> ((nat \<times> u32) list \<times> (nat \<Rightarrow> bool) \<times> 'a kmem_scheme) res" where
  "virtio_disk_init reg status2 s =
     (if reg 0x000 \<noteq> 0x74726976 \<or> reg 0x004 \<noteq> 2 \<or> reg 0x008 \<noteq> 2 \<or> reg 0x00c \<noteq> 0x554d4551
      then Inl (Panic ''could not find virtio disk'')
      else
        let w1 = [(0x070, 0), (0x070, 1), (0x070, 1 OR 2), (0x020, ucast (features_off (ucast (reg 0x010)))), (0x070, 1 OR 2 OR 8)] in
        if status2 AND 8 = 0 then Inl (Panic ''virtio disk FEATURES_OK unset'')
        else if reg 0x044 \<noteq> 0 then Inl (Panic ''virtio disk should not be ready'')
        else if reg 0x034 = 0 then Inl (Panic ''virtio disk has no queue 0'')
        else if reg 0x034 < of_nat NUM then Inl (Panic ''virtio disk max queue too short'')
        else
          let (desc, s) = kalloc s; (avail, s) = kalloc s; (used, s) = kalloc s in
          if desc = 0 \<or> avail = 0 \<or> used = 0 then Inl (Panic ''virtio disk kalloc'')
          else
            let m = memset (unat desc) 0 PGSIZE (kmemory s);
                m = memset (unat avail) 0 PGSIZE m;
                m = memset (unat used) 0 PGSIZE m;
                w2 = [(0x030, 0), (0x038, of_nat NUM),
                      (0x080, ucast desc), (0x084, ucast (drop_bit 32 desc)),
                      (0x090, ucast avail), (0x094, ucast (drop_bit 32 avail)),
                      (0x0a0, ucast used), (0x0a4, ucast (drop_bit 32 used)), (0x044, 1), (0x070, status2 OR 4)]
            in Inr (w1 @ w2, \<lambda>i. i < NUM, s\<lparr>kmemory := m\<rparr>))"

section \<open>Descriptors\<close>

definition alloc_desc :: "vdisk \<Rightarrow> (nat \<times> vdisk) option" where
  "alloc_desc s =
     (case scan (d_free s) 0 NUM of None \<Rightarrow> None | Some i \<Rightarrow> Some (i, s\<lparr>d_free := (d_free s)(i := False)\<rparr>))"

definition free_desc :: "nat \<Rightarrow> vdisk \<Rightarrow> vdisk res" where
  "free_desc i s =
     (if i \<ge> NUM then Inl (Panic ''free_desc 1'')
      else if d_free s i then Inl (Panic ''free_desc 2'')
      else Inr (s\<lparr>d_desc := (d_desc s)(i := null_desc), d_free := (d_free s)(i := True)\<rparr>))"

definition taken :: "vdisk \<Rightarrow> nat set" where
  "taken s = {i. i < NUM \<and> \<not> d_free s i}"

lemma finite_taken [simp]: "finite (taken s)"
  by (simp add: taken_def)

lemma taken_free:
  assumes "free_desc i s = Inr s'"
  shows "i \<in> taken s" "taken s' = taken s - {i}"
  using assms by (auto simp: free_desc_def taken_def split: if_splits)

lemma card_taken_free: "free_desc i s = Inr s' \<Longrightarrow> card (taken s') < card (taken s)"
  using taken_free [of i s s'] by (metis card_Diff1_less finite_taken)

function free_chain :: "nat \<Rightarrow> vdisk \<Rightarrow> vdisk res" where
  "free_chain i s =
     (let flag = d_flags (d_desc s i); nxt = d_next (d_desc s i) in
      ebind (free_desc i s) (\<lambda>s. if flag AND VRING_DESC_F_NEXT \<noteq> 0 then free_chain (unat nxt) s else Inr s))"
  by pat_completeness auto
termination
  by (relation "measure (\<lambda>(i, s). card (taken s))") (auto intro: card_taken_free)

declare free_chain.simps [simp del]

text \<open>Three descriptors, or none: those already taken are given back.\<close>

definition alloc3_desc :: "vdisk \<Rightarrow> ((nat \<times> nat \<times> nat) option \<times> vdisk) res" where
  "alloc3_desc s =
     (case alloc_desc s of
        None \<Rightarrow> Inr (None, s)
      | Some (i, s) \<Rightarrow>
          (case alloc_desc s of
             None \<Rightarrow> ebind (free_desc i s) (\<lambda>s. Inr (None, s))
           | Some (j, s) \<Rightarrow>
               (case alloc_desc s of
                  None \<Rightarrow> ebind (free_desc i s) (\<lambda>s. ebind (free_desc j s) (\<lambda>s. Inr (None, s)))
                | Some (k, s) \<Rightarrow> Inr (Some (i, j, k), s))))"

section \<open>Requests\<close>

definition format_chain :: "dma \<Rightarrow> nat \<Rightarrow> u32 \<Rightarrow> bool \<Rightarrow> nat \<Rightarrow> nat \<Rightarrow> nat \<Rightarrow> vdisk \<Rightarrow> vdisk" where
  "format_chain a b blockno write i j k s =
     s\<lparr>d_ops := (d_ops s)(i := \<lparr>req_type = (if write then VIRTIO_BLK_T_OUT else VIRTIO_BLK_T_IN), req_reserved = 0,
                               req_sector = ucast (blockno * (1024 div 512))\<rparr>),
       d_desc := (d_desc s)
         (i := \<lparr>d_addr = ops_at a i, d_len = 16, d_flags = VRING_DESC_F_NEXT, d_next = of_nat j\<rparr>,
          j := \<lparr>d_addr = data_at a b, d_len = 1024,
                d_flags = (if write then 0 else VRING_DESC_F_WRITE) OR VRING_DESC_F_NEXT, d_next = of_nat k\<rparr>,
          k := \<lparr>d_addr = status_at a i, d_len = 1, d_flags = VRING_DESC_F_WRITE, d_next = 0\<rparr>),
       info_status := (info_status s)(i := 0xff),
       d_busy := (d_busy s)(b := True),
       info_b := (info_b s)(i := Some b)\<rparr>"

text \<open>\<open>virtio_disk_rw\<close> up to the wait for the interrupt; with too few descriptors it sleeps.\<close>

definition virtio_disk_submit :: "dma \<Rightarrow> nat \<Rightarrow> u32 \<Rightarrow> bool \<Rightarrow> vdisk \<Rightarrow> (nat \<times> vdisk) res" where
  "virtio_disk_submit a b blockno write s =
     ebind (alloc3_desc s) (\<lambda>(r, s).
     case r of
       None \<Rightarrow> Inl (Asleep ''disk.free'')
     | Some (i, j, k) \<Rightarrow>
         let s = format_chain a b blockno write i j k s;
             s = s\<lparr>avail_ring := (avail_ring s)(unat (avail_idx s) mod NUM := of_nat i), avail_idx := avail_idx s + 1\<rparr>
         in Inr (i, s))"

definition virtio_disk_finish :: "nat \<Rightarrow> nat \<Rightarrow> vdisk \<Rightarrow> vdisk res" where
  "virtio_disk_finish b i s =
     (if d_busy s b then Inl (Asleep ''buf'') else free_chain i (s\<lparr>info_b := (info_b s)(i := None)\<rparr>))"

definition intr_one :: "vdisk \<Rightarrow> vdisk res" where
  "intr_one s =
     (let id = unat (used_ring s (unat (used_idx s) mod NUM)) in
      if info_status s id \<noteq> 0 then Inl (Panic ''virtio_disk_intr status'')
      else case info_b s id of
        None \<Rightarrow> Inl (Undef ''null buf'')
      | Some b \<Rightarrow> Inr (s\<lparr>d_busy := (d_busy s)(b := False), d_woken := d_woken s @ [b], used_idx := used_idx s + 1\<rparr>))"

interpretation used: ring_buffer NUM "TYPE(16)"
  by unfold_locales (simp_all add: NUM_def)

lemma intr_one_idx:
  "intr_one s = Inr s' \<Longrightarrow> used_idx s' = used_idx s + 1 \<and> used_dev s' = used_dev s"
  by (auto simp: intr_one_def Let_def split: if_splits option.splits)

function virtio_disk_intr :: "vdisk \<Rightarrow> vdisk res" where
  "virtio_disk_intr s = (if used_idx s \<noteq> used_dev s then ebind (intr_one s) virtio_disk_intr else Inr s)"
  by pat_completeness auto
termination
proof (relation "measure (\<lambda>s. unat (used_dev s - used_idx s))", simp)
  fix s x
  assume "used_idx s \<noteq> used_dev s" "intr_one s = Inr x"
  then show "(x, s) \<in> measure (\<lambda>s. unat (used_dev s - used_idx s))"
    using intr_one_idx [of s x] used.count_pred [of "used_idx s" "used_dev s"] by simp
qed

declare virtio_disk_intr.simps [simp del]

text \<open>The device reports chain \<open>i\<close>, done without an error.\<close>

definition device_done :: "nat \<Rightarrow> vdisk \<Rightarrow> vdisk" where
  "device_done i s =
     s\<lparr>info_status := (info_status s)(i := 0),
       used_ring := (used_ring s)(unat (used_dev s) mod NUM := of_nat i), used_dev := used_dev s + 1\<rparr>"

section \<open>Chains\<close>

definition heads :: "vdisk \<Rightarrow> nat set" where
  "heads s = {i. i < NUM \<and> info_b s i \<noteq> None}"

definition second :: "vdisk \<Rightarrow> nat \<Rightarrow> nat" where
  "second s i = unat (d_next (d_desc s i))"

definition dchain :: "vdisk \<Rightarrow> nat \<Rightarrow> nat list" where
  "dchain s i = [i, second s i, second s (second s i)]"

definition has_next :: "vdisk \<Rightarrow> nat \<Rightarrow> bool" where
  "has_next s i \<longleftrightarrow> d_flags (d_desc s i) AND VRING_DESC_F_NEXT \<noteq> 0"

text \<open>Three different taken descriptors, linked, with the end marked.\<close>

definition chain_ok :: "vdisk \<Rightarrow> nat \<Rightarrow> bool" where
  "chain_ok s i \<longleftrightarrow> distinct (dchain s i) \<and> set (dchain s i) \<subseteq> taken s \<and>
     has_next s i \<and> has_next s (second s i) \<and> \<not> has_next s (second s (second s i))"

definition reported :: "vdisk \<Rightarrow> nat list" where
  "reported s = map unat (used.contents (used_ring s) (used_idx s) (used_dev s))"

text \<open>
  The taken descriptors are those of the requests' chains, which have none in common; every request
  has its own buffer; what the device has reported and the driver not yet seen are requests that
  succeeded and whose buffer is still waited for.
\<close>

definition disk_ok :: "vdisk \<Rightarrow> bool" where
  "disk_ok s \<longleftrightarrow>
     (\<forall>i \<in> heads s. chain_ok s i) \<and>
     (\<forall>i \<in> heads s. \<forall>j \<in> heads s. i \<noteq> j \<longrightarrow> set (dchain s i) \<inter> set (dchain s j) = {}) \<and>
     taken s = (\<Union>i \<in> heads s. set (dchain s i)) \<and>
     inj_on (info_b s) (heads s) \<and>
     distinct (reported s) \<and> set (reported s) \<subseteq> heads s \<and>
     (\<forall>i \<in> set (reported s). info_status s i = 0 \<and> d_busy s (the (info_b s i)))"

lemma chain_frame:
  "(\<And>x. x \<in> set (dchain s i) \<Longrightarrow> d_desc s' x = d_desc s x) \<Longrightarrow> dchain s' i = dchain s i"
  by (simp add: dchain_def second_def)

lemma chain_ok_frame:
  assumes "\<And>x. x \<in> set (dchain s i) \<Longrightarrow> d_desc s' x = d_desc s x" "set (dchain s i) \<subseteq> taken s'" "chain_ok s i"
  shows "chain_ok s' i"
proof -
  have c: "dchain s' i = dchain s i" using assms(1) by (rule chain_frame)
  have "second s' i = second s i" "second s' (second s i) = second s (second s i)"
    "has_next s' i = has_next s i" "has_next s' (second s i) = has_next s (second s i)"
    "has_next s' (second s (second s i)) = has_next s (second s (second s i))"
    using assms(1) by (simp_all add: dchain_def second_def has_next_def)
  then show ?thesis using assms(2,3) c by (simp add: chain_ok_def)
qed

section \<open>Taking and freeing descriptors\<close>

lemma alloc_desc_Some:
  "alloc_desc s = Some (i, s') \<Longrightarrow> i < NUM \<and> d_free s i \<and> s' = s\<lparr>d_free := (d_free s)(i := False)\<rparr>"
  by (auto simp: alloc_desc_def scan_Some_iff split: option.splits)

lemma alloc3_cases:
  assumes "alloc3_desc s = Inr (r, s')"
  shows "case r of
      None \<Rightarrow> d_free s' = d_free s
    | Some (i, j, k) \<Rightarrow> distinct [i, j, k] \<and> {i, j, k} \<subseteq> {..<NUM} \<and> d_free s i \<and> d_free s j \<and> d_free s k \<and>
        s' = s\<lparr>d_free := (d_free s)(i := False, j := False, k := False)\<rparr>"
  using assms
  by (auto simp: alloc3_desc_def free_desc_def fun_eq_iff res_simps split: option.splits if_splits dest!: alloc_desc_Some)

lemma alloc3_total: "\<exists>r. alloc3_desc s = Inr r"
  by (auto simp: alloc3_desc_def free_desc_def split: option.splits dest!: alloc_desc_Some)

lemma free_chain_chain:
  assumes "chain_ok s i"
  shows "free_chain i s = Inr (s\<lparr>d_desc := (\<lambda>x. if x \<in> set (dchain s i) then null_desc else d_desc s x),
                                 d_free := (\<lambda>x. x \<in> set (dchain s i) \<or> d_free s x)\<rparr>)"
proof -
  define j k where "j = second s i" and "k = second s j"
  have c: "i < NUM" "j < NUM" "k < NUM" "\<not> d_free s i" "\<not> d_free s j" "\<not> d_free s k" "i \<noteq> j" "i \<noteq> k" "j \<noteq> k"
    "has_next s i" "has_next s j" "\<not> has_next s k"
    using assms by (auto simp: chain_ok_def dchain_def taken_def j_def k_def)
  have n: "unat (d_next (d_desc s i)) = j" "unat (d_next (d_desc s j)) = k" by (simp_all add: j_def k_def second_def)
  show ?thesis using c n
    by (simp add: free_chain.simps [of i] free_chain.simps [of j] free_chain.simps [of k] free_desc_def has_next_def
        dchain_def j_def [symmetric] k_def [symmetric] Let_def)
      (auto simp: fun_eq_iff)
qed

section \<open>Every operation keeps the invariant\<close>

lemma heads_taken: "disk_ok s \<Longrightarrow> i \<in> heads s \<Longrightarrow> set (dchain s i) \<subseteq> taken s \<and> i \<in> taken s"
  by (auto simp: disk_ok_def chain_ok_def dchain_def)

lemma rw_ok:
  assumes ok: "disk_ok s" and rw: "virtio_disk_submit a b bn wr s = Inr (i, s')" and new: "\<forall>h \<in> heads s. info_b s h \<noteq> Some b"
  shows "disk_ok s' \<and> heads s' = insert i (heads s) \<and> i \<notin> heads s \<and> info_b s' i = Some b \<and>
    (\<exists>j k. dchain s' i = [i, j, k] \<and> taken s' = taken s \<union> {i, j, k} \<and> {i, j, k} \<inter> taken s = {})"
proof -
  obtain j k s1 where a3: "alloc3_desc s = Inr (Some (i, j, k), s1)"
    and s': "s' = (format_chain a b bn wr i j k s1)\<lparr>avail_ring := (avail_ring s)(unat (avail_idx s) mod NUM := of_nat i), avail_idx := avail_idx s + 1\<rparr>"
  proof -
    obtain r s1 where r: "alloc3_desc s = Inr (r, s1)" using rw by (auto simp: virtio_disk_submit_def res_simps)
    then obtain i' j k where "r = Some (i', j, k)" using rw by (cases r) (auto simp: virtio_disk_submit_def)
    then show thesis using that r rw alloc3_cases [OF r] by (auto simp: virtio_disk_submit_def Let_def format_chain_def)
  qed
  have c: "distinct [i, j, k]" "{i, j, k} \<subseteq> {..<NUM}" "d_free s i" "d_free s j" "d_free s k"
    and s1: "s1 = s\<lparr>d_free := (d_free s)(i := False, j := False, k := False)\<rparr>"
    using alloc3_cases [OF a3] by simp_all
  have dis: "{i, j, k} \<inter> taken s = {}" using c by (auto simp: taken_def)
  have desc: "d_desc s' x = d_desc s x" if "x \<in> taken s" for x using that dis by (auto simp: s' s1 format_chain_def)
  have tk: "taken s' = taken s \<union> {i, j, k}" using c by (auto simp: taken_def s' s1 format_chain_def)
  have lt: "j < 2 ^ 16" "k < 2 ^ 16" using c(2) by (auto simp: NUM_def)
  have ch: "dchain s' i = [i, j, k]" "has_next s' i" "has_next s' j" "\<not> has_next s' k"
    using c(1) lt by (simp_all add: dchain_def second_def has_next_def s' s1 format_chain_def unat_of_nat
        VRING_DESC_F_NEXT_def VRING_DESC_F_WRITE_def)
  have ni: "i \<notin> heads s" using heads_taken [OF ok] dis by blast
  have hd: "heads s' = insert i (heads s)" using c(2) by (auto simp: heads_def s' s1 format_chain_def)
  have old: "dchain s' h = dchain s h \<and> chain_ok s' h" if h: "h \<in> heads s" for h
  proof -
    have d: "d_desc s' x = d_desc s x" if "x \<in> set (dchain s h)" for x using that heads_taken [OF ok h] desc by blast
    have "chain_ok s h" using ok h by (simp add: disk_ok_def)
    moreover have "set (dchain s h) \<subseteq> taken s'" using heads_taken [OF ok h] tk by blast
    ultimately show ?thesis using chain_frame [of s h s'] chain_ok_frame [of s h s'] d by blast
  qed
  have "second s' i = j" "second s' j = k" using ch(1) by (auto simp: dchain_def)
  then have cok: "chain_ok s' i" using ch c(1) tk by (simp add: chain_ok_def)
  have rep: "reported s' = reported s" by (simp add: reported_def s' s1 format_chain_def)
  have inf: "info_b s' = (info_b s)(i := Some b)" by (simp add: s' s1 format_chain_def)
  have st: "info_status s' h = info_status s h" "d_busy s h' \<Longrightarrow> d_busy s' h'" if "h \<in> heads s" for h h'
    using that ni by (auto simp: s' s1 format_chain_def)
  have "disk_ok s'" unfolding disk_ok_def
  proof (intro conjI ballI impI)
    show "chain_ok s' h" if "h \<in> heads s'" for h using that hd old cok by auto
    show "set (dchain s' x) \<inter> set (dchain s' y) = {}" if "x \<in> heads s'" "y \<in> heads s'" "x \<noteq> y" for x y
    proof -
      have "set (dchain s x) \<inter> set (dchain s y) = {}" if "x \<in> heads s" "y \<in> heads s" using that ok \<open>x \<noteq> y\<close> by (simp add: disk_ok_def)
      moreover have "set (dchain s h) \<inter> {i, j, k} = {}" if "h \<in> heads s" for h using that heads_taken [OF ok] dis by blast
      ultimately show ?thesis using that hd old ch(1) by (cases "x = i"; cases "y = i") (auto simp: insert_commute)
    qed
    show "taken s' = (\<Union>h \<in> heads s'. set (dchain s' h))" using tk hd old ch(1) ok by (auto simp: disk_ok_def)
    show "inj_on (info_b s') (heads s')"
    proof -
      have "inj_on (info_b s) (heads s)" using ok by (simp add: disk_ok_def)
      then show ?thesis unfolding hd inf inj_on_def using new ni by (metis fun_upd_apply insert_iff)
    qed
    show "distinct (reported s')" using ok rep by (simp add: disk_ok_def)
    show "set (reported s') \<subseteq> heads s'" using ok rep hd by (auto simp: disk_ok_def)
    fix h assume "h \<in> set (reported s')"
    then have h: "h \<in> set (reported s)" "h \<in> heads s" using ok rep by (auto simp: disk_ok_def)
    show "info_status s' h = 0" using h st(1) ok by (simp add: disk_ok_def)
    show "d_busy s' (the (info_b s' h))" using h st(2) [OF h(2)] ok ni inf by (auto simp: disk_ok_def)
  qed
  then show ?thesis using hd ni inf ch(1) tk dis by auto
qed

lemma disk_ok_cong:
  assumes "d_desc s' = d_desc s" "d_free s' = d_free s" "info_b s' = info_b s"
  shows "heads s' = heads s" "dchain s' = dchain s" "chain_ok s' = chain_ok s" "taken s' = taken s"
  using assms by (auto simp: heads_def dchain_def second_def chain_ok_def has_next_def taken_def fun_eq_iff)

lemma device_ok:
  assumes ok: "disk_ok s" and i: "i \<in> heads s" "i \<notin> set (reported s)" and busy: "d_busy s (the (info_b s i))"
  shows "disk_ok (device_done i s)"
proof -
  let ?s = "device_done i s"
  have eqs: "heads ?s = heads s" "dchain ?s = dchain s" "chain_ok ?s = chain_ok s" "taken ?s = taken s"
    by (rule disk_ok_cong; simp add: device_done_def)+
  have "set (reported s) \<subseteq> heads s - {i}" "distinct (reported s)" using ok i by (auto simp: disk_ok_def)
  then have "length (reported s) \<le> card (heads s - {i})" by (metis card_mono distinct_card finite_Diff finite_subset finite_lessThan heads_def lessThan_iff mem_Collect_eq subsetI)
  also have "\<dots> < card (heads s)" using i(1) by (intro card_Diff1_less) (simp_all add: heads_def)
  also have "\<dots> \<le> card {..<NUM}" by (intro card_mono) (auto simp: heads_def)
  finally have lt: "unat (used_dev s - used_idx s) < NUM" by (simp add: reported_def)
  have "unat (of_nat i :: u32) = i" using i(1) by (simp add: heads_def NUM_def unat_of_nat)
  then have rep: "reported ?s = reported s @ [i]"
    using used.contents_put [OF lt, of "used_ring s" "of_nat i"] by (simp add: reported_def device_done_def)
  show ?thesis using ok i busy unfolding disk_ok_def eqs rep by (auto simp: device_done_def)
qed

lemma intr_one_ok:
  assumes ok: "disk_ok s" and ne: "used_idx s \<noteq> used_dev s"
  shows "\<exists>s'. intr_one s = Inr s' \<and> disk_ok s' \<and> (\<exists>i. reported s = i # reported s') \<and> heads s' = heads s \<and> info_b s' = info_b s"
proof -
  define i where "i = unat (used_ring s (unat (used_idx s) mod NUM))"
  have rep: "reported s = i # map unat (used.contents (used_ring s) (used_idx s + 1) (used_dev s))"
    using used.contents_get [OF ne, of "used_ring s"] by (simp add: reported_def i_def)
  then have i: "i \<in> heads s" "info_status s i = 0" using ok by (auto simp: disk_ok_def)
  then obtain b where b: "info_b s i = Some b" by (auto simp: heads_def)
  define s' where "s' = s\<lparr>d_busy := (d_busy s)(b := False), d_woken := d_woken s @ [b], used_idx := used_idx s + 1\<rparr>"
  have s': "intr_one s = Inr s'" using i b by (simp add: intr_one_def i_def [symmetric] Let_def s'_def)
  have eqs: "heads s' = heads s" "dchain s' = dchain s" "chain_ok s' = chain_ok s" "taken s' = taken s"
    by (rule disk_ok_cong; simp add: s'_def)+
  have rep': "reported s = i # reported s'" using rep by (simp add: reported_def s'_def)
  have inf: "info_b s' = info_b s" "info_status s' = info_status s" by (simp_all add: s'_def)
  have "d_busy s' (the (info_b s h))" if "h \<in> set (reported s')" for h
  proof -
    have h: "h \<noteq> i" "h \<in> heads s" "d_busy s (the (info_b s h))" using that rep' ok by (auto simp: disk_ok_def)
    then have "info_b s h \<noteq> Some b" using ok b i(1) by (metis disk_ok_def inj_onD)
    then have "the (info_b s h) \<noteq> b" using h(2) by (auto simp: heads_def)
    then show ?thesis using h(3) by (simp add: s'_def)
  qed
  then have "disk_ok s'" using ok rep' unfolding disk_ok_def eqs inf by auto
  then show ?thesis using s' rep' eqs inf by blast
qed

lemma intr_ok:
  "disk_ok s \<Longrightarrow> \<exists>s'. virtio_disk_intr s = Inr s' \<and> disk_ok s' \<and> reported s' = [] \<and> heads s' = heads s \<and> info_b s' = info_b s"
proof (induction s rule: virtio_disk_intr.induct)
  case (1 s)
  show ?case
  proof (cases "used_idx s = used_dev s")
    case True
    then show ?thesis using 1(2) by (auto simp: virtio_disk_intr.simps [of s] reported_def)
  next
    case False
    then obtain s1 where "intr_one s = Inr s1" "disk_ok s1" "heads s1 = heads s" "info_b s1 = info_b s" using intr_one_ok [OF 1(2)] by blast
    then show ?thesis using 1(1) [OF False] False by (auto simp: virtio_disk_intr.simps [of s])
  qed
qed

lemma rw_done_ok:
  assumes ok: "disk_ok s" and i: "i \<in> heads s" "info_b s i = Some b" "\<not> d_busy s b"
  shows "\<exists>s'. virtio_disk_finish b i s = Inr s' \<and> disk_ok s' \<and> heads s' = heads s - {i} \<and>
    taken s' = taken s - set (dchain s i) \<and> set (dchain s i) \<subseteq> taken s \<and> card (set (dchain s i)) = 3"
proof -
  let ?s = "s\<lparr>info_b := (info_b s)(i := None)\<rparr>"
  have c: "dchain ?s = dchain s" by (auto simp: dchain_def second_def fun_eq_iff)
  have cok: "chain_ok s i" using ok i by (simp add: disk_ok_def)
  then have "chain_ok ?s i" unfolding chain_ok_def c by (simp add: second_def has_next_def taken_def)
  note fc = free_chain_chain [OF this, unfolded c]
  define s' where "s' = ?s\<lparr>d_desc := (\<lambda>x. if x \<in> set (dchain s i) then null_desc else d_desc ?s x),
    d_free := (\<lambda>x. x \<in> set (dchain s i) \<or> d_free ?s x)\<rparr>"
  have r: "virtio_disk_finish b i s = Inr s'" using fc i by (simp add: virtio_disk_finish_def s'_def)
  have hd: "heads s' = heads s - {i}" by (auto simp: heads_def s'_def)
  have tk: "taken s' = taken s - set (dchain s i)" by (auto simp: taken_def s'_def)
  have dj: "set (dchain s h) \<inter> set (dchain s i) = {}" if "h \<in> heads s'" for h using that ok i(1) hd by (auto simp: disk_ok_def)
  have old: "dchain s' h = dchain s h \<and> chain_ok s' h" if h: "h \<in> heads s'" for h
  proof -
    have d: "d_desc s' x = d_desc s x" if "x \<in> set (dchain s h)" for x using that dj [OF h] by (auto simp: s'_def)
    have h': "h \<in> heads s" using h hd by simp
    have "set (dchain s h) \<subseteq> taken s'" using heads_taken [OF ok h'] dj [OF h] tk by blast
    moreover have "chain_ok s h" using ok h' by (simp add: disk_ok_def)
    ultimately show ?thesis using chain_frame [of s h s'] chain_ok_frame [of s h s'] d by blast
  qed
  have rep: "reported s' = reported s" by (simp add: reported_def s'_def)
  have ni: "i \<notin> set (reported s)" using ok i by (auto simp: disk_ok_def)
  have "disk_ok s'" unfolding disk_ok_def
  proof (intro conjI ballI impI)
    show "taken s' = (\<Union>h \<in> heads s'. set (dchain s' h))"
    proof -
      have "taken s = (\<Union>h \<in> heads s. set (dchain s h))" using ok by (simp add: disk_ok_def)
      then have "taken s' = (\<Union>h \<in> heads s'. set (dchain s h))" using dj i(1) unfolding tk hd by blast
      then show ?thesis using old by simp
    qed
    show "inj_on (info_b s') (heads s')"
    proof -
      have "inj_on (info_b s) (heads s)" using ok by (simp add: disk_ok_def)
      moreover have "info_b s' h = info_b s h" if "h \<noteq> i" for h using that by (simp add: s'_def)
      ultimately show ?thesis unfolding inj_on_def hd by (metis Diff_iff singletonI)
    qed
    fix x y assume "x \<in> heads s'" "y \<in> heads s'" "x \<noteq> y"
    then show "set (dchain s' x) \<inter> set (dchain s' y) = {}" using ok hd old by (simp add: disk_ok_def)
  next
    fix h assume "h \<in> set (reported s')"
    then have h: "h \<in> set (reported s)" "h \<noteq> i" using rep ni by auto
    then show "info_status s' h = 0" "d_busy s' (the (info_b s' h))" using ok by (auto simp: disk_ok_def s'_def)
  qed (use old ok rep hd ni in \<open>auto simp: disk_ok_def\<close>)
  moreover have "set (dchain s i) \<subseteq> taken s" "card (set (dchain s i)) = 3"
    using cok distinct_card [of "dchain s i"] by (simp_all add: chain_ok_def dchain_def)
  ultimately show ?thesis using r hd tk by blast
qed

section \<open>The driver and the device together\<close>

text \<open>A caller of \<open>virtio_disk_rw\<close> holds the lock of its buffer, so the buffer has no request yet.\<close>

inductive disk_step :: "dma \<Rightarrow> vdisk \<Rightarrow> vdisk \<Rightarrow> bool" for a where
  submit: "virtio_disk_submit a b bn wr s = Inr (i, s') \<Longrightarrow> \<forall>h \<in> heads s. info_b s h \<noteq> Some b \<Longrightarrow> disk_step a s s'"
| device: "i \<in> heads s \<Longrightarrow> i \<notin> set (reported s) \<Longrightarrow> d_busy s (the (info_b s i)) \<Longrightarrow> disk_step a s (device_done i s)"
| interrupt: "virtio_disk_intr s = Inr s' \<Longrightarrow> disk_step a s s'"
| finish: "i \<in> heads s \<Longrightarrow> info_b s i = Some b \<Longrightarrow> virtio_disk_finish b i s = Inr s' \<Longrightarrow> disk_step a s s'"

definition disk_start :: "vdisk \<Rightarrow> bool" where
  "disk_start s \<longleftrightarrow> (\<forall>i < NUM. d_free s i) \<and> used_idx s = used_dev s \<and> info_b s = (\<lambda>_. None)"

lemma disk_step_ok:
  assumes "disk_step a s s'" "disk_ok s"
  shows "disk_ok s'"
  using assms
proof cases
  case (submit b bn wr i)
  then show ?thesis using rw_ok [OF assms(2)] by blast
next
  case (device i)
  then show ?thesis using device_ok [OF assms(2)] by blast
next
  case interrupt
  then show ?thesis using intr_ok [OF assms(2)] by fastforce
next
  case (finish i b)
  then have "\<not> d_busy s b" by (auto simp: virtio_disk_finish_def split: if_splits)
  then show ?thesis using rw_done_ok [OF assms(2)] finish by fastforce
qed

interpretation disk: invariant_system disk_start "disk_step a" disk_ok
proof
  show "disk_ok s" if "disk_start s" for s
    using that by (auto simp: disk_start_def disk_ok_def heads_def taken_def reported_def)
qed (rule disk_step_ok)

text \<open>
  Claim C17. The disk driver never loses, shares or frees twice a descriptor. In every state the driver and
  the device reach, requests have chains of three descriptors, the chains of two requests are
  disjoint, a descriptor is taken exactly if it is in one of them, the interrupt handler runs to its
  end without a panic, and a request that was completed frees its own three descriptors and no others.
\<close>

theorem virtio_descriptors:
  assumes "reach disk_start (disk_step a) s"
  shows "taken s = (\<Union>i \<in> heads s. set (dchain s i)) \<and>
    (\<forall>i \<in> heads s. \<forall>j \<in> heads s. i \<noteq> j \<longrightarrow> set (dchain s i) \<inter> set (dchain s j) = {}) \<and>
    (\<exists>s'. virtio_disk_intr s = Inr s' \<and> reported s' = []) \<and>
    (\<forall>i b. i \<in> heads s \<longrightarrow> info_b s i = Some b \<longrightarrow> \<not> d_busy s b \<longrightarrow>
       card (set (dchain s i)) = 3 \<and>
       (\<exists>s'. virtio_disk_finish b i s = Inr s' \<and> taken s' = taken s - set (dchain s i)))"
proof -
  have ok: "disk_ok s" using disk.reach_inv [OF assms] .
  show ?thesis
  proof (intro conjI allI impI)
    show "taken s = (\<Union>i \<in> heads s. set (dchain s i))"
      "\<forall>i \<in> heads s. \<forall>j \<in> heads s. i \<noteq> j \<longrightarrow> set (dchain s i) \<inter> set (dchain s j) = {}"
      using ok unfolding disk_ok_def by simp_all
    show "\<exists>s'. virtio_disk_intr s = Inr s' \<and> reported s' = []" using intr_ok [OF ok] by blast
    fix i b assume "i \<in> heads s" "info_b s i = Some b" "\<not> d_busy s b"
    from rw_done_ok [OF ok this]
    show "card (set (dchain s i)) = 3" "\<exists>s'. virtio_disk_finish b i s = Inr s' \<and> taken s' = taken s - set (dchain s i)"
      by blast+
  qed
qed

definition disk0 :: vdisk where
  "disk0 = \<lparr>d_desc = (\<lambda>_. null_desc), d_free = (\<lambda>_. True), avail_idx = 0, avail_ring = (\<lambda>_. 0), used_dev = 0,
     used_ring = (\<lambda>_. 0), used_idx = 0, info_b = (\<lambda>_. None), info_status = (\<lambda>_. 0),
     d_ops = (\<lambda>_. \<lparr>req_type = 0, req_reserved = 0, req_sector = 0\<rparr>), d_busy = (\<lambda>_. False), d_woken = []\<rparr>"

definition dma0 :: dma where
  "dma0 = \<lparr>ops_at = of_nat, status_at = of_nat, data_at = of_nat\<rparr>"

text \<open>A request from an idle disk, reported, handled and finished.\<close>

lemma disk0_request:
  obtains s where "virtio_disk_submit dma0 7 1 True disk0 = Inr (0, s)" "heads s = {0}" "info_b s 0 = Some 7" "d_busy s 7"
    "reported s = []" "dchain s 0 = [0, 1, 2]"
proof -
  have ok: "disk_ok disk0" by (rule disk.inv_start) (simp add: disk_start_def disk0_def)
  have sc: "scan (d_free disk0) 0 NUM = Some 0" by (simp add: scan_step disk0_def NUM_def)
  define s1 where "s1 = disk0\<lparr>d_free := (d_free disk0)(0 := False)\<rparr>"
  define s2 where "s2 = s1\<lparr>d_free := (d_free s1)(1 := False)\<rparr>"
  define s3 where "s3 = s2\<lparr>d_free := (d_free s2)(2 := False)\<rparr>"
  have sc1: "scan (d_free s1) 0 NUM = Some 1" by (auto simp: scan_Some_iff s1_def disk0_def NUM_def)
  have sc2: "scan (d_free s2) 0 NUM = Some 2" by (auto simp: scan_Some_iff s2_def s1_def disk0_def NUM_def)
  have "alloc_desc disk0 = Some (0, s1)" "alloc_desc s1 = Some (1, s2)" "alloc_desc s2 = Some (2, s3)"
    using sc sc1 sc2 by (simp_all add: alloc_desc_def s1_def s2_def s3_def)
  then have "alloc3_desc disk0 = Inr (Some (0, 1, 2), s3)" by (simp add: alloc3_desc_def)
  then obtain s where s: "virtio_disk_submit dma0 7 1 True disk0 = Inr (0, s)"
    and def: "s = (format_chain dma0 7 1 True 0 1 2 s3)\<lparr>avail_ring := (avail_ring s3)(unat (avail_idx s3) mod NUM := 0), avail_idx := avail_idx s3 + 1\<rparr>"
    by (simp add: virtio_disk_submit_def Let_def format_chain_def)
  have h0: "heads disk0 = {}" by (auto simp: heads_def disk0_def)
  have "reported s = []" "d_busy s 7" "dchain s 0 = [0, 1, 2]"
    by (simp_all add: def format_chain_def s3_def s2_def s1_def disk0_def reported_def dchain_def second_def)
  then show thesis using that s rw_ok [OF ok s] h0 by simp
qed

theorem virtio_descriptors_witness:
  "\<exists>s. reach disk_start (disk_step dma0) s \<and> heads s = {0} \<and> taken s = {0, 1, 2}"
proof -
  obtain s where s: "virtio_disk_submit dma0 7 1 True disk0 = Inr (0, s)" "heads s = {0}" "dchain s 0 = [0, 1, 2]"
    by (rule disk0_request)
  have "reach disk_start (disk_step dma0) disk0" by (rule reach_start) (simp add: disk_start_def disk0_def)
  then have r: "reach disk_start (disk_step dma0) s"
    by (rule reach_step, intro disk_step.submit [OF s(1)]) (simp add: heads_def disk0_def)
  then have "taken s = {0, 1, 2}" using virtio_descriptors [OF r] s by auto
  then show ?thesis using r s(2) by blast
qed

end
