(* ===== verification/Trap_Handler.thy ===== *)
theory Trap_Handler
  imports Sys_Proc Console_Uart Virtio_Disk
begin

text \<open>
  Traps and interrupts (\<^verbatim>\<open>kernel/trap.c\<close>, and \<^verbatim>\<open>kernel/plic.c\<close> as inputs and outputs): the supervisor registers that
  the code reads and writes, the dispatch of interrupts to the drivers, and the way into the kernel and
  back to the user. The code in \<^verbatim>\<open>trampoline.S\<close> and \<^verbatim>\<open>kernelvec.S\<close> saves and restores the other registers.
\<close>

unbundle bit_operations_syntax

section \<open>State\<close>

definition SSTATUS_SPP :: u64 where "SSTATUS_SPP = push_bit 8 1"
definition SSTATUS_SPIE :: u64 where "SSTATUS_SPIE = push_bit 5 1"
definition SSTATUS_SIE :: u64 where "SSTATUS_SIE = push_bit 1 1"
definition UART0_IRQ :: nat where "UART0_IRQ = 10"
definition VIRTIO0_IRQ :: nat where "VIRTIO0_IRQ = 1"

definition MAKE_SATP :: "u64 \<Rightarrow> u64" where
  "MAKE_SATP pagetable = push_bit 60 8 OR drop_bit 12 pagetable"

record csr =
  sstatus :: u64
  sepc :: u64
  scause :: u64
  stval :: u64
  satp :: u64
  tp :: u64
  stvec :: u64
  stimecmp :: u64

text \<open>The kernel, the registers of a hart, and the state of the drivers; \<open>m_complete\<close> are the interrupts acknowledged.\<close>

record machine =
  m_k :: kernel
  m_csr :: csr
  m_cons :: cons
  m_uart :: uart
  m_disk :: vdisk
  m_complete :: "nat list"

text \<open>What the devices give during the trap: the clock, the claim of the interrupt controller, the serial port.\<close>

record devices =
  dv_time :: u64
  dv_claim :: nat
  dv_rx :: "(byte \<times> byte) list"
  dv_idle :: "bool list"

text \<open>Addresses of the linker: \<open>kernelvec\<close>, \<open>usertrap\<close>, \<open>uservec\<close> and \<open>userret\<close> in the trampoline page.\<close>

record vectors =
  v_kernelvec :: u64
  v_usertrap :: u64
  v_uservec :: u64
  v_userret :: u64

section \<open>Interrupts\<close>

definition trapinithart :: "vectors \<Rightarrow> csr \<Rightarrow> csr" where
  "trapinithart v c = c\<lparr>stvec := v_kernelvec v\<rparr>"

definition clockintr :: "devices \<Rightarrow> machine \<Rightarrow> machine" where
  "clockintr d m =
     (let m = (if tp (m_csr m) = 0
               then m\<lparr>m_k := wakeup ChTicks ((m_k m)\<lparr>ticks := ticks (m_k m) + 1\<rparr>)\<rparr> else m)
      in m\<lparr>m_csr := (m_csr m)\<lparr>stimecmp := dv_time d + 1000000\<rparr>\<rparr>)"

text \<open>The wakeups that the drivers asked for reach the processes that sleep on them.\<close>

definition uart_interrupt :: "devices \<Rightarrow> machine \<Rightarrow> machine" where
  "uart_interrupt d m =
     (case uartintr (dv_rx d) (dv_idle d) (m_cons m) (m_uart m) of
        (c, u) \<Rightarrow>
          let k = m_k m;
              k = (if woken c \<noteq> woken (m_cons m) then wakeup ChCons k else k);
              k = (if tx_r u \<noteq> tx_r (m_uart m) then wakeup ChUart k else k)
          in m\<lparr>m_cons := c, m_uart := u, m_k := k\<rparr>)"

definition disk_interrupt :: "machine \<Rightarrow> machine res" where
  "disk_interrupt m =
     ebind (virtio_disk_intr (m_disk m)) (\<lambda>s.
     Inr (m\<lparr>m_disk := s, m_k := fold (\<lambda>b. wakeup (ChDisk b)) (drop (length (d_woken (m_disk m))) (d_woken s)) (m_k m)\<rparr>))"

text \<open>2 for the clock, 1 for another device, 0 if the cause is not an interrupt it knows.\<close>

definition devintr :: "devices \<Rightarrow> machine \<Rightarrow> (nat \<times> machine) res" where
  "devintr d m =
     (if scause (m_csr m) = 0x8000000000000009 then
        let irq = dv_claim d in
        ebind (if irq = UART0_IRQ then Inr (uart_interrupt d m)
               else if irq = VIRTIO0_IRQ then disk_interrupt m
               else Inr m) (\<lambda>m.
        Inr (1, if irq \<noteq> 0 then m\<lparr>m_complete := m_complete m @ [irq]\<rparr> else m))
      else if scause (m_csr m) = 0x8000000000000005 then Inr (2, clockintr d m)
      else Inr (0, m))"

section \<open>Into the kernel and back\<close>

definition TF_KSATP :: nat where [layout_simps]: "TF_KSATP = 0"
definition TF_KSP :: nat where [layout_simps]: "TF_KSP = 8"
definition TF_KTRAP :: nat where [layout_simps]: "TF_KTRAP = 16"
definition TF_KHARTID :: nat where [layout_simps]: "TF_KHARTID = 32"

text \<open>The result is the machine and the page table for which the trampoline is entered.\<close>

definition usertrapret :: "vectors \<Rightarrow> machine \<Rightarrow> u64 \<times> machine" where
  "usertrapret v m =
     (let c = m_csr m;
          k = m_k m;
          p = me k;
          c = c\<lparr>sstatus := sstatus c AND NOT SSTATUS_SIE\<rparr>;
          c = c\<lparr>stvec := v_uservec v\<rparr>;
          k = put_tf p TF_KSATP (satp c) k;
          k = put_tf p TF_KSP (p_kstack (kprocs k p) + of_nat PGSIZE) k;
          k = put_tf p TF_KTRAP (v_usertrap v) k;
          k = put_tf p TF_KHARTID (tp c) k;
          c = c\<lparr>sstatus := (sstatus c AND NOT SSTATUS_SPP) OR SSTATUS_SPIE\<rparr>;
          c = c\<lparr>sepc := get_tf p TF_EPC k\<rparr>
      in (MAKE_SATP (p_pagetable (kprocs k p)), m\<lparr>m_csr := c, m_k := k\<rparr>))"

text \<open>
  The process is back in user mode, or it has exited. A process that yields goes on when the scheduler
  runs it again; what other processes do in between is not part of the call.
\<close>

datatype trapped = ToUser u64 machine | Exited machine

definition leave :: "env \<Rightarrow> vectors \<Rightarrow> nat \<Rightarrow> machine \<Rightarrow> trapped res" where
  "leave e v which_dev m =
     (if killed (me (m_k m)) (m_k m)
      then ebind (exit (e_kend e) (- 1) (m_k m)) (\<lambda>k. Inr (Exited (m\<lparr>m_k := k\<rparr>)))
      else
        let m = (if which_dev = 2 then m\<lparr>m_k := upd_proc (me (m_k m)) (\<lambda>x. x\<lparr>p_state := RUNNING\<rparr>) (yield (m_k m))\<rparr> else m)
        in case usertrapret v m of (pt, m) \<Rightarrow> Inr (ToUser pt m))"

definition usertrap :: "env \<Rightarrow> vectors \<Rightarrow> devices \<Rightarrow> machine \<Rightarrow> trapped res" where
  "usertrap e v d m =
     (if sstatus (m_csr m) AND SSTATUS_SPP \<noteq> 0 then Inl (Panic ''usertrap: not from user mode'')
      else
        let m = m\<lparr>m_csr := (m_csr m)\<lparr>stvec := v_kernelvec v\<rparr>\<rparr>;
            p = me (m_k m);
            m = m\<lparr>m_k := put_tf p TF_EPC (sepc (m_csr m)) (m_k m)\<rparr>
        in
        if scause (m_csr m) = 8 then
          if killed p (m_k m) then ebind (exit (e_kend e) (- 1) (m_k m)) (\<lambda>k. Inr (Exited (m\<lparr>m_k := k\<rparr>)))
          else
            let m = m\<lparr>m_k := put_tf p TF_EPC (get_tf p TF_EPC (m_k m) + 4) (m_k m)\<rparr>;
                m = m\<lparr>m_csr := (m_csr m)\<lparr>sstatus := sstatus (m_csr m) OR SSTATUS_SIE\<rparr>\<rparr>
            in ebind (syscall e (m_k m)) (\<lambda>k. leave e v 0 (m\<lparr>m_k := k\<rparr>))
        else
          ebind (devintr d m) (\<lambda>(which_dev, m).
          if which_dev \<noteq> 0 then leave e v which_dev m
          else leave e v 0 (m\<lparr>m_k := setkilled p (m_k m)\<rparr>)))"

definition kerneltrap :: "devices \<Rightarrow> bool \<Rightarrow> machine \<Rightarrow> machine res" where
  "kerneltrap d has_proc m =
     (let epc = sepc (m_csr m); st = sstatus (m_csr m) in
      if st AND SSTATUS_SPP = 0 then Inl (Panic ''kerneltrap: not from supervisor mode'')
      else if st AND SSTATUS_SIE \<noteq> 0 then Inl (Panic ''kerneltrap: interrupts enabled'')
      else
        ebind (devintr d m) (\<lambda>(which_dev, m).
        if which_dev = 0 then Inl (Panic ''kerneltrap'')
        else
          let m = (if which_dev = 2 \<and> has_proc then m\<lparr>m_k := upd_proc (me (m_k m)) (\<lambda>x. x\<lparr>p_state := RUNNING\<rparr>) (yield (m_k m))\<rparr> else m)
          in Inr (m\<lparr>m_csr := (m_csr m)\<lparr>sepc := epc, sstatus := st\<rparr>\<rparr>)))"

section \<open>What a wakeup leaves alone\<close>

text \<open>Nothing but the states of other processes.\<close>

definition same_frame :: "kernel \<Rightarrow> kernel \<Rightarrow> bool" where
  "same_frame k k' \<longleftrightarrow> kmemory k' = kmemory k \<and> me k' = me k \<and> ticks k' = ticks k \<and>
     (\<forall>p. p_trapframe (kprocs k' p) = p_trapframe (kprocs k p) \<and> p_pagetable (kprocs k' p) = p_pagetable (kprocs k p) \<and>
          p_killed (kprocs k' p) = p_killed (kprocs k p))"

lemma same_frame_refl [simp]: "same_frame k k"
  by (simp add: same_frame_def)

lemma same_frame_trans: "same_frame k k' \<Longrightarrow> same_frame k' k'' \<Longrightarrow> same_frame k k''"
  by (simp add: same_frame_def)

lemma same_frame_state: "same_frame k (upd_proc p (\<lambda>x. x\<lparr>p_state := st\<rparr>) k)"
  by (simp add: same_frame_def upd_proc_def)

lemma same_frame_wakeup: "same_frame k (wakeup ch k)"
proof -
  have "same_frame k (fold (\<lambda>p k. if p \<noteq> me k \<and> p_state (kprocs k p) = SLEEPING \<and> p_chan (kprocs k p) = Some ch
      then upd_proc p (\<lambda>x. x\<lparr>p_state := RUNNABLE\<rparr>) k else k) ps k)" for ps
    by (induction ps arbitrary: k) (auto intro: same_frame_trans same_frame_state)
  then show ?thesis by (simp add: wakeup_def)
qed

lemma same_frame_yield: "same_frame k (upd_proc p (\<lambda>x. x\<lparr>p_state := RUNNING\<rparr>) (yield k))"
  unfolding yield_def by (rule same_frame_trans [OF same_frame_state same_frame_state])

lemma clockintr_frame:
  "same_frame ((m_k m)\<lparr>ticks := ticks (m_k m) + (if tp (m_csr m) = 0 then 1 else 0)\<rparr>) (m_k (clockintr d m)) \<and>
   m_csr (clockintr d m) = (m_csr m)\<lparr>stimecmp := dv_time d + 1000000\<rparr>"
  by (simp add: clockintr_def Let_def same_frame_wakeup)

section \<open>Properties\<close>

lemma bit_SSTATUS: "bit SSTATUS_SPP n \<longleftrightarrow> n = 8" "bit SSTATUS_SPIE n \<longleftrightarrow> n = 5"
  unfolding SSTATUS_SPP_def SSTATUS_SPIE_def bit_push_bit_iff bit_1_iff by auto

lemma sret_status:
  "((x AND NOT SSTATUS_SPP) OR SSTATUS_SPIE) AND SSTATUS_SPP = 0"
  "((x AND NOT SSTATUS_SPP) OR SSTATUS_SPIE) AND SSTATUS_SPIE = SSTATUS_SPIE"
  by (rule bit_word_eqI; auto simp: bit_SSTATUS bit_simps)+


definition trap_proc :: proc where
  "trap_proc = \<lparr>p_state = RUNNING, p_chan = None, p_killed = False, p_xstate = 0, p_pid = 1, p_parent = None, p_kstack = 4096,
     p_sz = 4096, p_pagetable = 0x80100000, p_trapframe = 0x80200000, p_context = \<lparr>c_ra = 0, c_sp = 0, c_saved = (\<lambda>_. 0)\<rparr>,
     p_ofile = (\<lambda>_. None), p_cwd = None, p_name = []\<rparr>"

definition trap_kernel :: kernel where
  "trap_kernel = \<lparr>kmemory = (\<lambda>_. 5), freelist = 0, kprocs = (\<lambda>_. trap_proc), nextpid = 2, initproc = None,
     ftable = (\<lambda>_. \<lparr>f_type = FD_NONE, f_ref = 0, f_readable = False, f_writable = False, f_pipe = 0, f_ip = 0, f_off = 0, f_major = 0\<rparr>),
     kpipes = (\<lambda>_. \<lparr>p_data = (\<lambda>_. 0), nread = 0, nwrite = 0, readopen = False, writeopen = False\<rparr>),
     kfs = small_fs, ops = 0, ticks = 41, me = 3\<rparr>"

definition trap_machine :: machine where
  "trap_machine = \<lparr>m_k = trap_kernel,
     m_csr = \<lparr>sstatus = 32, sepc = 0x1234, scause = 0x8000000000000005, stval = 0, satp = 0, tp = 0, stvec = 0, stimecmp = 0\<rparr>,
     m_cons = cons0, m_uart = uart0, m_disk = disk0, m_complete = []\<rparr>"


end
