(* ===== verification/Process_Runner.thy ===== *)
theory Process_Runner
  imports Kernel_Prelude "HOL-Library.Multiset"
begin

text \<open>
  The process runner of the first project (\<^verbatim>\<open>ergasia1.c\<close>): a parent starts and terminates child
  processes at the steps a configuration file gives, and at every step hands a line of a text file to
  a randomly chosen active child. The files are strings, as \<open>fgets\<close> reads them; the results of
  \<open>fork\<close> and \<open>rand\<close> are parameters. \<open>Panic m\<close> is a return of \<open>-1\<close> after the message \<open>m\<close>,
  \<open>Undef\<close> an access outside an array or a read of an unset variable, \<open>Asleep\<close> a wait that
  nobody ends.
\<close>

section \<open>Reading the files\<close>

definition newline :: char where "newline = CHR 0x0A"

text \<open>\<open>fgets\<close> with a buffer of \<open>n\<close> bytes takes at most \<open>n - 1\<close>, and stops after a line end.\<close>

fun fgets :: "nat \<Rightarrow> string \<Rightarrow> string \<times> string" where
  "fgets 0 s = ([], s)"
| "fgets (Suc n) [] = ([], [])"
| "fgets (Suc n) (c # s) =
     (if n = 0 then ([], c # s)
      else if c = newline then ([c], s)
      else case fgets n s of (l, r) \<Rightarrow> (c # l, r))"

lemma fgets_append: "fgets n s = (l, r) \<Longrightarrow> l @ r = s"
  by (induction n s arbitrary: l rule: fgets.induct) (auto split: if_splits prod.splits)

lemma fgets_progress: "1 < n \<Longrightarrow> s \<noteq> [] \<Longrightarrow> fst (fgets n s) \<noteq> []"
  by (cases "(n, s)" rule: fgets.cases) (auto split: prod.splits)

lemma fgets_shorter: "1 < n \<Longrightarrow> s \<noteq> [] \<Longrightarrow> length (snd (fgets n s)) < length s"
  using fgets_append [of n s "fst (fgets n s)" "snd (fgets n s)"] fgets_progress [of n s]
  by (metis length_append length_greater_0_conv less_add_same_cancel2 prod.collapse)

definition LINE :: nat where "LINE = 257"

lemma fgets_line_shorter: "(l, r) = fgets LINE s \<Longrightarrow> s \<noteq> [] \<Longrightarrow> length r < length s"
  using fgets_shorter [of LINE s] by (metis LINE_def one_less_numeral_iff semiring_norm(77) snd_conv)

function read_lines :: "string \<Rightarrow> string list" where
  "read_lines s = (if s = [] then [] else case fgets LINE s of (l, r) \<Rightarrow> l # read_lines r)"
  by pat_completeness auto
termination
  by (relation "measure length") (auto dest: fgets_line_shorter)

declare read_lines.simps [simp del]

text \<open>Every line but the last loses its last byte, the line end.\<close>

definition load_text :: "string \<Rightarrow> string list" where
  "load_text s =
     (let ls = read_lines s in map butlast (butlast ls) @ (if ls = [] then [] else [last ls]))"

section \<open>The command line\<close>

definition isdigit :: "char \<Rightarrow> bool" where
  "isdigit c \<longleftrightarrow> (48 :: nat) \<le> of_char c \<and> of_char c \<le> (57 :: nat)"

definition digit_val :: "char \<Rightarrow> int" where
  "digit_val c = of_char c - 48"

definition dec_val :: "string \<Rightarrow> int" where
  "dec_val s = foldl (\<lambda>n c. 10 * n + digit_val c) 0 s"

text \<open>A number that does not fit an \<open>int\<close> is undefined.\<close>

definition as_int :: "int \<Rightarrow> int res" where
  "as_int n = (if - (2 ^ 31) \<le> n \<and> n < 2 ^ 31 then Inr n else Inl (Undef ''int overflow''))"

definition c_atoi :: "string \<Rightarrow> int res" where
  "c_atoi s = as_int (dec_val (takeWhile isdigit s))"

definition check_args :: "nat \<Rightarrow> bool \<Rightarrow> bool \<Rightarrow> string \<Rightarrow> int res" where
  "check_args argc config_ok text_ok arg3 =
     (if argc \<noteq> 4 \<or> \<not> config_ok \<or> \<not> text_ok then Inl (Panic [])
      else if \<not> list_all isdigit arg3 then Inl (Panic [])
      else c_atoi arg3)"

section \<open>Scanning a line of the configuration\<close>

definition is_space :: "char \<Rightarrow> bool" where
  "is_space c \<longleftrightarrow> c \<in> {CHR '' '', CHR 0x09, CHR 0x0A, CHR 0x0B, CHR 0x0C, CHR 0x0D}"

definition scan_s :: "string \<Rightarrow> (string \<times> string) option" where
  "scan_s s =
     (let s = dropWhile is_space s; w = takeWhile (\<lambda>c. \<not> is_space c) s in
      if w = [] then None else Some (w, dropWhile (\<lambda>c. \<not> is_space c) s))"

definition scan_d :: "string \<Rightarrow> (int \<times> string) option" where
  "scan_d s =
     (let s = dropWhile is_space s;
          neg = (s \<noteq> [] \<and> hd s = CHR ''-'');
          s = (if s \<noteq> [] \<and> (hd s = CHR ''-'' \<or> hd s = CHR ''+'') then tl s else s);
          ds = takeWhile isdigit s
      in if ds = [] then None else Some (if neg then - dec_val ds else dec_val ds, dropWhile isdigit s))"

text \<open>What \<^verbatim>\<open>sscanf(line, "%d %s %s", ...)\<close> stores: the conversions done before the first that fails.\<close>

datatype scanned = Conv0 | Conv1 int | Conv2 int string | Conv3 int string string

definition sscanf :: "string \<Rightarrow> scanned" where
  "sscanf line =
     (case scan_d line of
        None \<Rightarrow> Conv0
      | Some (n, s) \<Rightarrow>
          (case scan_s s of
             None \<Rightarrow> Conv1 n
           | Some (a, s) \<Rightarrow>
               (case scan_s s of None \<Rightarrow> Conv2 n a | Some (b, s) \<Rightarrow> Conv3 n a b)))"

text \<open>A word goes into an array of \<open>n\<close> bytes, with its terminating zero.\<close>

definition store_word :: "nat \<Rightarrow> string \<Rightarrow> unit res" where
  "store_word n w = (if length w < n then Inr () else Inl (Undef ''buffer overflow''))"

text \<open>The first pass finds the number of the last line, with \<^verbatim>\<open>char col[3], status[2]\<close>.\<close>

definition last_number_line :: "string \<Rightarrow> int \<Rightarrow> int res" where
  "last_number_line line last_number =
     (case sscanf line of
        Conv3 n col status \<Rightarrow>
          ebind (as_int n) (\<lambda>n. ebind (store_word 3 col) (\<lambda>_. ebind (store_word 2 status) (\<lambda>_. Inr n)))
      | Conv2 n col \<Rightarrow> ebind (as_int n) (\<lambda>n. ebind (store_word 3 col) (\<lambda>_. Inr n))
      | Conv1 n \<Rightarrow> ebind (as_int n) (\<lambda>_. Inr last_number)
      | Conv0 \<Rightarrow> Inr last_number)"

definition last_number :: "string list \<Rightarrow> int res" where
  "last_number lines = efold last_number_line lines 0"

section \<open>The table of commands\<close>

record opcommand =
  process :: int
  cmd :: string
  command_exists :: string

definition no_command :: opcommand where
  "no_command = \<lparr>process = 0, cmd = '' '', command_exists = ''N''\<rparr>"

definition init_commands :: "int \<Rightarrow> (opcommand list) res" where
  "init_commands n = (if n \<le> 0 then Inl (Undef ''array length'') else Inr (replicate (nat n) no_command))"

definition put_command :: "int \<Rightarrow> opcommand \<Rightarrow> opcommand list \<Rightarrow> (opcommand list) res" where
  "put_command i c t =
     (if 0 \<le> i \<and> i < int (length t) then Inr (t[nat i := c]) else Inl (Undef ''commandsstruct''))"

record config =
  commands :: "opcommand list"
  last_step :: int
  final_step :: int
  exit_step_found :: bool

definition config_command :: "int \<Rightarrow> string \<Rightarrow> string \<Rightarrow> config \<Rightarrow> config res" where
  "config_command stp proc com s =
     (if last_step s > stp then Inl (Panic ''Error, commands are not in ascending order'')
      else if hd proc \<noteq> CHR ''C'' then Inl (Panic ''Error character'')
      else if \<not> list_all isdigit (tl proc) then Inl (Panic ''Error not digit'')
      else if com \<noteq> ''S'' \<and> com \<noteq> ''T'' then Inl (Panic ''Error isnt S or T'')
      else
        ebind (c_atoi (tl proc)) (\<lambda>n.
        ebind (put_command stp \<lparr>process = n, cmd = com, command_exists = ''Y''\<rparr> (commands s)) (\<lambda>t.
        Inr (s\<lparr>commands := t, last_step := stp,
               final_step := (if final_step s < stp \<and> \<not> exit_step_found s then stp else final_step s)\<rparr>))))"

definition config_exit :: "int \<Rightarrow> string \<Rightarrow> config \<Rightarrow> config res" where
  "config_exit stp com s =
     (if last_step s > stp then Inl (Panic ''Error, commands are not in ascending order'')
      else if com \<noteq> ''EXIT'' then Inl (Panic ''Error double exit'')
      else if \<not> exit_step_found s then
        ebind (put_command stp \<lparr>process = 0, cmd = ''E'', command_exists = ''Y''\<rparr> (commands s)) (\<lambda>t.
        Inr (s\<lparr>commands := t, last_step := stp, final_step := stp, exit_step_found := True\<rparr>))
      else Inr (s\<lparr>last_step := stp\<rparr>))"

text \<open>
  One line of the second pass, with \<^verbatim>\<open>char process[16], command[10]\<close>. A line of two words is scanned
  again with the second word as the command.
\<close>

definition config_line :: "string \<Rightarrow> config \<Rightarrow> config res" where
  "config_line line s =
     (case sscanf line of
        Conv3 n proc com \<Rightarrow>
          ebind (as_int n) (\<lambda>n. ebind (store_word 16 proc) (\<lambda>_. ebind (store_word 10 com) (\<lambda>_.
          config_command n proc com s)))
      | Conv2 n com \<Rightarrow>
          ebind (as_int n) (\<lambda>n. ebind (store_word 16 com) (\<lambda>_. ebind (store_word 10 com) (\<lambda>_.
          config_exit n com s)))
      | _ \<Rightarrow> Inl (Panic ''Error command in config file in wrong format''))"

definition load_commands :: "opcommand list \<Rightarrow> string list \<Rightarrow> config res" where
  "load_commands t lines =
     efold config_line lines \<lparr>commands = t, last_step = 0, final_step = - 1, exit_step_found = False\<rparr>"

text \<open>Both passes, as \<open>main\<close> runs them.\<close>

definition read_config :: "string \<Rightarrow> config res" where
  "read_config s =
     (let lines = read_lines s in
      ebind (last_number lines) (\<lambda>n. ebind (init_commands n) (\<lambda>t. load_commands t lines)))"

section \<open>The choice of a child\<close>

definition MAX_CHILDREN :: nat where "MAX_CHILDREN = 100"

definition mark_active :: "opcommand list \<Rightarrow> nat \<Rightarrow> bool list \<Rightarrow> (bool list) res" where
  "mark_active t i active =
     (if i \<ge> length t then Inl (Undef ''commandsstruct'')
      else
        let p = process (t ! i) in
        if cmd (t ! i) = ''S'' \<or> cmd (t ! i) = ''T'' then
          if 0 \<le> p \<and> p < int MAX_CHILDREN then Inr (active[nat p := (cmd (t ! i) = ''S'')])
          else Inl (Undef ''active'')
        else Inr active)"

definition choose_random_active_child :: "nat \<Rightarrow> opcommand list \<Rightarrow> int \<Rightarrow> int \<Rightarrow> int res" where
  "choose_random_active_child rnd t max_step query_step =
     (if query_step > max_step then Inr (- 1)
      else
        ebind (efold (mark_active t) [0..<nat (query_step + 1)] (replicate MAX_CHILDREN False)) (\<lambda>active.
        let active_children = filter ((!) active) [0..<MAX_CHILDREN] in
        if active_children = [] then Inr (- 1)
        else Inr (int (active_children ! (rnd mod length active_children)))))"

section \<open>The parent and its children\<close>

text \<open>
  \<open>array\<close> is the table of process ids in shared memory: entry \<open>k\<close> is the child that waits on
  semaphore \<open>k\<close>, or zero. All children but the one whose semaphore the parent posts are
  blocked, and so is the parent until that child posts back, so a child's turn is one step of the
  parent.
\<close>

datatype event = Started int | Message int string | Left int nat int

record runner =
  running :: int
  child_pid_name :: "(int \<times> int) list"
  array :: "int list"
  ptr_command :: int
  ptr_terminate_step :: int
  child_messages :: "int \<Rightarrow> nat"
  starting_step :: "int \<Rightarrow> int"
  events :: "event list"

definition SHM_SIZE :: nat where "SHM_SIZE = 4096"

text \<open>Both tables of \<open>long\<close>s have to lie in the shared memory.\<close>

definition setup_shared :: "int \<Rightarrow> runner res" where
  "setup_shared M =
     (if 256 * 8 + 8 * nat M > SHM_SIZE then Inl (Undef ''shared memory'')
      else Inr \<lparr>running = 0, child_pid_name = [], array = replicate (nat M) 0, ptr_command = 0,
                ptr_terminate_step = 0, child_messages = (\<lambda>_. 0), starting_step = (\<lambda>_. 0), events = []\<rparr>)"

text \<open>A round of the loop of \<open>child_process\<close>, after \<open>sem_wait\<close>; \<open>message\<close> is the line in shared memory.\<close>

definition child_process :: "int \<Rightarrow> string \<Rightarrow> runner \<Rightarrow> runner" where
  "child_process pid message s =
     (if ptr_command s \<noteq> pid \<and> ptr_command s \<noteq> - 1 then
        s\<lparr>child_messages := (child_messages s)(pid := child_messages s pid + 1), events := events s @ [Message pid message]\<rparr>
      else
        s\<lparr>ptr_command := (if ptr_command s \<noteq> - 1 then 0 else - 1),
          events := events s @ [Left pid (child_messages s pid) (ptr_terminate_step s - starting_step s pid)]\<rparr>)"

text \<open>\<open>sem_post(semaphores[k]); sem_wait(par_sem)\<close>: with no child on the semaphore the parent waits for ever.\<close>

definition rendezvous :: "int \<Rightarrow> string \<Rightarrow> runner \<Rightarrow> runner res" where
  "rendezvous pid message s =
     (if pid = 0 then Inl (Asleep ''par_sem'') else Inr (child_process pid message s))"

definition start_child :: "int \<Rightarrow> int \<Rightarrow> int \<Rightarrow> runner \<Rightarrow> runner res" where
  "start_child pid stp name s =
     (let s = s\<lparr>running := running s + 1\<rparr> in
      if running s > int (length (array s)) then Inl (Panic ''Error, max active processes exceeded'')
      else if pid < 0 then Inl (Panic ''Error'')
      else
        case scan (\<lambda>k. array s ! k = 0) 0 (length (array s)) of
          None \<Rightarrow> Inl (Undef ''my_index'')
        | Some k \<Rightarrow>
            if length (child_pid_name s) \<ge> MAX_CHILDREN then Inl (Undef ''child_pid_name'')
            else Inr (s\<lparr>array := (array s)[k := pid], child_pid_name := child_pid_name s @ [(pid, name)],
                        child_messages := (child_messages s)(pid := 0),
                        starting_step := (starting_step s)(pid := stp), events := events s @ [Started pid]\<rparr>))"

text \<open>
  All entries of the name are cleared, and the last of them is the one to terminate; it does not read
  the line in shared memory.
\<close>

definition named :: "int \<Rightarrow> int \<times> int \<Rightarrow> bool" where
  "named name e \<longleftrightarrow> snd e = name \<and> fst e \<noteq> 0"

definition terminate_child :: "int \<Rightarrow> int \<Rightarrow> runner \<Rightarrow> runner res" where
  "terminate_child stp name s =
     (let pid = fst (last (filter (named name) (child_pid_name s)));
          s = s\<lparr>child_pid_name := map (\<lambda>e. if named name e then (0, 0) else e) (child_pid_name s),
                running := running s - 1, ptr_command := pid, ptr_terminate_step := stp\<rparr>
      in case scan (\<lambda>k. array s ! k = pid) 0 (length (array s)) of
           None \<Rightarrow> Inr s
         | Some k \<Rightarrow> rendezvous pid [] (s\<lparr>array := (array s)[k := 0]\<rparr>))"

text \<open>
  The parent gives line \<open>rnd2\<close> to a child picked with \<open>rnd1\<close>. Where no entry has the chosen
  name, \<open>pid_chosen\<close> is not set; where no semaphore has its id, the name itself is used as the index.
\<close>

definition send_line :: "nat \<Rightarrow> nat \<Rightarrow> string list \<Rightarrow> opcommand list \<Rightarrow> int \<Rightarrow> int \<Rightarrow> runner \<Rightarrow> runner res" where
  "send_line rnd1 rnd2 txt t final i s =
     ebind (choose_random_active_child rnd1 t final i) (\<lambda>chosen.
     let es = filter (\<lambda>e. snd e = chosen) (child_pid_name s) in
     if es = [] then Inl (Undef ''pid_chosen'')
     else
       let pid_chosen = fst (last es);
           k = (case scan (\<lambda>k. array s ! k = pid_chosen) 0 (length (array s)) of None \<Rightarrow> chosen | Some k \<Rightarrow> int k)
       in
       if \<not> (0 \<le> k \<and> k < int (length (array s))) then Inl (Undef ''pid_semaphore'')
       else if txt = [] then Inl (Undef ''rand() % 0'')
       else rendezvous (array s ! nat k) (txt ! (rnd2 mod length txt)) s)"

text \<open>One step of the main loop; the flag tells that the loop goes on.\<close>

definition run_step :: "(nat \<Rightarrow> int) \<Rightarrow> (nat \<Rightarrow> nat) \<Rightarrow> (nat \<Rightarrow> nat) \<Rightarrow> string list \<Rightarrow> opcommand list \<Rightarrow> int \<Rightarrow> nat \<Rightarrow> runner \<Rightarrow> (bool \<times> runner) res" where
  "run_step fork rnd1 rnd2 txt t final i s =
     (let talk = (\<lambda>s. if running s > 0
                      then ebind (send_line (rnd1 i) (rnd2 i) txt t final (int i) s) (\<lambda>s. Inr (True, s))
                      else Inr (True, s))
      in
      if i \<ge> length t then Inl (Undef ''commandsstruct'')
      else if command_exists (t ! i) = ''Y'' then
        if cmd (t ! i) = ''S'' then
          ebind (start_child (fork (length (child_pid_name s))) (int i) (process (t ! i)) s) talk
        else if cmd (t ! i) = ''T'' then
          if filter (named (process (t ! i))) (child_pid_name s) = [] then Inr (True, s)
          else ebind (terminate_child (int i) (process (t ! i)) s) talk
        else Inr (False, s)
      else talk s)"

fun run_loop :: "(nat \<Rightarrow> int) \<Rightarrow> (nat \<Rightarrow> nat) \<Rightarrow> (nat \<Rightarrow> nat) \<Rightarrow> string list \<Rightarrow> opcommand list \<Rightarrow> int \<Rightarrow> nat \<Rightarrow> nat \<Rightarrow> runner \<Rightarrow> (nat \<times> runner) res" where
  "run_loop fork rnd1 rnd2 txt t final i 0 s = Inr (i - 1, s)"
| "run_loop fork rnd1 rnd2 txt t final i (Suc n) s =
     ebind (run_step fork rnd1 rnd2 txt t final i s) (\<lambda>(go, s).
     if go then run_loop fork rnd1 rnd2 txt t final (Suc i) n s else Inr (i, s))"

text \<open>At the end every semaphore is posted, and every child that waits on one leaves.\<close>

definition exit_all :: "nat \<Rightarrow> runner \<Rightarrow> runner" where
  "exit_all track s =
     fold (\<lambda>pid. child_process pid []) (filter (\<lambda>p. p \<noteq> 0) (array s))
       (s\<lparr>ptr_command := - 1, ptr_terminate_step := int track,
          child_pid_name := map (\<lambda>_. (0, 0)) (child_pid_name s)\<rparr>)"

definition run :: "(nat \<Rightarrow> int) \<Rightarrow> (nat \<Rightarrow> nat) \<Rightarrow> (nat \<Rightarrow> nat) \<Rightarrow> string list \<Rightarrow> int \<Rightarrow> opcommand list \<Rightarrow> int \<Rightarrow> runner res" where
  "run fork rnd1 rnd2 txt M t final =
     ebind (setup_shared M) (\<lambda>s.
     ebind (run_loop fork rnd1 rnd2 txt t final 0 (nat (final + 1)) s) (\<lambda>(track, s). Inr (exit_all track s)))"

definition main :: "(nat \<Rightarrow> int) \<Rightarrow> (nat \<Rightarrow> nat) \<Rightarrow> (nat \<Rightarrow> nat) \<Rightarrow> nat \<Rightarrow> string option \<Rightarrow> string option \<Rightarrow> string \<Rightarrow> runner res" where
  "main fork rnd1 rnd2 argc file1 file2 arg3 =
     ebind (check_args argc (file1 \<noteq> None) (file2 \<noteq> None) arg3) (\<lambda>M.
     let txt = load_text (the file2) in
     ebind (read_config (the file1)) (\<lambda>c.
     run fork rnd1 rnd2 txt M (commands c) (final_step c)))"

section \<open>The configuration\<close>

lemma config_line_table:
  assumes "config_line l s = Inr s'"
  shows "length (commands s') = length (commands s)"
  using assms by (auto simp: config_line_def config_command_def config_exit_def put_command_def res_simps
      split: scanned.splits if_splits)

lemma load_table: "efold config_line ls s = Inr s' \<Longrightarrow> length (commands s') = length (commands s)"
  by (induction ls arbitrary: s) (auto simp: res_simps dest: config_line_table)

text \<open>A line that both passes accept names a step that is not in the table the first pass sized.\<close>

lemma last_line_outside:
  assumes first: "last_number_line l k = Inr n" and second: "config_line l s = Inr s'"
    and size: "int (length (commands s)) = n"
  shows False
proof (cases "sscanf l")
  case (Conv2 m com)
  then have "length com < 3" using first by (auto simp: last_number_line_def store_word_def res_simps split: if_splits)
  then have "com \<noteq> ''EXIT''" by auto
  then show False using second Conv2 by (auto simp: config_line_def config_exit_def res_simps split: if_splits)
next
  case (Conv3 m proc com)
  then have "m = n" using first by (auto simp: last_number_line_def as_int_def res_simps split: if_splits)
  then show False using second Conv3 size
    by (auto simp: config_line_def config_command_def put_command_def as_int_def res_simps split: if_splits)
qed (use second in \<open>simp_all add: config_line_def\<close>)

lemma efold_snoc: "efold f (xs @ [x]) s = ebind (efold f xs s) (f x)"
proof -
  have "efold f [x] = f x" by (rule ext) (auto simp: ebind_def split: sum.splits)
  then show ?thesis by (simp add: efold_append del: efold.simps)
qed

section \<open>Active children\<close>

definition does :: "string \<Rightarrow> int \<Rightarrow> opcommand \<Rightarrow> bool" where
  "does c p x \<longleftrightarrow> cmd x = c \<and> process x = p"

text \<open>Before step \<open>n\<close> the child was started, and not terminated since.\<close>

definition active_at :: "opcommand list \<Rightarrow> nat \<Rightarrow> int \<Rightarrow> bool" where
  "active_at t n p \<longleftrightarrow> (\<exists>i < n. does ''S'' p (t ! i) \<and> (\<forall>j \<in> {i<..<n}. \<not> does ''T'' p (t ! j)))"

lemma active_at_0 [simp]: "\<not> active_at t 0 p"
  by (simp add: active_at_def)

lemma active_at_Suc:
  "active_at t (Suc n) p \<longleftrightarrow> does ''S'' p (t ! n) \<or> \<not> does ''T'' p (t ! n) \<and> active_at t n p"
proof (cases "does ''S'' p (t ! n)")
  case True
  then show ?thesis by (auto simp: active_at_def intro!: exI [of _ n])
next
  case False
  have "active_at t (Suc n) p \<longleftrightarrow> (\<exists>i < n. does ''S'' p (t ! i) \<and> (\<forall>j \<in> {i<..<Suc n}. \<not> does ''T'' p (t ! j)))"
    using False by (auto simp: active_at_def less_Suc_eq)
  also have "\<dots> \<longleftrightarrow> \<not> does ''T'' p (t ! n) \<and> active_at t n p"
    by (fastforce simp: active_at_def less_Suc_eq)
  finally show ?thesis using False by simp
qed

text \<open>Every command names a process that the table of the chooser has room for.\<close>

definition in_range :: "opcommand list \<Rightarrow> nat \<Rightarrow> bool" where
  "in_range t n \<longleftrightarrow> n \<le> length t \<and>
     (\<forall>i < n. cmd (t ! i) \<in> {''S'', ''T''} \<longrightarrow> 0 \<le> process (t ! i) \<and> process (t ! i) < int MAX_CHILDREN)"

lemma mark_active_fold:
  "in_range t n \<Longrightarrow> \<exists>act. efold (mark_active t) [0..<n] (replicate MAX_CHILDREN False) = Inr act \<and>
     length act = MAX_CHILDREN \<and> (\<forall>p < MAX_CHILDREN. act ! p = active_at t n (int p))"
proof (induction n)
  case (Suc n)
  then obtain act where act: "efold (mark_active t) [0..<n] (replicate MAX_CHILDREN False) = Inr act"
    "length act = MAX_CHILDREN" "\<And>p. p < MAX_CHILDREN \<Longrightarrow> act ! p = active_at t n (int p)"
    by (auto simp: in_range_def)
  have r: "n < length t" "cmd (t ! n) \<in> {''S'', ''T''} \<Longrightarrow> 0 \<le> process (t ! n) \<and> process (t ! n) < int MAX_CHILDREN"
    using Suc.prems by (auto simp: in_range_def)
  show ?case
  proof (cases "cmd (t ! n) \<in> {''S'', ''T''}")
    case True
    then have "mark_active t n act = Inr (act[nat (process (t ! n)) := (cmd (t ! n) = ''S'')])"
      using r by (auto simp: mark_active_def Let_def)
    moreover have "act[nat (process (t ! n)) := (cmd (t ! n) = ''S'')] ! p = active_at t (Suc n) (int p)"
      if "p < MAX_CHILDREN" for p
    proof -
      have "nat (process (t ! n)) = p \<longleftrightarrow> process (t ! n) = int p" using r(2) [OF True] by auto
      then show ?thesis using that True act(2,3) by (auto simp: active_at_Suc does_def nth_list_update)
    qed
    ultimately show ?thesis using act(1,2) by (simp add: efold_Suc del: upt_Suc)
  next
    case False
    then have "mark_active t n act = Inr act" using r by (auto simp: mark_active_def Let_def)
    then show ?thesis using act False by (auto simp: efold_Suc active_at_Suc does_def simp del: upt_Suc)
  qed
qed simp

lemma choose_eq:
  assumes "in_range t (Suc q)" "int q \<le> max_step"
  shows "choose_random_active_child rnd t max_step (int q) =
    (let ps = filter (\<lambda>p. active_at t (Suc q) (int p)) [0..<MAX_CHILDREN] in
     Inr (if ps = [] then - 1 else int (ps ! (rnd mod length ps))))"
proof -
  obtain act where act: "efold (mark_active t) [0..<Suc q] (replicate MAX_CHILDREN False) = Inr act"
    "\<And>p. p < MAX_CHILDREN \<Longrightarrow> act ! p = active_at t (Suc q) (int p)"
    using mark_active_fold [OF assms(1)] by blast
  have n: "nat (int q + 1) = Suc q" by simp
  have "filter ((!) act) [0..<MAX_CHILDREN] = filter (\<lambda>p. active_at t (Suc q) (int p)) [0..<MAX_CHILDREN]"
    by (rule filter_cong) (simp_all add: act(2))
  then show ?thesis using assms(2) act(1) unfolding choose_random_active_child_def n by (simp add: Let_def del: upt_Suc)
qed

lemma active_in_range:
  "in_range t n \<Longrightarrow> active_at t n p \<Longrightarrow> 0 \<le> p \<and> p < int MAX_CHILDREN"
  by (auto simp: in_range_def active_at_def does_def)

text \<open>
  Claim C37. The chooser of the process runner picks exactly the active children. Over all random numbers, the
  results of \<open>choose_random_active_child\<close> at step \<open>q\<close> are the processes that were started at or
  before \<open>q\<close> and not terminated since; when there is none the result is \<open>-1\<close>. The processes have
  to be below \<open>MAX_CHILDREN\<close>: the function does not check its index.
\<close>

theorem choose_active:
  assumes "in_range t (Suc q)" "int q \<le> max_step"
  shows "{r. \<exists>rnd. choose_random_active_child rnd t max_step (int q) = Inr r} =
    (if \<exists>p. active_at t (Suc q) p then {p. active_at t (Suc q) p} else {- 1})"
proof -
  let ?ps = "filter (\<lambda>p. active_at t (Suc q) (int p)) [0..<MAX_CHILDREN]"
  have set: "int ` set ?ps = {p. active_at t (Suc q) p}"
    using active_in_range [OF assms(1)] by (force simp: image_iff intro: exI [of _ "nat _"])
  show ?thesis
  proof (cases "?ps = []")
    case True
    then show ?thesis using set choose_eq [OF assms] by (auto simp: Let_def)
  next
    case False
    then have "\<exists>p. active_at t (Suc q) p" using set by fastforce
    moreover have "{r. \<exists>rnd. r = int (?ps ! (rnd mod length ?ps))} = int ` set ?ps"
    proof -
      have "\<exists>rnd. x = ?ps ! (rnd mod length ?ps)" if "x \<in> set ?ps" for x
        using that by (metis in_set_conv_nth mod_less)
      moreover have "?ps ! (rnd mod length ?ps) \<in> set ?ps" for rnd using False by (intro nth_mem) simp
      ultimately show ?thesis by blast
    qed
    moreover have "choose_random_active_child rnd t max_step (int q) = Inr r \<longleftrightarrow> r = int (?ps ! (rnd mod length ?ps))" for rnd r
      using choose_eq [OF assms, of rnd] False by (auto simp: Let_def)
    ultimately show ?thesis using set by simp
  qed
qed

definition op :: "string \<Rightarrow> int \<Rightarrow> opcommand" where
  "op c p = \<lparr>process = p, cmd = c, command_exists = ''Y''\<rparr>"

theorem choose_active_witness:
  "{r. \<exists>rnd. choose_random_active_child rnd [op ''S'' 1, op ''S'' 2, no_command, op ''T'' 1, op ''S'' 7] 4 (int 4) = Inr r} = {2, 7}"
proof -
  let ?t = "[op ''S'' 1, op ''S'' 2, no_command, op ''T'' 1, op ''S'' 7]"
  have "in_range ?t (Suc 4)" by (auto simp: in_range_def MAX_CHILDREN_def op_def no_command_def less_Suc_eq numeral_eq_Suc)
  moreover have "active_at ?t (Suc 4) p \<longleftrightarrow> p = 2 \<or> p = 7" for p
    by (auto simp: active_at_Suc numeral_eq_Suc does_def op_def no_command_def)
  ultimately show ?thesis using choose_active [of ?t 4 4] by auto
qed


end
