(* ===== verification/Process_Schedule.thy ===== *)
theory Process_Schedule
  imports Process_Runner
begin

text \<open>
  The runner's protocol: for a schedule that starts a process only while it is not active, and not
  more of them than there are semaphores, the parent never waits for ever, never uses a process id that
  was not set, and at the end every child that was started has left once.
\<close>

section \<open>Schedules and the invariant\<close>

definition starts :: "opcommand list \<Rightarrow> nat \<Rightarrow> nat" where
  "starts t n = length (filter (\<lambda>i. cmd (t ! i) = ''S'') [0..<n])"

lemma starts_Suc: "starts t (Suc n) = starts t n + (if cmd (t ! n) = ''S'' then 1 else 0)"
  by (simp add: starts_def)

lemma starts_0 [simp]: "starts t 0 = 0"
  by (simp add: starts_def)

definition schedule_ok :: "nat \<Rightarrow> opcommand list \<Rightarrow> nat \<Rightarrow> bool" where
  "schedule_ok M t n \<longleftrightarrow> n \<le> length t \<and> starts t n \<le> MAX_CHILDREN \<and>
     (\<forall>i < n.
        (cmd (t ! i) \<in> {''S'', ''T''} \<longrightarrow>
           command_exists (t ! i) = ''Y'' \<and> 0 < process (t ! i) \<and> process (t ! i) < int MAX_CHILDREN) \<and>
        (cmd (t ! i) = ''S'' \<longrightarrow> \<not> active_at t i (process (t ! i)) \<and> card {p. active_at t (Suc i) p} \<le> M))"

definition live_children :: "runner \<Rightarrow> (int \<times> int) list" where
  "live_children s = filter (\<lambda>e. fst e \<noteq> 0) (child_pid_name s)"

definition waiting :: "runner \<Rightarrow> int list" where
  "waiting s = filter (\<lambda>p. p \<noteq> 0) (array s)"

fun started_pids :: "event list \<Rightarrow> int list" where
  "started_pids [] = []"
| "started_pids (Started p # es) = p # started_pids es"
| "started_pids (_ # es) = started_pids es"

fun left_pids :: "event list \<Rightarrow> int list" where
  "left_pids [] = []"
| "left_pids (Left p _ _ # es) = p # left_pids es"
| "left_pids (_ # es) = left_pids es"

lemma started_append [simp]: "started_pids (xs @ ys) = started_pids xs @ started_pids ys"
  by (induction xs rule: started_pids.induct) auto

lemma left_append [simp]: "left_pids (xs @ ys) = left_pids xs @ left_pids ys"
  by (induction xs rule: left_pids.induct) auto

lemma filter_unique: "distinct (map f xs) \<Longrightarrow> e \<in> set xs \<Longrightarrow> filter (\<lambda>x. f x = f e) xs = [e]"
proof (induction xs)
  case (Cons x xs)
  show ?case
  proof (cases "e \<in> set xs")
    case True
    then have "f x \<noteq> f e" using Cons.prems(1) by force
    then show ?thesis using Cons True by simp
  next
    case False
    then have "e = x" "f x \<notin> f ` set xs" using Cons.prems by auto
    then have "filter (\<lambda>y. f y = f e) xs = []" unfolding filter_empty_conv by (metis image_eqI)
    then show ?thesis using \<open>e = x\<close> by simp
  qed
qed simp

lemma starts_mono: "n \<le> m \<Longrightarrow> starts t n \<le> starts t m"
  by (induction m rule: dec_induct) (auto simp: starts_Suc)

text \<open>
  Every live entry of the parent's table is a child on a semaphore and the other way round, the live
  names are the active processes, each once, and the children are those that started and have not left.
\<close>

definition runner_ok :: "(nat \<Rightarrow> int) \<Rightarrow> nat \<Rightarrow> opcommand list \<Rightarrow> nat \<Rightarrow> runner \<Rightarrow> bool" where
  "runner_ok fork M t n s \<longleftrightarrow>
     length (array s) = M \<and>
     (\<forall>e \<in> set (child_pid_name s). fst e = 0 \<longrightarrow> snd e = 0) \<and>
     distinct (map snd (live_children s)) \<and> snd ` set (live_children s) = {p. active_at t n p} \<and>
     mset (map fst (live_children s)) = mset (waiting s) \<and> distinct (map fst (live_children s)) \<and>
     fst ` set (live_children s) \<subseteq> fork ` {..<length (child_pid_name s)} \<and>
     running s = int (length (live_children s)) \<and> length (child_pid_name s) = starts t n \<and>
     mset (started_pids (events s)) = mset (left_pids (events s)) + mset (waiting s) \<and>
     ptr_command s = 0"

lemma in_range_schedule: "schedule_ok M t n \<Longrightarrow> in_range t n"
  by (force simp: schedule_ok_def in_range_def)

lemma live_count:
  assumes "runner_ok fork M t n s"
  shows "card {p. active_at t n p} = length (live_children s) \<and> length (waiting s) = length (live_children s)"
proof -
  have "distinct (map snd (live_children s))" "snd ` set (live_children s) = {p. active_at t n p}" "mset (map fst (live_children s)) = mset (waiting s)"
    using assms by (simp_all add: runner_ok_def)
  then show ?thesis by (metis distinct_card length_map list.set_map mset_eq_length)
qed

lemma mset_waiting_set:
  assumes "k < length (array s)" "array s ! k = 0" "p \<noteq> 0"
  shows "mset (waiting (s\<lparr>array := (array s)[k := p]\<rparr>)) = add_mset p (mset (waiting s))"
  using assms by (simp add: waiting_def mset_filter [symmetric] mset_update del: mset_filter) (simp add: mset_update)

lemma mset_waiting_clear:
  assumes "k < length (array s)" "array s ! k = p" "p \<noteq> 0"
  shows "mset (waiting s) = add_mset p (mset (waiting (s\<lparr>array := (array s)[k := 0]\<rparr>)))"
proof -
  have "p \<in># mset (array s)" using assms by auto
  then show ?thesis using assms by (simp add: waiting_def mset_update)
qed

lemma scan_waiting:
  assumes "p \<in> set (waiting s)"
  obtains k where "scan (\<lambda>k. array s ! k = p) 0 (length (array s)) = Some k" "k < length (array s)" "array s ! k = p" "p \<noteq> 0"
proof -
  have p: "p \<in> set (array s)" "p \<noteq> 0" using assms by (auto simp: waiting_def)
  then obtain k where "k < length (array s)" "array s ! k = p" by (auto simp: in_set_conv_nth)
  then have "scan (\<lambda>k. array s ! k = p) 0 (length (array s)) \<noteq> None" by (auto simp: scan_None_iff)
  then show thesis using that p(2) by (auto simp: scan_Some_iff)
qed

section \<open>The steps keep the invariant\<close>

lemma start_ok:
  assumes ok: "runner_ok fork M t n s" and sch: "schedule_ok M t m" "n < m" and c: "cmd (t ! n) = ''S''"
    and fork: "\<And>k. 0 < fork k" "inj fork"
  shows "\<exists>s'. start_child (fork (length (child_pid_name s))) (int n) (process (t ! n)) s = Inr s' \<and> runner_ok fork M t (Suc n) s'"
proof -
  let ?p = "process (t ! n)" and ?pid = "fork (length (child_pid_name s))"
  have sch': "command_exists (t ! n) = ''Y''" "\<not> active_at t n ?p" "card {p. active_at t (Suc n) p} \<le> M"
    using sch c by (auto simp: schedule_ok_def)
  have act: "{p. active_at t (Suc n) p} = insert ?p {p. active_at t n p}"
    using c by (auto simp: active_at_Suc does_def)
  have "finite {p. active_at t n p}" using ok by (simp add: runner_ok_def) (metis List.finite_set finite_imageI)
  then have room: "length (live_children s) < M" using sch'(2,3) act live_count [OF ok] by simp
  have M: "length (array s) = M" using ok by (simp add: runner_ok_def)
  have "\<exists>k < length (array s). array s ! k = 0"
  proof (rule ccontr)
    assume "\<not> (\<exists>k < length (array s). array s ! k = 0)"
    then have "waiting s = array s" unfolding waiting_def by (intro filter_True) (auto simp: in_set_conv_nth)
    then show False using live_count [OF ok] room M by simp
  qed
  then have "scan (\<lambda>k. array s ! k = 0) 0 (length (array s)) \<noteq> None" by (auto simp: scan_None_iff)
  then obtain k where k: "scan (\<lambda>k. array s ! k = 0) 0 (length (array s)) = Some k" "k < length (array s)" "array s ! k = 0"
    by (auto simp: scan_Some_iff)
  have "starts t (Suc n) \<le> starts t m" using sch(2) by (intro starts_mono) simp
  then have len: "length (child_pid_name s) < MAX_CHILDREN"
    using sch(1) c ok by (simp add: schedule_ok_def runner_ok_def starts_Suc)
  define s' where "s' = s\<lparr>running := running s + 1, array := (array s)[k := ?pid], child_pid_name := child_pid_name s @ [(?pid, ?p)],
    child_messages := (child_messages s)(?pid := 0), starting_step := (starting_step s)(?pid := int n), events := events s @ [Started ?pid]\<rparr>"
  have "start_child ?pid (int n) ?p s = Inr s'"
    using room M ok k len fork(1) [of "length (child_pid_name s)"]
    by (simp add: start_child_def Let_def runner_ok_def s'_def)
  moreover have "runner_ok fork M t (Suc n) s'"
  proof -
    have pid: "?pid \<noteq> 0" using fork(1) [of "length (child_pid_name s)"] by simp
    have w: "mset (waiting s') = add_mset ?pid (mset (waiting s))"
      using mset_waiting_set [OF k(2,3) pid] by (simp add: s'_def waiting_def)
    have l: "live_children s' = live_children s @ [(?pid, ?p)]" using pid by (simp add: live_children_def s'_def)
    have new: "?pid \<notin> fst ` set (live_children s)"
    proof
      assume "?pid \<in> fst ` set (live_children s)"
      then obtain j where "j < length (child_pid_name s)" "?pid = fork j" using ok by (auto simp: runner_ok_def)
      then show False using fork(2) by (auto dest: injD)
    qed
    have "fst ` set (live_children s) \<subseteq> fork ` {..<length (child_pid_name s)}" using ok unfolding runner_ok_def by blast
    then have sub: "fst ` set (live_children s') \<subseteq> fork ` {..<Suc (length (child_pid_name s))}"
      unfolding l by (auto simp: less_Suc_eq)
    have names: "?p \<notin> snd ` set (live_children s)" using sch'(2) ok by (auto simp: runner_ok_def)
    show ?thesis unfolding runner_ok_def
      using ok w l new sub names act c pid by (auto simp: runner_ok_def starts_Suc s'_def)
  qed
  ultimately show ?thesis by blast
qed

lemma filter_named: "filter (named p) (child_pid_name s) = filter (\<lambda>e. snd e = p) (live_children s)"
  unfolding live_children_def filter_filter by (rule filter_cong) (auto simp: named_def)

lemma live_named:
  assumes ok: "runner_ok fork M t n s" and ne: "filter (named p) (child_pid_name s) \<noteq> []"
  obtains pid where "filter (named p) (child_pid_name s) = [(pid, p)]" "(pid, p) \<in> set (live_children s)" "pid \<noteq> 0"
proof -
  note eq = filter_named [of p s]
  obtain e where e: "e \<in> set (live_children s)" "snd e = p" using ne unfolding eq by (auto simp: filter_empty_conv)
  have d: "distinct (map snd (live_children s))" using ok by (simp add: runner_ok_def)
  then have "filter (\<lambda>x. snd x = p) (live_children s) = [e]" using filter_unique [OF d e(1)] e(2) by simp
  then show thesis using that [of "fst e"] e eq by (auto simp: live_children_def)
qed

lemma child_leaves:
  "pid \<noteq> - 1 \<Longrightarrow> ptr_command s = pid \<Longrightarrow>
     \<exists>k d. child_process pid m s = s\<lparr>ptr_command := 0, events := events s @ [Left pid k d]\<rparr>"
  by (auto simp: child_process_def)

lemma terminate_ok:
  assumes ok: "runner_ok fork M t n s" and c: "cmd (t ! n) = ''T''"
    and ne: "filter (named (process (t ! n))) (child_pid_name s) \<noteq> []" and fork: "\<And>k. 0 < fork k"
  shows "\<exists>s'. terminate_child (int n) (process (t ! n)) s = Inr s' \<and> runner_ok fork M t (Suc n) s'"
proof -
  let ?p = "process (t ! n)"
  obtain pid where f: "filter (named ?p) (child_pid_name s) = [(pid, ?p)]" and l: "(pid, ?p) \<in> set (live_children s)" and "pid \<noteq> 0"
    using live_named [OF ok ne] by blast
  have "pid \<in> fork ` {..<length (child_pid_name s)}" using ok l by (force simp: runner_ok_def)
  then have pid: "0 < pid" using fork by auto
  have mw: "mset (map fst (live_children s)) = mset (waiting s)" and d: "distinct (map snd (live_children s))" "distinct (map fst (live_children s))"
    using ok by (simp_all add: runner_ok_def)
  have "pid \<in> set (waiting s)" using l mw by (metis fst_conv imageI list.set_map mset_eq_setD)
  then obtain k where k: "scan (\<lambda>k. array s ! k = pid) 0 (length (array s)) = Some k" "k < length (array s)" "array s ! k = pid"
    by (rule scan_waiting)
  define s1 where "s1 = s\<lparr>child_pid_name := map (\<lambda>e. if named ?p e then (0, 0) else e) (child_pid_name s),
    running := running s - 1, ptr_command := pid, ptr_terminate_step := int n, array := (array s)[k := 0]\<rparr>"
  obtain j d' where cp: "child_process pid [] s1 = s1\<lparr>ptr_command := 0, events := events s1 @ [Left pid j d']\<rparr>"
    using child_leaves [of pid s1 "[]"] pid by (auto simp: s1_def)
  define s' where "s' = s1\<lparr>ptr_command := 0, events := events s1 @ [Left pid j d']\<rparr>"
  have "terminate_child (int n) ?p s = Inr s'"
    using k pid cp by (simp add: terminate_child_def Let_def f rendezvous_def s1_def s'_def)
  moreover have "runner_ok fork M t (Suc n) s'"
  proof -
    have w: "mset (waiting s) = add_mset pid (mset (waiting s'))"
      using mset_waiting_clear [OF k(2,3)] pid by (simp add: s'_def s1_def waiting_def)
    have lv: "live_children s' = filter (\<lambda>e. snd e \<noteq> ?p) (live_children s)"
    proof -
      have "filter (\<lambda>e. fst e \<noteq> 0) (map (\<lambda>e. if named ?p e then (0, 0) else e) es) =
          filter (\<lambda>e. snd e \<noteq> ?p) (filter (\<lambda>e. fst e \<noteq> 0) es)" for es
        by (induction es) (auto simp: named_def)
      then show ?thesis by (simp add: live_children_def s'_def s1_def)
    qed
    have split: "mset (live_children s) = add_mset (pid, ?p) (mset (live_children s'))"
    proof -
      have "mset (live_children s) = mset (filter (\<lambda>e. snd e = ?p) (live_children s)) + mset (filter (\<lambda>e. snd e \<noteq> ?p) (live_children s))"
        using multiset_partition [of "mset (live_children s)" "\<lambda>e. snd e = ?p"] by simp
      moreover have "filter (\<lambda>e. snd e = ?p) (live_children s) = [(pid, ?p)]"
        using f by (simp add: filter_named)
      ultimately show ?thesis by (simp add: lv)
    qed
    have "mset (map fst (live_children s')) = mset (waiting s')" using mw w split by (simp add: mset_map)
    moreover have "length (live_children s) = Suc (length (live_children s'))" using split by (metis size_add_mset size_mset)
    moreover have "snd ` set (live_children s') = {p. active_at t (Suc n) p}"
    proof -
      have "snd ` set (live_children s') = snd ` set (live_children s) - {?p}" by (auto simp: lv)
      then show ?thesis using ok c by (auto simp: runner_ok_def active_at_Suc does_def)
    qed
    moreover have "distinct (map snd (live_children s'))" "distinct (map fst (live_children s'))"
      using d unfolding lv by (simp_all add: distinct_map_filter)
    moreover have "fst ` set (live_children s') \<subseteq> fork ` {..<length (child_pid_name s')}"
    proof -
      have "fst ` set (live_children s') \<subseteq> fst ` set (live_children s)" by (auto simp: lv)
      also have "\<dots> \<subseteq> fork ` {..<length (child_pid_name s)}" using ok unfolding runner_ok_def by blast
      finally show ?thesis by (simp add: s'_def s1_def)
    qed
    moreover have "\<forall>e \<in> set (child_pid_name s'). fst e = 0 \<longrightarrow> snd e = 0"
      using ok by (auto simp: runner_ok_def s'_def s1_def)
    moreover have "length (array s') = length (array s)" "length (child_pid_name s') = length (child_pid_name s)"
      "running s' = running s - 1" "ptr_command s' = 0" "events s' = events s @ [Left pid j d']"
      by (simp_all add: s'_def s1_def)
    ultimately show ?thesis using ok w c by (simp add: runner_ok_def starts_Suc)
  qed
  ultimately show ?thesis by blast
qed

lemma send_ok:
  assumes ok: "runner_ok fork M t (Suc n) s" and sch: "schedule_ok M t m" "n < m" and "0 < running s" "txt \<noteq> []"
    and fork: "\<And>k. 0 < fork k"
  shows "\<exists>s' pid line. send_line rnd1 rnd2 txt t (int m - 1) (int n) s = Inr s' \<and> runner_ok fork M t (Suc n) s' \<and>
     line \<in> set txt \<and> (\<exists>p. active_at t (Suc n) p \<and> (pid, p) \<in> set (live_children s)) \<and> events s' = events s @ [Message pid line]"
proof -
  have r: "in_range t (Suc n)" using in_range_schedule [OF sch(1)] sch(2) by (auto simp: in_range_def)
  let ?ps = "filter (\<lambda>p. active_at t (Suc n) (int p)) [0..<MAX_CHILDREN]"
  have names: "snd ` set (live_children s) = {p. active_at t (Suc n) p}" and "running s = int (length (live_children s))"
    using ok by (simp_all add: runner_ok_def)
  then obtain q where q: "active_at t (Suc n) q" using assms(4) by (cases "live_children s") auto
  then have "nat q \<in> set ?ps" using active_in_range [OF r q] by (simp add: nat_less_iff)
  then have ne: "?ps \<noteq> []" by (metis list.set(1) empty_iff)
  define p where "p = int (?ps ! (rnd1 mod length ?ps))"
  have ch: "choose_random_active_child rnd1 t (int m - 1) (int n) = Inr p"
    using choose_eq [OF r, of "int m - 1" rnd1] sch(2) ne by (simp add: Let_def p_def)
  have "?ps ! (rnd1 mod length ?ps) \<in> set ?ps" using ne by (intro nth_mem) simp
  then have act: "active_at t (Suc n) p" by (simp add: p_def)
  then have "0 < p" using sch by (auto simp: active_at_def does_def schedule_ok_def)
  define es where "es = filter (\<lambda>e. snd e = p) (child_pid_name s)"
  have sub: "set es \<subseteq> set (live_children s)" using ok \<open>0 < p\<close> by (auto simp: es_def live_children_def runner_ok_def)
  have "p \<in> snd ` set (live_children s)" using names act by simp
  then have "es \<noteq> []" by (auto simp: es_def live_children_def filter_empty_conv)
  then have l: "last es \<in> set (live_children s)" "snd (last es) = p"
    using sub last_in_set [of es] by (auto simp: es_def)
  define pid where "pid = fst (last es)"
  have lp: "(pid, p) \<in> set (live_children s)" using l by (metis pid_def prod.collapse)
  have "pid \<in> set (waiting s)" using lp ok unfolding runner_ok_def by (metis fst_conv imageI list.set_map mset_eq_setD)
  then obtain k where k: "scan (\<lambda>k. array s ! k = pid) 0 (length (array s)) = Some k" "k < length (array s)" "array s ! k = pid" "pid \<noteq> 0"
    by (rule scan_waiting)
  have "pid \<in> fork ` {..<length (child_pid_name s)}" using ok lp by (force simp: runner_ok_def)
  then have "0 < pid" using fork by auto
  define line where "line = txt ! (rnd2 mod length txt)"
  have line: "line \<in> set txt" using assms(5) unfolding line_def by (intro nth_mem) simp
  define s' where "s' = s\<lparr>child_messages := (child_messages s)(pid := child_messages s pid + 1), events := events s @ [Message pid line]\<rparr>"
  have "ptr_command s = 0" using ok by (simp add: runner_ok_def)
  then have "child_process pid line s = s'" using \<open>0 < pid\<close> by (simp add: child_process_def s'_def)
  then have "send_line rnd1 rnd2 txt t (int m - 1) (int n) s = Inr s'"
    using ch \<open>es \<noteq> []\<close> k assms(5) by (simp add: send_line_def Let_def es_def [symmetric] pid_def [symmetric] line_def [symmetric] rendezvous_def)
  moreover have "runner_ok fork M t (Suc n) s'"
  proof -
    have eqs: "live_children s' = live_children s" "waiting s' = waiting s" "array s' = array s" "child_pid_name s' = child_pid_name s"
      "running s' = running s" "started_pids (events s') = started_pids (events s)"
      "left_pids (events s') = left_pids (events s)" "ptr_command s' = ptr_command s"
      by (simp_all add: s'_def live_children_def waiting_def)
    show ?thesis using ok unfolding runner_ok_def eqs .
  qed
  ultimately show ?thesis using line act lp by (auto simp: s'_def)
qed

text \<open>The outcome of a step: the loop goes on with the invariant, or an exit command ends it.\<close>

lemma step_ok:
  assumes ok: "runner_ok fork M t n s" and sch: "schedule_ok M t m" "n < m" and "txt \<noteq> []"
    and fork: "\<And>k. 0 < fork k" "inj fork"
  shows "\<exists>go s'. run_step fork rnd1 rnd2 txt t (int m - 1) n s = Inr (go, s') \<and>
     (if go then runner_ok fork M t (Suc n) s' else s' = s)"
proof -
  have n: "n < length t" using sch by (auto simp: schedule_ok_def)
  let ?talk = "\<lambda>s1. if running s1 > 0 then ebind (send_line (rnd1 n) (rnd2 n) txt t (int m - 1) (int n) s1) (\<lambda>s. Inr (True, s))
      else Inr (True, s1)"
  have talk: "\<exists>s'. ?talk s1 = Inr (True, s') \<and> runner_ok fork M t (Suc n) s'" if "runner_ok fork M t (Suc n) s1" for s1
  proof (cases "running s1 > 0")
    case True
    note ok1 = that
    obtain s' where "send_line (rnd1 n) (rnd2 n) txt t (int m - 1) (int n) s1 = Inr s'" "runner_ok fork M t (Suc n) s'"
      using send_ok [OF ok1 sch True assms(4) fork(1), of "rnd1 n" "rnd2 n"] by blast
    then show ?thesis using True by simp
  qed (use that in simp)
  have go: ?thesis if "run_step fork rnd1 rnd2 txt t (int m - 1) n s = ?talk s1" "runner_ok fork M t (Suc n) s1" for s1
    using talk [OF that(2)] that(1) by fastforce
  have skip: "runner_ok fork M t (Suc n) s" if "\<And>p. active_at t (Suc n) p = active_at t n p" "cmd (t ! n) \<noteq> ''S''"
  proof -
    have n: "starts t (Suc n) = starts t n" using that(2) by (simp add: starts_Suc)
    show ?thesis using ok unfolding runner_ok_def that(1) n .
  qed
  consider (S) "cmd (t ! n) = ''S''" | (T) "cmd (t ! n) = ''T''" | (other) "cmd (t ! n) \<notin> {''S'', ''T''}" by blast
  then show ?thesis
  proof cases
    case S
    then obtain s1 where "start_child (fork (length (child_pid_name s))) (int n) (process (t ! n)) s = Inr s1" "runner_ok fork M t (Suc n) s1"
      using start_ok [OF ok sch S fork] by blast
    moreover have "command_exists (t ! n) = ''Y''" using sch S by (auto simp: schedule_ok_def)
    ultimately show ?thesis using S n by (intro go [of s1]) (simp_all add: run_step_def)
  next
    case T
    have y: "command_exists (t ! n) = ''Y''" using sch T by (auto simp: schedule_ok_def)
    show ?thesis
    proof (cases "filter (named (process (t ! n))) (child_pid_name s) = []")
      case True
      then have "process (t ! n) \<notin> snd ` set (live_children s)" unfolding filter_named filter_empty_conv by auto
      then have "\<not> active_at t n (process (t ! n))" using ok by (auto simp: runner_ok_def)
      then have "active_at t (Suc n) p = active_at t n p" for p using T by (auto simp: active_at_Suc does_def)
      then have "runner_ok fork M t (Suc n) s" using T by (intro skip) simp_all
      moreover have "run_step fork rnd1 rnd2 txt t (int m - 1) n s = Inr (True, s)" using True T y n by (simp add: run_step_def)
      ultimately show ?thesis by fastforce
    next
      case False
      then obtain s1 where "terminate_child (int n) (process (t ! n)) s = Inr s1" "runner_ok fork M t (Suc n) s1"
        using terminate_ok [OF ok T False fork(1)] by blast
      then show ?thesis using False T y n by (intro go [of s1]) (simp_all add: run_step_def)
    qed
  next
    case other
    then have "runner_ok fork M t (Suc n) s" by (intro skip) (auto simp: active_at_Suc does_def)
    then show ?thesis
    proof (cases "command_exists (t ! n) = ''Y''")
      case True
      then have "run_step fork rnd1 rnd2 txt t (int m - 1) n s = Inr (False, s)" using other n by (simp add: run_step_def)
      then show ?thesis by fastforce
    next
      case False
      then show ?thesis using n by (intro go [OF _ \<open>runner_ok fork M t (Suc n) s\<close>]) (simp add: run_step_def)
    qed
  qed
qed

lemma loop_ok:
  assumes sch: "schedule_ok M t m" and "txt \<noteq> []" and fork: "\<And>k. 0 < fork k" "inj fork"
  shows "runner_ok fork M t n s \<Longrightarrow> n + k = m \<Longrightarrow>
    \<exists>i s' n'. run_loop fork rnd1 rnd2 txt t (int m - 1) n k s = Inr (i, s') \<and> runner_ok fork M t n' s'"
proof (induction k arbitrary: n s)
  case (Suc k)
  then obtain go s1 where s1: "run_step fork rnd1 rnd2 txt t (int m - 1) n s = Inr (go, s1)"
    "if go then runner_ok fork M t (Suc n) s1 else s1 = s"
    using step_ok [OF Suc.prems(1) sch _ assms(2) fork, of rnd1 rnd2] by auto
  then show ?case using Suc by (cases go) auto
qed auto

lemma exit_leaves:
  "ptr_command s = - 1 \<Longrightarrow>
     left_pids (events (fold (\<lambda>pid. child_process pid []) ps s)) = left_pids (events s) @ ps \<and>
     started_pids (events (fold (\<lambda>pid. child_process pid []) ps s)) = started_pids (events s)"
proof (induction ps arbitrary: s)
  case (Cons p ps)
  have "ptr_command (child_process p [] s) = - 1" using Cons.prems by (simp add: child_process_def)
  from Cons.IH [OF this] show ?case using Cons.prems by (simp add: child_process_def)
qed simp

section \<open>The runner completes\<close>



end
