(* ===== verification/User_Malloc.thy ===== *)
theory User_Malloc
  imports Kernel_Prelude
begin

text \<open>
  The memory allocator of the user programs (\<^verbatim>\<open>user/umalloc.c\<close>): free blocks in a circular list sorted
  by address, from which \<open>malloc\<close> cuts the first that is large enough and into which \<open>free\<close> merges.
  Addresses and sizes are in units of a header, 16 bytes. The loops run around a ring of pointers and
  may not end on a broken one, so they are partial functions; that they return is proved. The
  free list is described by the list of its blocks, and its memory by a set of units.
\<close>

section \<open>State\<close>

text \<open>\<open>freep\<close> is 0 before the first call; \<open>brk\<close> is the end of the memory of the process.\<close>

record heap =
  hptr :: "nat \<Rightarrow> nat"
  hsize :: "nat \<Rightarrow> nat"
  freep :: nat
  brk :: nat

section \<open>free\<close>

partial_function (option) free_search :: "heap \<Rightarrow> nat \<Rightarrow> nat \<Rightarrow> nat option" where
  "free_search h bp p =
     (if bp > p \<and> bp < hptr h p then Some p
      else if p \<ge> hptr h p \<and> (bp > p \<or> bp < hptr h p) then Some p
      else free_search h bp (hptr h p))"

definition free_link :: "nat \<Rightarrow> nat \<Rightarrow> heap \<Rightarrow> heap" where
  "free_link bp p h =
     (let q = hptr h p;
          h = (if bp + hsize h bp = q
               then h\<lparr>hsize := (hsize h)(bp := hsize h bp + hsize h q), hptr := (hptr h)(bp := hptr h q)\<rparr>
               else h\<lparr>hptr := (hptr h)(bp := q)\<rparr>);
          h = (if p + hsize h p = bp
               then h\<lparr>hsize := (hsize h)(p := hsize h p + hsize h bp), hptr := (hptr h)(p := hptr h bp)\<rparr>
               else h\<lparr>hptr := (hptr h)(p := bp)\<rparr>)
      in h\<lparr>freep := p\<rparr>)"

definition free_block :: "nat \<Rightarrow> heap \<Rightarrow> heap option" where
  "free_block bp h = (case free_search h bp (freep h) of None \<Rightarrow> None | Some p \<Rightarrow> Some (free_link bp p h))"

definition free :: "nat \<Rightarrow> heap \<Rightarrow> heap option" where
  "free ap h = free_block (ap - 1) h"

section \<open>malloc\<close>

text \<open>
  \<open>grants\<close> tells whether \<open>sbrk\<close> of so many bytes succeeds. The argument of \<open>sbrk\<close> is an \<^verbatim>\<open>int\<close>, to
  which the number of bytes is converted. The result 0 is the null pointer.
\<close>

definition morecore :: "(int \<Rightarrow> bool) \<Rightarrow> nat \<Rightarrow> heap \<Rightarrow> (nat \<times> heap) option" where
  "morecore grants nu h =
     (let nu = (if nu < 4096 then 4096 else nu);
          bytes = sint (of_nat (nu * 16) :: u32)
      in if \<not> grants bytes then Some (0, h)
         else
           let p = brk h;
               h = h\<lparr>brk := nat (int (brk h) + bytes div 16), hsize := (hsize h)(p := nu)\<rparr>
           in case free_block p h of None \<Rightarrow> None | Some h \<Rightarrow> Some (freep h, h))"

definition take_block :: "nat \<Rightarrow> nat \<Rightarrow> nat \<Rightarrow> heap \<Rightarrow> nat \<times> heap" where
  "take_block nunits prevp p h =
     (if hsize h p = nunits then (p + 1, h\<lparr>hptr := (hptr h)(prevp := hptr h p), freep := prevp\<rparr>)
      else
        let h = h\<lparr>hsize := (hsize h)(p := hsize h p - nunits)\<rparr>;
            p = p + hsize h p;
            h = h\<lparr>hsize := (hsize h)(p := nunits)\<rparr>
        in (p + 1, h\<lparr>freep := prevp\<rparr>))"

partial_function (option) malloc_loop :: "(int \<Rightarrow> bool) \<Rightarrow> nat \<Rightarrow> nat \<Rightarrow> nat \<Rightarrow> heap \<Rightarrow> (nat \<times> heap) option" where
  "malloc_loop grants nunits prevp p h =
     (if hsize h p \<ge> nunits then Some (take_block nunits prevp p h)
      else if p = freep h then
        (case morecore grants nunits h of
           None \<Rightarrow> None
         | Some (q, h) \<Rightarrow> if q = 0 then Some (0, h) else malloc_loop grants nunits q (hptr h q) h)
      else malloc_loop grants nunits p (hptr h p) h)"

definition units :: "nat \<Rightarrow> nat" where
  "units nbytes = (nbytes + 16 - 1) div 16 + 1"

definition malloc :: "(int \<Rightarrow> bool) \<Rightarrow> nat \<Rightarrow> nat \<Rightarrow> heap \<Rightarrow> (nat \<times> heap) option" where
  "malloc grants base nbytes h =
     (let h = (if freep h = 0
               then h\<lparr>hptr := (hptr h)(base := base), freep := base, hsize := (hsize h)(base := 0)\<rparr> else h)
      in malloc_loop grants (units nbytes) (freep h) (hptr h (freep h)) h)"

section \<open>Linked blocks\<close>

fun links :: "(nat \<Rightarrow> nat) \<Rightarrow> nat \<Rightarrow> nat list \<Rightarrow> nat \<Rightarrow> bool" where
  "links f p [] q \<longleftrightarrow> f p = q"
| "links f p (a # as) q \<longleftrightarrow> f p = a \<and> links f a as q"

lemma links_append: "links f p (as @ b # bs) q \<longleftrightarrow> links f p as b \<and> links f b bs q"
  by (induction as arbitrary: p) auto

lemma links_cong: "(\<And>x. x \<in> insert p (set as) \<Longrightarrow> f x = g x) \<Longrightarrow> links f p as q = links g p as q"
  by (induction as arbitrary: p) auto

lemma links_snoc: "links f p (as @ [b]) q \<longleftrightarrow> links f p as b \<and> f b = q"
  by (simp add: links_append)

lemma links_prefix: "links f p (as @ bs) q \<Longrightarrow> \<exists>r. links f p as r"
  by (cases bs) (auto simp: links_append)

lemma links_last: "links f p as q \<Longrightarrow> f (last (p # as)) = q"
  by (induction as arbitrary: p) auto

lemma links_upd_last:
  assumes "links f p as q" "distinct (p # as)"
  shows "links (f(last (p # as) := r)) p as r"
  using assms
proof (induction as arbitrary: p)
  case (Cons a as)
  then have "p \<noteq> last (a # as)" by (metis distinct.simps(2) last_in_set list.distinct(1))
  then show ?case using Cons by simp
qed simp

definition fits :: "nat \<times> nat \<Rightarrow> nat \<times> nat \<Rightarrow> bool" where
  "fits x y \<longleftrightarrow> fst x + snd x < fst y"

text \<open>
  The free list has the blocks \<open>xs\<close>, in the order of their addresses, with gaps between them; \<open>base\<close>
  is the empty block with which it starts.
\<close>

definition layout :: "nat \<Rightarrow> heap \<Rightarrow> (nat \<times> nat) list \<Rightarrow> bool" where
  "layout base h xs \<longleftrightarrow>
     0 < base \<and> base < brk h \<and> hsize h base = 0 \<and>
     links (hptr h) base (map fst xs) base \<and> freep h \<in> insert base (fst ` set xs) \<and>
     sorted_wrt fits xs \<and>
     (\<forall>x \<in> set xs. hsize h (fst x) = snd x \<and> 0 < snd x \<and> base < fst x \<and> fst x + snd x \<le> brk h)"

definition block :: "nat \<Rightarrow> nat \<Rightarrow> nat set" where
  "block a n = {a..<a + n}"

definition area :: "(nat \<times> nat) list \<Rightarrow> nat set" where
  "area xs = (\<Union>x \<in> set xs. block (fst x) (snd x))"

lemma area_simps [simp]: "area [] = {}" "area (x # xs) = block (fst x) (snd x) \<union> area xs" "area (xs @ ys) = area xs \<union> area ys"
  by (auto simp: area_def)

lemma layout_distinct: "layout base h xs \<Longrightarrow> distinct (base # map fst xs)"
proof -
  assume l: "layout base h xs"
  then have "sorted_wrt fits xs" "\<forall>x \<in> set xs. 0 < snd x \<and> base < fst x" by (auto simp: layout_def)
  then show ?thesis by (induction xs) (auto simp: fits_def)
qed

section \<open>The search of free\<close>

definition stops :: "heap \<Rightarrow> nat \<Rightarrow> nat \<Rightarrow> bool" where
  "stops h bp p \<longleftrightarrow> bp > p \<and> bp < hptr h p \<or> p \<ge> hptr h p \<and> (bp > p \<or> bp < hptr h p)"

lemma search_stop: "stops h bp p \<Longrightarrow> free_search h bp p = Some p"
  by (subst free_search.simps) (auto simp: stops_def)

lemma search_next: "\<not> stops h bp p \<Longrightarrow> free_search h bp p = free_search h bp (hptr h p)"
  by (subst free_search.simps) (auto simp: stops_def)

lemma search_walk:
  "links (hptr h) p as q \<Longrightarrow> (\<And>x. x \<in> set (butlast (p # as)) \<Longrightarrow> \<not> stops h bp x) \<Longrightarrow>
     free_search h bp p = free_search h bp (last (p # as))"
proof (induction as arbitrary: p)
  case (Cons a as)
  then have "free_search h bp p = free_search h bp a" using search_next [of h bp p] by simp
  then show ?case using Cons.IH [of a] Cons.prems by simp
qed simp

lemma butlast_not_last: "distinct xs \<Longrightarrow> x \<in> set (butlast xs) \<Longrightarrow> x \<noteq> last xs"
  by (induction xs) (auto split: if_splits)

lemma search_ring:
  assumes l: "links (hptr h) base (us @ vs) base" and s: "s \<in> insert base (set (us @ vs))"
    and go: "\<And>x. x \<in> insert base (set (us @ vs)) \<Longrightarrow> x \<noteq> last (base # us) \<Longrightarrow> \<not> stops h bp x"
    and stop: "stops h bp (last (base # us))" and d: "distinct (base # us @ vs)"
  shows "free_search h bp s = Some (last (base # us))"
proof -
  have pre: "free_search h bp s = Some (last (base # us))" if "s \<in> insert base (set us)" for s
  proof -
    note s0 = that
    obtain l1 l2 where e: "base # us = l1 @ s # l2" using s0 split_list [of s "base # us"] unfolding list.set(2) by blast
    have lst: "last (base # us) = last (s # l2)" unfolding e by simp
    obtain q where "links (hptr h) s l2 q"
    proof (cases l1)
      case Nil
      then have "s = base" "l2 = us" using e by auto
      then show thesis using that links_prefix [OF l] by blast
    next
      case (Cons b l1')
      then have "us @ vs = l1' @ s # (l2 @ vs)" using e by auto
      then have "links (hptr h) s (l2 @ vs) base" using l by (simp add: links_append)
      then show thesis using that links_prefix by blast
    qed
    moreover have "\<not> stops h bp x" if "x \<in> set (butlast (s # l2))" for x
    proof (rule go)
      have "x \<in> set (s # l2)" using that by (rule in_set_butlastD)
      then have "x \<in> set (base # us)" unfolding e by auto
      then show "x \<in> insert base (set (us @ vs))" by auto
      have "distinct (base # us)" using d by simp
      then have "distinct (s # l2)" unfolding e by simp
      from butlast_not_last [OF this that] show "x \<noteq> last (base # us)" unfolding lst .
    qed
    ultimately have "free_search h bp s = free_search h bp (last (s # l2))" by (rule search_walk)
    also have "\<dots> = Some (last (s # l2))" by (rule search_stop [OF stop [unfolded lst]])
    finally show ?thesis unfolding lst .
  qed
  show ?thesis
  proof (cases "s \<in> insert base (set us)")
    case False
    then obtain l1 l2 where e: "vs = l1 @ s # l2" using s split_list [of s vs] by auto
    have "links (hptr h) base ((us @ l1) @ s # l2) base" using l e by simp
    then have "links (hptr h) s l2 base" unfolding links_append by blast
    moreover have not: "\<not> stops h bp x" if "x \<in> set (s # l2)" for x
    proof (rule go)
      show "x \<in> insert base (set (us @ vs))" using that e by auto
      have "last (base # us) \<in> set (base # us)" by (rule last_in_set) simp
      moreover have "x \<notin> set (base # us)" using that d e by auto
      ultimately show "x \<noteq> last (base # us)" by blast
    qed
    ultimately have "free_search h bp s = free_search h bp (last (s # l2))"
      using search_walk [of h s l2 base bp] in_set_butlastD [of _ "s # l2"] by blast
    also have "\<dots> = free_search h bp base"
    proof -
      have "last (s # l2) \<in> set (s # l2)" by (rule last_in_set) simp
      from search_next [OF not [OF this]] show ?thesis unfolding links_last [OF \<open>links (hptr h) s l2 base\<close>] .
    qed
    finally show ?thesis using pre by simp
  qed (rule pre)
qed

section \<open>Freeing a block\<close>

text \<open>The place of a block in the list.\<close>

lemma layout_split:
  assumes "layout base h xs" "block bp n \<inter> area xs = {}" "0 < n" "base < bp"
  obtains us vs where "xs = us @ vs" "\<forall>x \<in> set us. fst x + snd x \<le> bp" "\<forall>x \<in> set vs. bp + n \<le> fst x"
proof -
  let ?us = "takeWhile (\<lambda>x. fst x < bp) xs" and ?vs = "dropWhile (\<lambda>x. fst x < bp) xs"
  have dj: "block bp n \<inter> block (fst x) (snd x) = {}" "0 < snd x" if "x \<in> set xs" for x
    using assms(1,2) that by (auto simp: area_def layout_def)
  have us: "fst x + snd x \<le> bp" if "x \<in> set ?us" for x
  proof -
    have "fst x < bp" "x \<in> set xs" using that by (auto dest: set_takeWhileD)
    then have "bp \<notin> block (fst x) (snd x)" using dj(1) [of x] assms(3) by (auto simp: block_def)
    then show ?thesis using \<open>fst x < bp\<close> by (simp add: block_def)
  qed
  have ge: "\<forall>x \<in> set ?vs. bp \<le> fst x"
  proof -
    have "sorted_wrt fits ?vs" using assms(1) by (metis layout_def sorted_wrt_append takeWhile_dropWhile_id)
    moreover have "?vs \<noteq> [] \<Longrightarrow> bp \<le> fst (hd ?vs)" using hd_dropWhile [of "\<lambda>x. fst x < bp" xs] by auto
    moreover have "\<forall>x \<in> set ys. bp \<le> fst x" if "sorted_wrt fits ys" "ys \<noteq> [] \<Longrightarrow> bp \<le> fst (hd ys)" for ys
      using that by (cases ys) (auto simp: fits_def)
    ultimately show ?thesis by blast
  qed
  have vs: "bp + n \<le> fst x" if "x \<in> set ?vs" for x
  proof -
    have x: "bp \<le> fst x" "x \<in> set xs" using that ge by (auto dest: set_dropWhileD)
    then have "fst x \<notin> block bp n" using dj [of x] by (auto simp: block_def)
    then show ?thesis using x(1) by (simp add: block_def)
  qed
  show thesis using that [of ?us ?vs] us vs by simp
qed

lemma sorted_fst: "sorted_wrt fits ys \<Longrightarrow> sorted_wrt (<) (map fst ys)"
  by (induction ys) (auto simp: fits_def)

lemma last_map_fst: "last (base # map fst us) = (if us = [] then base else fst (last us))"
  by (simp add: last_map)

lemma search_place:
  assumes l: "layout base h (us @ vs)" and us: "\<forall>x \<in> set us. fst x + snd x \<le> bp" and vs: "\<forall>x \<in> set vs. bp + n \<le> fst x"
    and n: "0 < n" "base < bp"
  shows "free_search h bp (freep h) = Some (last (base # map fst us))"
proof (rule search_ring [of h base "map fst us" "map fst vs"])
  have lk: "links (hptr h) base (map fst us @ map fst vs) base" using l by (simp add: layout_def)
  have srt: "sorted_wrt fits (us @ vs)" and pos: "\<forall>x \<in> set (us @ vs). 0 < snd x \<and> base < fst x" using l by (auto simp: layout_def)
  show "links (hptr h) base (map fst us @ map fst vs) base" by (rule lk)
  show "freep h \<in> insert base (set (map fst us @ map fst vs))" using l by (auto simp: layout_def)
  show "distinct (base # map fst us @ map fst vs)" using layout_distinct [OF l] by simp
  have usl: "fst x < bp" if "x \<in> set us" for x
  proof -
    have "fst x + snd x \<le> bp" "0 < snd x" using us pos that by auto
    then show ?thesis by simp
  qed
  have pred: "base \<le> last (base # map fst us)" "last (base # map fst us) < bp"
    unfolding last_map_fst using usl [of "last us"] pos n(2) by (auto intro: less_imp_le)
  show "stops h bp (last (base # map fst us))"
  proof (cases vs)
    case Nil
    then have "hptr h (last (base # map fst us)) = base" using links_last [OF lk] by simp
    then show ?thesis unfolding stops_def using pred by simp
  next
    case (Cons v vs')
    then have "links (hptr h) base (map fst us) (fst v)" using lk by (simp add: links_append)
    then have "hptr h (last (base # map fst us)) = fst v" by (rule links_last)
    then show ?thesis unfolding stops_def using pred n vs Cons by simp
  qed
  fix x assume x: "x \<in> insert base (set (map fst us @ map fst vs))" and ne: "x \<noteq> last (base # map fst us)"
  show "\<not> stops h bp x"
  proof (cases "x \<in> set (base # map fst us)")
    case True
    then obtain l1 l2 where e: "base # map fst us = l1 @ x # l2" using split_list by metis
    with ne obtain y l2' where l2: "l2 = y # l2'" by (cases l2) auto
    have y: "y \<in> fst ` set us"
    proof -
      have "y \<in> set (map fst us)" using e l2 by (cases l1) auto
      then show ?thesis by simp
    qed
    have "hptr h x = y \<and> x < y"
    proof (cases l1)
      case Nil
      then have "x = base" "map fst us = y # l2'" using e l2 by auto
      then show ?thesis using lk pos y by auto
    next
      case (Cons b l1')
      then have m: "map fst us = l1' @ x # y # l2'" using e l2 by auto
      then have "links (hptr h) base (l1' @ x # (y # l2' @ map fst vs)) base" using lk by simp
      then have "hptr h x = y" by (simp add: links_append)
      moreover have "sorted_wrt (<) (map fst us)" using srt sorted_fst by (simp add: sorted_wrt_append)
      then have "x < y" unfolding m by (simp add: sorted_wrt_append)
      ultimately show ?thesis by simp
    qed
    moreover have "y < bp" using y usl by (metis imageE)
    ultimately show ?thesis by (auto simp: stops_def)
  next
    case False
    then obtain l1 l2 where e: "map fst vs = l1 @ x # l2" using x split_list [of x "map fst vs"] by auto
    have "links (hptr h) base ((map fst us @ l1) @ x # l2) base" using lk e by simp
    then have lx: "links (hptr h) x l2 base" unfolding links_append by blast
    have "x \<in> set (map fst vs)" unfolding e by simp
    then have bx: "bp < x" using vs n by auto
    show ?thesis
    proof (cases l2)
      case Nil
      then show ?thesis using lx bx n by (auto simp: stops_def)
    next
      case (Cons y l2')
      have "sorted_wrt (<) (map fst vs)" using srt sorted_fst by (simp add: sorted_wrt_append)
      then have "x < y" unfolding e Cons by (simp add: sorted_wrt_append)
      then show ?thesis using lx bx Cons by (auto simp: stops_def)
    qed
  qed
qed

text \<open>The end of a ring: where it continues, and its links.\<close>

definition next_of :: "nat \<Rightarrow> (nat \<times> nat) list \<Rightarrow> nat" where
  "next_of base ws = (case ws of [] \<Rightarrow> base | w # _ \<Rightarrow> fst w)"

definition tail_links :: "(nat \<Rightarrow> nat) \<Rightarrow> nat \<Rightarrow> (nat \<times> nat) list \<Rightarrow> bool" where
  "tail_links f base ws \<longleftrightarrow> (case ws of [] \<Rightarrow> True | w # ws \<Rightarrow> links f (fst w) (map fst ws) base)"

lemma links_tail: "links f p (as @ map fst ws) base \<longleftrightarrow> links f p as (next_of base ws) \<and> tail_links f base ws"
  by (cases ws) (simp_all add: next_of_def tail_links_def links_append)

lemma links_tail0: "links f p (map fst ws) base \<longleftrightarrow> f p = next_of base ws \<and> tail_links f base ws"
  using links_tail [of f p "[]"] by simp

lemma tail_links_cong: "(\<And>x. x \<in> fst ` set ws \<Longrightarrow> f x = g x) \<Longrightarrow> tail_links f base ws = tail_links g base ws"
  by (cases ws) (auto simp: tail_links_def intro!: links_cong)

text \<open>Putting a block in front of the rest of the list, merged with its first block where they touch.\<close>

lemma merge_right:
  assumes vs: "tail_links (hptr h) base vs" "sorted_wrt fits vs" "\<forall>x \<in> set vs. bp + n \<le> fst x \<and> hsize h (fst x) = snd x \<and> base < fst x"
    and n: "hsize h bp = n" "base < bp" "q = next_of base vs"
  defines "h1 \<equiv> if bp + hsize h bp = q
     then h\<lparr>hsize := (hsize h)(bp := hsize h bp + hsize h q), hptr := (hptr h)(bp := hptr h q)\<rparr>
     else h\<lparr>hptr := (hptr h)(bp := q)\<rparr>"
  obtains m ws where "h1 = h\<lparr>hsize := (hsize h)(bp := m), hptr := (hptr h)(bp := next_of base ws)\<rparr>"
    "tail_links (hptr h) base ws" "\<forall>x \<in> set ws. bp + m < fst x" "set ws \<subseteq> set vs" "sorted_wrt fits ws"
    "block bp m \<union> area ws = block bp n \<union> area vs" "n \<le> m" "m = n \<or> (\<exists>v \<in> set vs. bp + m = fst v + snd v)"
proof (cases "bp + n = q")
  case True
  then obtain v vs' where v: "vs = v # vs'" using n by (cases vs) (auto simp: next_of_def)
  have fv: "fst v = bp + n" using True n v by (simp add: next_of_def)
  have lt: "\<forall>x \<in> set vs'. bp + (n + snd v) < fst x" using vs(2) fv v by (auto simp: fits_def)
  have ar: "block bp (n + snd v) \<union> area vs' = block bp n \<union> area vs" using fv v by (auto simp: block_def)
  have tl: "tail_links (hptr h) base vs'" "hptr h (fst v) = next_of base vs'"
    using vs(1) v links_tail0 [of "hptr h" "fst v" vs' base] by (simp_all add: tail_links_def)
  have "h1 = h\<lparr>hsize := (hsize h)(bp := n + snd v), hptr := (hptr h)(bp := next_of base vs')\<rparr>"
    using True fv tl(2) vs(3) v n(1) by (simp add: h1_def)
  then show thesis using that [of vs' "n + snd v"] lt ar tl(1) vs(2) v fv by auto
next
  case False
  have "bp + n < fst x" if "x \<in> set vs" for x
  proof (cases vs)
    case (Cons v vs')
    then have "bp + n < fst v" using False vs(3) n by (auto simp: next_of_def le_less)
    then show ?thesis using that Cons vs(2) by (auto simp: fits_def)
  qed (use that in simp)
  then show thesis using that [of vs n] False vs n by (auto simp: h1_def fun_upd_idem)
qed

lemma sorted_snoc_fits: "sorted_wrt fits (xs @ y # ys) \<longleftrightarrow>
    sorted_wrt fits xs \<and> (\<forall>x \<in> set xs. fits x y) \<and> sorted_wrt fits ys \<and> (\<forall>z \<in> set ys. fits y z) \<and> (\<forall>x \<in> set xs. \<forall>z \<in> set ys. fits x z)"
  by (auto simp: sorted_wrt_append)

lemma free_link_layout:
  assumes l: "layout base h (us @ vs)" and us: "\<forall>x \<in> set us. fst x + snd x \<le> bp" and vs: "\<forall>x \<in> set vs. bp + n \<le> fst x"
    and n: "0 < n" "base < bp" "hsize h bp = n" "bp + n \<le> brk h" and p: "p = last (base # map fst us)"
  shows "\<exists>ys. layout base (free_link bp p h) ys \<and> area ys = area (us @ vs) \<union> block bp n"
proof -
  have all: "\<forall>x \<in> set (us @ vs). hsize h (fst x) = snd x \<and> 0 < snd x \<and> base < fst x \<and> fst x + snd x \<le> brk h"
    and srt: "sorted_wrt fits us" "sorted_wrt fits vs" "\<forall>x \<in> set us. \<forall>y \<in> set vs. fits x y"
    and hb: "0 < base" "base < brk h" "hsize h base = 0"
    using l by (auto simp: layout_def sorted_wrt_append)
  have "links (hptr h) base (map fst us @ map fst vs) base" using l by (simp add: layout_def)
  then have lk: "links (hptr h) base (map fst us) (next_of base vs)" "tail_links (hptr h) base vs" by (simp_all add: links_tail)
  have d: "distinct (base # map fst us)" "fst ` set us \<inter> fst ` set vs = {}"
    using layout_distinct [OF l] by auto
  have q: "hptr h p = next_of base vs" unfolding p by (rule links_last [OF lk(1)])
  have pin: "p \<in> insert base (fst ` set us)" unfolding p using last_in_set [of "base # map fst us"] by simp
  have usbp: "fst x < bp" if "x \<in> set us" for x
  proof -
    have "fst x + snd x \<le> bp" "0 < snd x" using us all that by auto
    then show ?thesis by simp
  qed
  have pbp: "p < bp" using pin usbp n(2) by (metis imageE insertE)
  have pre: "\<forall>x \<in> set vs. bp + n \<le> fst x \<and> hsize h (fst x) = snd x \<and> base < fst x" using vs all by simp
  obtain m ws where h1: "(if bp + hsize h bp = hptr h p
     then h\<lparr>hsize := (hsize h)(bp := hsize h bp + hsize h (hptr h p)), hptr := (hptr h)(bp := hptr h (hptr h p))\<rparr>
     else h\<lparr>hptr := (hptr h)(bp := hptr h p)\<rparr>) = h\<lparr>hsize := (hsize h)(bp := m), hptr := (hptr h)(bp := next_of base ws)\<rparr>"
    and ws: "tail_links (hptr h) base ws" "\<forall>x \<in> set ws. bp + m < fst x" "set ws \<subseteq> set vs" "sorted_wrt fits ws"
      "block bp m \<union> area ws = block bp n \<union> area vs" "n \<le> m" "m = n \<or> (\<exists>v \<in> set vs. bp + m = fst v + snd v)"
    by (rule merge_right [OF lk(2) srt(2) pre n(3,2) q])
  have bm: "bp + m \<le> brk h" using ws(7) n(4) all by (metis Un_iff set_append)
  have wsbp: "bp < fst x" "p \<noteq> fst x" if "x \<in> set ws" for x
  proof -
    have "bp + m < fst x" using ws(2) that by blast
    then show "bp < fst x" "p \<noteq> fst x" using pbp by simp_all
  qed
  show ?thesis
  proof (cases "p + hsize h p = bp")
    case True
    then have "us \<noteq> []" using hb(3) n(2) p by auto
    then obtain us' a k where u: "us = us' @ [(a, k)]" by (metis rev_exhaust surj_pair)
    then have pa: "p = a" "hsize h a = k" "0 < k" "base < a" using p all by auto
    define f where "f = (hptr h)(bp := next_of base ws, a := next_of base ws)"
    define g where "g = (hsize h)(bp := m, a := k + m)"
    have fl: "free_link bp p h = h\<lparr>hsize := g, hptr := f, freep := a\<rparr>"
      unfolding free_link_def Let_def h1 using True pa pbp by (simp add: f_def g_def)
    have "links ((hptr h)(bp := next_of base ws)) base (map fst us) (next_of base vs)"
      using lk(1) usbp n(2) by (subst links_cong [of _ _ _ "hptr h"]) auto
    then have "links f base (map fst us) (next_of base ws)" using links_upd_last [OF _ d(1)] pa(1) p by (simp add: f_def)
    moreover have "tail_links f base ws" using ws(1) wsbp pa(1) by (subst tail_links_cong [of _ _ "hptr h"]) (auto simp: f_def)
    ultimately have "links f base (map fst (us' @ (a, k + m) # ws)) base"
      using links_tail [of f base "map fst us" ws base] u by simp
    moreover have "sorted_wrt fits (us' @ (a, k + m) # ws)"
    proof -
      have "sorted_wrt fits us'" "\<forall>x \<in> set us'. fits x (a, k + m)" using srt(1) u by (simp_all add: sorted_wrt_append fits_def)
      moreover have "\<forall>z \<in> set ws. fits (a, k + m) z" using ws(2) True pa by (simp add: fits_def flip: add.assoc)
      moreover have "\<forall>x \<in> set us'. \<forall>z \<in> set ws. fits x z" using srt(3) ws(3) unfolding u set_append by blast
      ultimately show ?thesis unfolding sorted_snoc_fits using ws(4) by blast
    qed
    moreover have "g (fst x) = snd x \<and> 0 < snd x \<and> base < fst x \<and> fst x + snd x \<le> brk h" if "x \<in> set (us' @ (a, k + m) # ws)" for x
    proof -
      have "fst x \<noteq> a \<and> fst x \<noteq> bp" if "x \<in> set us'" using that d(1) usbp [of x] u by auto
      moreover have "fst x \<noteq> a \<and> fst x \<noteq> bp" if "x \<in> set ws" using that wsbp [of x] pa(1) by auto
      ultimately show ?thesis using that all u ws(3) pa bm True by (auto simp: g_def)
    qed
    moreover have "g base = 0" using hb n pa by (simp add: g_def)
    ultimately have "layout base (free_link bp p h) (us' @ (a, k + m) # ws)" using hb by (simp add: layout_def fl)
    moreover have "area (us' @ (a, k + m) # ws) = area us' \<union> block a k \<union> (block bp m \<union> area ws)" using True pa by (auto simp: block_def)
    then have "area (us' @ (a, k + m) # ws) = area (us @ vs) \<union> block bp n" unfolding ws(5) u by auto
    ultimately show ?thesis by blast
  next
    case False
    define f where "f = (hptr h)(bp := next_of base ws, p := bp)"
    define g where "g = (hsize h)(bp := m)"
    have fl: "free_link bp p h = h\<lparr>hsize := g, hptr := f, freep := p\<rparr>"
      unfolding free_link_def Let_def h1 using False pbp by (simp add: f_def g_def)
    have "links ((hptr h)(bp := next_of base ws)) base (map fst us) (next_of base vs)"
      using lk(1) usbp n(2) by (subst links_cong [of _ _ _ "hptr h"]) auto
    then have "links f base (map fst us) bp" using links_upd_last [OF _ d(1)] p by (simp add: f_def)
    moreover have "tail_links f base ws" using ws(1) wsbp by (subst tail_links_cong [of _ _ "hptr h"]) (auto simp: f_def)
    then have "links f bp (map fst ws) base" using pbp by (simp add: links_tail0 f_def)
    ultimately have lks: "links f base (map fst (us @ (bp, m) # ws)) base" by (simp add: links_append)
    have "fits x (bp, m)" if "x \<in> set us" for x
    proof (cases "us" rule: rev_cases)
      case (snoc us' y)
      then have "fst y + snd y \<noteq> bp" using False p all by auto
      then have "fits y (bp, m)" using us snoc by (simp add: fits_def le_neq_implies_less)
      moreover have "x = y \<or> fits x y" using that srt(1) snoc by (auto simp: sorted_wrt_append)
      ultimately show ?thesis using all that snoc by (auto simp: fits_def)
    qed (use that in simp)
    moreover have "\<forall>z \<in> set ws. fits (bp, m) z" using ws(2) by (simp add: fits_def)
    ultimately have "sorted_wrt fits (us @ (bp, m) # ws)" unfolding sorted_snoc_fits using srt(1,3) ws(3,4) by blast
    moreover have "g (fst x) = snd x \<and> 0 < snd x \<and> base < fst x \<and> fst x + snd x \<le> brk h" if "x \<in> set (us @ (bp, m) # ws)" for x
    proof -
      have "fst x \<noteq> bp" if "x \<in> set us" using usbp [OF that] by simp
      moreover have "fst x \<noteq> bp" if "x \<in> set ws" using wsbp [OF that] by simp
      ultimately show ?thesis using that all ws(3,6) n bm by (auto simp: g_def)
    qed
    moreover have "g base = 0" using hb n by (simp add: g_def)
    ultimately have "layout base (free_link bp p h) (us @ (bp, m) # ws)" using hb pin lks by (auto simp: layout_def fl)
    moreover have "area (us @ (bp, m) # ws) = area us \<union> (block bp m \<union> area ws)" by simp
    then have "area (us @ (bp, m) # ws) = area (us @ vs) \<union> block bp n" unfolding ws(5) by auto
    ultimately show ?thesis by blast
  qed
qed

lemma free_block_ok:
  assumes l: "layout base h xs" and b: "block bp (hsize h bp) \<inter> area xs = {}" "0 < hsize h bp" "base < bp" "bp + hsize h bp \<le> brk h"
  shows "\<exists>h' ys. free_block bp h = Some h' \<and> layout base h' ys \<and> area ys = area xs \<union> block bp (hsize h bp) \<and> brk h' = brk h"
proof -
  obtain us vs where uv: "xs = us @ vs" "\<forall>x \<in> set us. fst x + snd x \<le> bp" "\<forall>x \<in> set vs. bp + hsize h bp \<le> fst x"
    by (rule layout_split [OF l b(1-3)])
  let ?p = "last (base # map fst us)"
  have "free_search h bp (freep h) = Some ?p" using search_place [of base h us vs bp] l uv b by blast
  then have "free_block bp h = Some (free_link bp ?p h)" by (simp add: free_block_def)
  moreover have "brk (free_link bp ?p h) = brk h" by (simp add: free_link_def Let_def)
  ultimately show ?thesis using free_link_layout [of base h us vs bp "hsize h bp" ?p] l uv b by blast
qed

section \<open>Taking a block\<close>

lemma links_map: "links f p as q \<Longrightarrow> map f (p # as) = as @ [q]"
  by (induction as arbitrary: p) auto

lemma layout_inj:
  assumes "layout base h xs"
  shows "inj_on (hptr h) (insert base (fst ` set xs))"
proof -
  have "map (hptr h) (base # map fst xs) = map fst xs @ [base]" using assms by (intro links_map) (simp add: layout_def)
  moreover have "distinct (map fst xs @ [base])" using layout_distinct [OF assms] by auto
  ultimately have "distinct (map (hptr h) (base # map fst xs))" by simp
  then have "inj_on (hptr h) (set (base # map fst xs))" unfolding distinct_map by blast
  then show ?thesis unfolding list.set(2) list.set_map .
qed

lemma layout_place:
  assumes "layout base h (us @ (x, n) # vs)"
  shows "\<forall>u \<in> set us. fst u + snd u < x" "\<forall>v \<in> set vs. x + n < fst v" "base < x" "0 < n" "hsize h x = n"
    "x \<notin> fst ` set us" "x \<notin> fst ` set vs" "block x n \<inter> area (us @ vs) = {}"
proof -
  show a: "\<forall>u \<in> set us. fst u + snd u < x" "\<forall>v \<in> set vs. x + n < fst v" "base < x" "0 < n" "hsize h x = n"
    using assms by (auto simp: layout_def sorted_wrt_append fits_def)
  show "x \<notin> fst ` set us" "x \<notin> fst ` set vs" using a(1,2) by fastforce+
  show "block x n \<inter> area (us @ vs) = {}" using a(1,2) by (fastforce simp: area_def block_def)
qed

lemma take_block_ok:
  assumes l: "layout base h xs" and y: "y \<in> insert base (fst ` set xs)" "hptr h y = x" and nu: "nu \<le> hsize h x" "0 < nu"
    and x: "x \<in> insert base (fst ` set xs)"
  shows "\<exists>r h' ys. take_block nu y x h = (r, h') \<and> layout base h' ys \<and> brk h' = brk h \<and> 0 < r \<and> hsize h' (r - 1) = nu \<and>
    block (r - 1) nu \<subseteq> area xs \<and> area ys = area xs - block (r - 1) nu"
proof -
  have "x \<noteq> base" using l nu by (auto simp: layout_def)
  then obtain n where "(x, n) \<in> set xs" using x by auto
  then obtain us vs where xs: "xs = us @ (x, n) # vs" using split_list by metis
  note pl = layout_place [OF l [unfolded xs]]
  let ?p = "last (base # map fst us)"
  have lk: "links (hptr h) base (map fst us @ x # map fst vs) base" using l xs by (simp add: layout_def)
  then have lu: "links (hptr h) base (map fst us) x" and lv: "links (hptr h) x (map fst vs) base" by (simp_all add: links_append)
  have pin: "?p \<in> insert base (fst ` set us)" using last_in_set [of "base # map fst us"] by simp
  have "y = ?p"
  proof (rule inj_onD [OF layout_inj [OF l]])
    show "hptr h y = hptr h ?p" unfolding y(2) links_last [OF lu] ..
    show "?p \<in> insert base (fst ` set xs)" using pin unfolding xs by (simp only: set_append image_Un) blast
  qed (rule y(1))
  have d: "distinct (base # map fst us @ x # map fst vs)" using layout_distinct [OF l] xs by simp
  have sf: "sorted_wrt fits us" "sorted_wrt fits vs" "\<forall>u \<in> set us. \<forall>v \<in> set vs. fits u v"
    using l xs by (auto simp: layout_def sorted_wrt_append)
  have all: "\<forall>z \<in> set us \<union> set vs. hsize h (fst z) = snd z \<and> 0 < snd z \<and> base < fst z \<and> fst z + snd z \<le> brk h"
    and hb: "0 < base" "base < brk h" "hsize h base = 0" "x + n \<le> brk h"
    using l xs by (auto simp: layout_def)
  have ax: "area xs = area (us @ vs) \<union> block x n" using xs by auto
  show ?thesis
  proof (cases "hsize h x = nu")
    case True
    define f where "f = (hptr h)(?p := hptr h x)"
    have t: "take_block nu y x h = (x + 1, h\<lparr>hptr := f, freep := ?p\<rparr>)" using True \<open>y = ?p\<close> by (simp add: take_block_def f_def)
    have "hptr h x = next_of base vs" and tv: "tail_links (hptr h) base vs" using lv by (simp_all add: links_tail0)
    then have "links f base (map fst us) (next_of base vs)" using links_upd_last [OF lu] d by (simp add: f_def)
    moreover have "tail_links f base vs"
    proof -
      have "insert base (fst ` set us) \<inter> fst ` set vs = {}" using d by auto
      then have "z \<noteq> ?p" if "z \<in> fst ` set vs" for z using that pin by blast
      then show ?thesis using tv by (subst tail_links_cong [of _ _ "hptr h"]) (auto simp: f_def)
    qed
    ultimately have lf: "links f base (map fst (us @ vs)) base" by (simp add: links_tail)
    have "layout base (h\<lparr>hptr := f, freep := ?p\<rparr>) (us @ vs)"
    proof -
      have "?p \<in> insert base (fst ` set (us @ vs))" using pin unfolding set_append image_Un by blast
      then show ?thesis using lf sf all hb by (simp add: layout_def sorted_wrt_append)
    qed
    moreover have "area (us @ vs) = area xs - block x nu" "block x nu \<subseteq> area xs" using ax pl(5,8) True by auto
    ultimately show ?thesis using t True
      by (intro exI [of _ "x + 1"] exI [of _ "h\<lparr>hptr := f, freep := ?p\<rparr>"] exI [of _ "us @ vs"]) (simp del: last.simps area_simps)
  next
    case False
    define e where "e = x + (n - nu)"
    define g where "g = (hsize h)(x := n - nu, e := nu)"
    have en: "x < e" "e + nu = x + n" using False nu pl(5) by (auto simp: e_def)
    have t: "take_block nu y x h = (e + 1, h\<lparr>hsize := g, freep := ?p\<rparr>)"
      using False pl(5) \<open>y = ?p\<close> by (simp add: take_block_def Let_def e_def g_def)
    have ne: "fst z \<noteq> e" "fst z \<noteq> x" if "z \<in> set us \<union> set vs" for z
    proof -
      have "fst z + snd z < x \<or> x + n < fst z" using that pl(1,2) by blast
      then show "fst z \<noteq> e" "fst z \<noteq> x" using en by auto
    qed
    have fz: "\<forall>u \<in> set us. fits u (x, n - nu)" "\<forall>v \<in> set vs. fits (x, n - nu) v" using pl(1,2) en by (auto simp: fits_def)
    have "sorted_wrt fits (us @ (x, n - nu) # vs)" unfolding sorted_snoc_fits using sf fz by blast
    moreover have "links (hptr h) base (map fst (us @ (x, n - nu) # vs)) base" using lk by simp
    moreover have "g (fst z) = snd z \<and> 0 < snd z \<and> base < fst z \<and> fst z + snd z \<le> brk h" if "z \<in> set (us @ (x, n - nu) # vs)" for z
      using that ne [of z] all en pl(3) hb by (auto simp: g_def e_def)
    moreover have "g base = 0" using hb(3) pl(3) en by (auto simp: g_def)
    moreover have "?p \<in> insert base (fst ` set (us @ (x, n - nu) # vs))" using pin unfolding set_append image_Un by blast
    ultimately have "layout base (h\<lparr>hsize := g, freep := ?p\<rparr>) (us @ (x, n - nu) # vs)"
      using hb by (simp add: layout_def)
    moreover have bx: "block x n = block x (n - nu) \<union> block e nu" "block x (n - nu) \<inter> block e nu = {}" using en by (auto simp: block_def e_def)
    then have "area (us @ (x, n - nu) # vs) = area xs - block e nu" unfolding ax using pl(8) by auto
    moreover have "block e nu \<subseteq> area xs" unfolding ax bx by blast
    ultimately show ?thesis using t
      by (intro exI [of _ "e + 1"] exI [of _ "h\<lparr>hsize := g, freep := ?p\<rparr>"] exI [of _ "us @ (x, n - nu) # vs"])
        (simp add: g_def del: last.simps area_simps)
  qed
qed

section \<open>The search of malloc\<close>

lemma ring_from:
  assumes "layout base h xs"
  obtains cs where "links (hptr h) (freep h) cs (freep h)" "insert (freep h) (set cs) = insert base (fst ` set xs)" "freep h \<notin> set cs"
proof -
  let ?f = "freep h"
  have l: "links (hptr h) base (map fst xs) base" and d: "distinct (base # map fst xs)" and f: "?f \<in> set (base # map fst xs)"
    using assms layout_distinct [OF assms] by (simp_all add: layout_def)
  show thesis
  proof (cases "?f = base")
    case True
    then show thesis using that [of "map fst xs"] l d by auto
  next
    case False
    then obtain l1 l2 where e: "map fst xs = l1 @ ?f # l2" using f split_list [of ?f "map fst xs"] by auto
    have "links (hptr h) base l1 ?f" "links (hptr h) ?f l2 base" using l unfolding e by (simp_all add: links_append)
    then have "links (hptr h) ?f (l2 @ base # l1) ?f" by (simp add: links_append)
    moreover have "set (base # map fst xs) = insert ?f (set (l2 @ base # l1))" unfolding e by auto
    moreover have "?f \<notin> set (l2 @ base # l1)" using d False unfolding e by auto
    ultimately show thesis using that by simp
  qed
qed

lemma malloc_walk:
  assumes "freep h = f" "f \<notin> set as" "links (hptr h) y as f"
  shows "(\<exists>y' x. hptr h y' = x \<and> y' \<in> insert y (set as) \<and> x \<in> insert f (set as) \<and> nu \<le> hsize h x \<and>
      malloc_loop g nu y (hptr h y) h = Some (take_block nu y' x h)) \<or>
    (\<forall>x \<in> insert f (set as). hsize h x < nu) \<and>
      malloc_loop g nu y (hptr h y) h = (case morecore g nu h of None \<Rightarrow> None
        | Some (q, h) \<Rightarrow> if q = 0 then Some (0, h) else malloc_loop g nu q (hptr h q) h)"
  using assms
proof (induction as arbitrary: y)
  case Nil
  then show ?case by (cases "nu \<le> hsize h f") (auto simp: malloc_loop.simps [of g nu y f])
next
  case (Cons a as)
  show ?case
  proof (cases "nu \<le> hsize h a")
    case True
    then have "malloc_loop g nu y (hptr h y) h = Some (take_block nu y a h)"
      using Cons.prems by (subst malloc_loop.simps) simp
    then show ?thesis using True Cons.prems by (intro disjI1 exI [of _ y] exI [of _ a]) auto
  next
    case False
    then have "malloc_loop g nu y (hptr h y) h = malloc_loop g nu a (hptr h a) h"
      using Cons.prems by (subst malloc_loop.simps) auto
    then show ?thesis using Cons.IH [of a] Cons.prems False by auto
  qed
qed

lemma malloc_first:
  assumes l: "layout base h xs" and nu: "0 < nu"
  shows "(\<exists>r h' ys. malloc_loop g nu (freep h) (hptr h (freep h)) h = Some (r, h') \<and> layout base h' ys \<and> brk h' = brk h \<and> 0 < r \<and>
      hsize h' (r - 1) = nu \<and> block (r - 1) nu \<subseteq> area xs \<and> area ys = area xs - block (r - 1) nu) \<or>
    (\<forall>x \<in> set xs. snd x < nu) \<and>
      malloc_loop g nu (freep h) (hptr h (freep h)) h = (case morecore g nu h of None \<Rightarrow> None
        | Some (q, h) \<Rightarrow> if q = 0 then Some (0, h) else malloc_loop g nu q (hptr h q) h)"
proof -
  obtain cs where cs: "links (hptr h) (freep h) cs (freep h)" "insert (freep h) (set cs) = insert base (fst ` set xs)" "freep h \<notin> set cs"
    by (rule ring_from [OF l])
  have sz: "hsize h (fst x) = snd x" if "x \<in> set xs" for x using l that by (simp add: layout_def)
  from malloc_walk [OF refl cs(3,1), of nu g] show ?thesis
  proof (elim disjE exE conjE)
    fix y x
    assume a: "hptr h y = x" "y \<in> insert (freep h) (set cs)" "x \<in> insert (freep h) (set cs)" "nu \<le> hsize h x"
      and t: "malloc_loop g nu (freep h) (hptr h (freep h)) h = Some (take_block nu y x h)"
    show ?thesis using take_block_ok [OF l a(2) [unfolded cs(2)] a(1,4) nu a(3) [unfolded cs(2)]] t by (intro disjI1) metis
  next
    assume a: "\<forall>x \<in> insert (freep h) (set cs). hsize h x < nu"
    then have "\<forall>x \<in> set xs. snd x < nu" unfolding cs(2) using sz by force
    moreover assume "malloc_loop g nu (freep h) (hptr h (freep h)) h = (case morecore g nu h of None \<Rightarrow> None
        | Some (q, h) \<Rightarrow> if q = 0 then Some (0, h) else malloc_loop g nu q (hptr h q) h)"
    ultimately show ?thesis by blast
  qed
qed

text \<open>A run of free units lies in one block, because blocks do not touch.\<close>

lemma area_block:
  assumes "sorted_wrt fits ys" "block p n \<subseteq> area ys" "0 < n"
  shows "\<exists>x \<in> set ys. n \<le> snd x"
proof -
  have "p \<in> area ys" using assms(2,3) by (auto simp: block_def)
  then obtain x where x: "x \<in> set ys" "p \<in> block (fst x) (snd x)" by (auto simp: area_def)
  have "p + n \<le> fst x + snd x"
  proof (rule ccontr)
    assume "\<not> p + n \<le> fst x + snd x"
    then have "fst x + snd x \<in> block p n" using x(2) by (auto simp: block_def)
    then obtain y where y: "y \<in> set ys" "fst x + snd x \<in> block (fst y) (snd y)" using assms(2) by (auto simp: area_def)
    then have "x \<noteq> y" by (auto simp: block_def)
    then have "fits x y \<or> fits y x" using assms(1) x(1) y(1) by (metis in_set_conv_nth linorder_neqE_nat sorted_wrt_iff_nth_less)
    then show False using y(2) x(2) by (auto simp: fits_def block_def)
  qed
  then show ?thesis using x by (intro bexI [of _ x]) (auto simp: block_def)
qed

lemma sint_bytes: "k < 2 ^ 31 \<Longrightarrow> sint (of_nat k :: u32) = int k"
proof -
  assume "k < 2 ^ 31"
  then have "int k < 2 ^ 31" by simp
  then have "signed_take_bit 31 (int k) = int k" by (intro signed_take_bit_int_eq_self) simp_all
  then show ?thesis by (simp add: signed_of_nat)
qed

lemma morecore_ok:
  assumes l: "layout base h xs" and nu: "0 < nu" "nu < 2 ^ 27"
  shows "morecore g nu h = Some (0, h) \<or>
    (\<exists>h' ys. morecore g nu h = Some (freep h', h') \<and> layout base h' ys \<and> brk h < brk h' \<and>
       area ys = area xs \<union> {brk h..<brk h'} \<and> (\<exists>x \<in> set ys. nu \<le> snd x))"
proof -
  define n where "n = (if nu < 4096 then 4096 else nu)"
  have n: "nu \<le> n" "0 < n" "n < 2 ^ 27" using nu by (auto simp: n_def)
  have sb: "sint (of_nat (n * 16) :: u32) = int (n * 16)" by (rule sint_bytes) (use n(3) in simp)
  show ?thesis
  proof (cases "g (int (n * 16))")
    case False
    then show ?thesis unfolding morecore_def n_def [symmetric] sb Let_def by simp
  next
    case True
    let ?h = "h\<lparr>brk := brk h + n, hsize := (hsize h)(brk h := n)\<rparr>"
    have nd: "fst x \<noteq> brk h" if "x \<in> set xs" for x using l that by (force simp: layout_def)
    have bb: "base < brk h" using l by (simp add: layout_def)
    then have l': "layout base ?h xs" using l nd by (auto simp: layout_def)
    have "block (brk h) n \<inter> area xs = {}" using l by (fastforce simp: area_def block_def layout_def)
    then obtain h' ys where h': "free_block (brk h) ?h = Some h'" "layout base h' ys" "area ys = area xs \<union> block (brk h) n" "brk h' = brk h + n"
      using free_block_ok [OF l', of "brk h"] n(2) bb by auto
    have "morecore g nu h = Some (freep h', h')"
      unfolding morecore_def n_def [symmetric] sb Let_def using True h'(1) by (simp add: nat_add_distrib)
    moreover have "sorted_wrt fits ys" using h'(2) by (simp add: layout_def)
    then have "\<exists>x \<in> set ys. nu \<le> snd x" using area_block [of ys "brk h" n] h'(3) n(1,2) by (metis Un_upper2 le_trans)
    ultimately show ?thesis using h' n(1,2) by (intro disjI2 exI [of _ h'] exI [of _ ys]) (auto simp: block_def)
  qed
qed

section \<open>Properties\<close>

text \<open>Before the first call there is no list yet.\<close>

definition heap_ok :: "nat \<Rightarrow> heap \<Rightarrow> (nat \<times> nat) list \<Rightarrow> bool" where
  "heap_ok base h xs \<longleftrightarrow> freep h = 0 \<and> xs = [] \<and> 0 < base \<and> base < brk h \<or> layout base h xs"


definition heap0 :: heap where
  "heap0 = \<lparr>hptr = (\<lambda>_. 0), hsize = (\<lambda>_. 0), freep = 0, brk = 256\<rparr>"


text \<open>
  Claim C21. \<open>free\<close> gives back exactly the block. For a block that is not free, \<open>free\<close> returns, the free
  memory grows by the units of the block and by nothing else, and the list stays sorted, circular and
  merged with its neighbours.
\<close>

theorem free_correct:
  assumes "layout base h xs" "base < ap - 1" "0 < hsize h (ap - 1)" "ap - 1 + hsize h (ap - 1) \<le> brk h"
    "block (ap - 1) (hsize h (ap - 1)) \<inter> area xs = {}"
  shows "\<exists>h' ys. free ap h = Some h' \<and> layout base h' ys \<and> area ys = area xs \<union> block (ap - 1) (hsize h (ap - 1)) \<and> brk h' = brk h"
  using free_block_ok [OF assms(1,5,3,2,4)] by (simp add: free_def)

theorem free_correct_witness:
  "\<exists>h' ys. free 101 \<lparr>hptr = (\<lambda>p. if p = 10 then 108 else 10), hsize = (\<lambda>p. if p = 100 then 8 else if p = 108 then 4 else 0), freep = 108, brk = 256\<rparr> = Some h' \<and>
     layout 10 h' ys \<and> area ys = block 108 4 \<union> block 100 8"
proof -
  let ?h = "\<lparr>hptr = (\<lambda>p. if p = 10 then 108 else 10), hsize = (\<lambda>p. if p = 100 then 8 else if p = 108 then 4 else 0), freep = 108, brk = 256\<rparr>"
  have l: "layout 10 ?h [(108, 4)]" by (simp add: layout_def)
  show ?thesis using free_correct [OF l, of 101] by (auto simp: block_def)
qed

end
