(* ===== verification/User_Tools.thy ===== *)
theory User_Tools
  imports User_Lib Fs_Layout
begin

text \<open>
  Small user programs: \<^verbatim>\<open>user/wc.c\<close>, \<^verbatim>\<open>user/cat.c\<close>, \<^verbatim>\<open>user/echo.c\<close> and the name formatting of \<^verbatim>\<open>user/ls.c\<close>. What
  successive calls of \<open>read\<close> return is a list of pieces, of any sizes, then the end of the input or
  an error. Output is the string that is written; \<open>Panic\<close> is a message on the way to \<^verbatim>\<open>exit(1)\<close>.
\<close>

section \<open>wc\<close>

record wc_state =
  wc_l :: nat
  wc_w :: nat
  wc_c :: nat
  inword :: bool

definition wc_space :: string where
  "wc_space = [CHR '' '', CHR 0x0D, CHR 0x09, CHR 0x0A, CHR 0x0B]"

definition wc_char :: "char \<Rightarrow> wc_state \<Rightarrow> wc_state" where
  "wc_char ch s =
     (let s = s\<lparr>wc_c := wc_c s + 1\<rparr>;
          s = (if ch = CHR 0x0A then s\<lparr>wc_l := wc_l s + 1\<rparr> else s)
      in if strchr wc_space ch \<noteq> None then s\<lparr>inword := False\<rparr>
         else if \<not> inword s then s\<lparr>wc_w := wc_w s + 1, inword := True\<rparr>
         else s)"

definition wc_loop :: "string list \<Rightarrow> wc_state" where
  "wc_loop chunks = fold (fold wc_char) chunks \<lparr>wc_l = 0, wc_w = 0, wc_c = 0, inword = False\<rparr>"

text \<open>\<open>ok\<close>: the last \<open>read\<close> returned 0 and not an error.\<close>

definition wc :: "string list \<Rightarrow> bool \<Rightarrow> string \<Rightarrow> string res" where
  "wc chunks ok name =
     (if \<not> ok then Inl (Panic ''wc: read error'')
      else
        let s = wc_loop chunks in
        vprintf (''%d %d %d %s'' @ [CHR 0x0A])
          [ArgInt (of_nat (wc_l s)), ArgInt (of_nat (wc_w s)), ArgInt (of_nat (wc_c s)), ArgStr (Some name)])"

section \<open>cat\<close>

text \<open>\<open>wr out bs\<close> is what \<open>write\<close> of \<open>bs\<close> returns after \<open>out\<close> was written; a short count is an error.\<close>

fun cat_loop :: "(string \<Rightarrow> string \<Rightarrow> int) \<Rightarrow> string list \<Rightarrow> bool \<Rightarrow> string \<Rightarrow> string \<times> string option" where
  "cat_loop wr [] ok out = (out, if ok then None else Some ''cat: read error'')"
| "cat_loop wr (b # bs) ok out =
     (if wr out b \<noteq> int (length b) then (out @ take (nat (wr out b)) b, Some ''cat: write error'')
      else cat_loop wr bs ok (out @ b))"

definition cat :: "(string \<Rightarrow> string \<Rightarrow> int) \<Rightarrow> string list \<Rightarrow> bool \<Rightarrow> string \<times> string option" where
  "cat wr chunks ok = cat_loop wr chunks ok []"

section \<open>echo\<close>

fun echo_args :: "string list \<Rightarrow> string" where
  "echo_args [] = []"
| "echo_args (a # as) = a @ (if as \<noteq> [] then '' '' else [CHR 0x0A]) @ echo_args as"

section \<open>ls\<close>

definition after_slash :: "string \<Rightarrow> string" where
  "after_slash path = rev (takeWhile (\<lambda>c. c \<noteq> CHR ''/'') (rev path))"

text \<open>The static buffer has \<^verbatim>\<open>DIRSIZ + 1\<close> bytes and its last byte stays zero.\<close>

definition fmtname :: "string \<Rightarrow> string" where
  "fmtname path =
     (let p = after_slash path in
      if length p \<ge> DIRSIZ then p else p @ replicate (DIRSIZ - length p) (CHR '' ''))"

section \<open>Properties\<close>

definition is_wc_space :: "char \<Rightarrow> bool" where
  "is_wc_space c \<longleftrightarrow> c \<in> set wc_space"

lemma strchr_None: "strchr s c = None \<longleftrightarrow> c \<notin> set s"
  by (induction s) auto

text \<open>The words of a text: its longest pieces without white space.\<close>

function words :: "string \<Rightarrow> string list" where
  "words s =
     (let t = dropWhile is_wc_space s in
      if t = [] then [] else takeWhile (\<lambda>c. \<not> is_wc_space c) t # words (dropWhile (\<lambda>c. \<not> is_wc_space c) t))"
  by pat_completeness auto
termination
proof (relation "measure length", simp)
  fix s t
  assume t: "t = dropWhile is_wc_space s" "t \<noteq> []"
  then have "\<not> is_wc_space (hd t)" by (simp add: hd_dropWhile)
  then have "length (dropWhile (\<lambda>c. \<not> is_wc_space c) t) < length t"
    using t(2) by (cases t) (simp_all add: length_dropWhile_le less_Suc_eq_le)
  also have "\<dots> \<le> length s" using t(1) by (simp add: length_dropWhile_le)
  finally show "(dropWhile (\<lambda>c. \<not> is_wc_space c) t, s) \<in> measure length" by simp
qed

declare words.simps [simp del]

lemma words_space: "is_wc_space c \<Longrightarrow> words (c # s) = words s"
  by (subst (1 2) words.simps) (simp add: Let_def)

lemma words_char: "\<not> is_wc_space c \<Longrightarrow> words (c # s) = (c # takeWhile (\<lambda>c. \<not> is_wc_space c) s) # words (dropWhile (\<lambda>c. \<not> is_wc_space c) s)"
  by (subst words.simps) (simp add: Let_def)

text \<open>Inside a word the rest of it does not count again.\<close>

lemma wc_fold:
  "wc_c (fold wc_char s st) = wc_c st + length s \<and>
   wc_l (fold wc_char s st) = wc_l st + count_list s (CHR 0x0A) \<and>
   wc_w (fold wc_char s st) = wc_w st + length (words (if inword st then dropWhile (\<lambda>c. \<not> is_wc_space c) s else s))"
proof (induction s arbitrary: st)
  case Nil
  then show ?case by (simp add: words.simps [of "[]"])
next
  case (Cons c s)
  have sp: "strchr wc_space c \<noteq> None \<longleftrightarrow> is_wc_space c" by (simp add: strchr_None is_wc_space_def)
  show ?case using Cons [of "wc_char c st"] words_space [of c] words_char [of c s] sp
    by (auto simp: wc_char_def Let_def)
qed

lemma fold_fold_concat: "fold (fold f) xss s = fold f (concat xss) s"
  by (induction xss arbitrary: s) auto


lemma cat_copies:
  assumes "\<And>out b. wr out b = int (length b)"
  shows "cat wr chunks ok = (concat chunks, if ok then None else Some ''cat: read error'')"
proof -
  have "cat_loop wr cs ok out = (out @ concat cs, if ok then None else Some ''cat: read error'')" for cs out
    by (induction cs arbitrary: out) (simp_all add: assms)
  then show ?thesis by (simp add: cat_def)
qed

lemma fmtname_width: "length (fmtname path) \<ge> DIRSIZ"
  by (simp add: fmtname_def Let_def)

end
