(* ===== verification/Kernel_Printf.thy ===== *)
theory Kernel_Printf
  imports User_Lib
begin

text \<open>
  Messages of the kernel (\<^verbatim>\<open>kernel/printf.c\<close>), as the string that goes to the console. The conversions
  are those of the user library, but for 64-bit numbers, with lower-case digits, and through a buffer
  of 16 bytes that nothing checks.
\<close>

section \<open>Conversions\<close>

definition kdigits :: string where
  "kdigits = ''0123456789abcdef''"

text \<open>The digits, and the sign, are stored from the least significant one on, and written backwards.\<close>

definition kprintint :: "u64 \<Rightarrow> nat \<Rightarrow> bool \<Rightarrow> string res" where
  "kprintint xx base sg =
     (let neg = (sg \<and> sint xx < 0);
          x = (if neg then - xx else xx);
          buf = print_digits kdigits base (unat x) @ (if neg then ''-'' else '''')
      in if length buf > 16 then Inl (Undef ''buf'') else Inr (rev buf))"

definition kprintptr :: "u64 \<Rightarrow> string" where
  "kprintptr x = ''0x'' @ map (\<lambda>i. kdigits ! unat (drop_bit 60 (push_bit (4 * i) x))) [0..<16]"

text \<open>\<^verbatim>\<open>va_arg(ap, int)\<close> is sign-extended; \<open>k\<close> counts the \<^verbatim>\<open>l\<close>s of the directive.\<close>

definition kint_arg :: "nat \<Rightarrow> u64 \<Rightarrow> u64" where
  "kint_arg k v = (if k = 0 then scast (ucast v :: u32) else v)"

function kprintf :: "string \<Rightarrow> arg list \<Rightarrow> string res" where
  "kprintf fmt ap =
     (case fmt of
        [] \<Rightarrow> Inr []
      | cx # fmt \<Rightarrow>
          if cx \<noteq> CHR ''%'' then ebind (kprintf fmt ap) (\<lambda>out. Inr (cx # out))
          else (case fmt of
            [] \<Rightarrow> Inr []
          | c0 # rest \<Rightarrow>
              (case int_directive c0 rest of
                 Some (base, sg, k) \<Rightarrow>
                   with_int ap (\<lambda>v ap.
                     ebind (kprintint (kint_arg k v) base sg) (\<lambda>s.
                     ebind (kprintf (drop k rest) ap) (\<lambda>out. Inr (s @ out))))
               | None \<Rightarrow>
                   if c0 = CHR ''p'' then with_int ap (\<lambda>v ap. ebind (kprintf rest ap) (\<lambda>out. Inr (kprintptr v @ out)))
                   else if c0 = CHR ''s'' then with_str ap (\<lambda>s ap. ebind (kprintf rest ap) (\<lambda>out. Inr (s @ out)))
                   else if c0 = CHR ''%'' then ebind (kprintf rest ap) (\<lambda>out. Inr (CHR ''%'' # out))
                   else ebind (kprintf rest ap) (\<lambda>out. Inr (CHR ''%'' # c0 # out)))))"
  by pat_completeness auto
termination
  by (relation "measure (\<lambda>(fmt, ap). length fmt)") auto

declare kprintf.simps [simp del]

text \<open>What \<open>panic\<close> prints before it freezes the console.\<close>

definition kpanic :: "string \<Rightarrow> string res" where
  "kpanic s =
     ebind (kprintf ''panic: '' []) (\<lambda>out1.
     ebind (kprintf (''%s'' @ [CHR 0x0A]) [ArgStr (Some s)]) (\<lambda>out2. Inr (out1 @ out2)))"

section \<open>The length of a number\<close>

lemma length_print_digits:
  assumes "2 \<le> base"
  shows "length (print_digits tbl base x) \<le> Suc n \<longleftrightarrow> x < base ^ Suc n"
proof (induction n arbitrary: x)
  case 0
  show ?case using assms by (subst print_digits.simps) (auto simp: div_eq_0_iff print_digits.simps [of tbl base "x div base"])
next
  case (Suc n)
  have "x div base < base ^ Suc n \<longleftrightarrow> x < base ^ Suc (Suc n)"
    using assms by (simp add: div_less_iff_less_mult mult.commute)
  moreover have "x div base = 0 \<Longrightarrow> x < base ^ Suc (Suc n)"
    using assms calculation by simp
  ultimately show ?case using Suc [of "x div base"] assms by (subst print_digits.simps) auto
qed

lemma unat_sint:
  assumes "0 \<le> sint (w :: u64)"
  shows "unat w = nat (sint w)"
proof -
  have "uint w = sint w mod 2 ^ 64" by (simp add: uint_sint take_bit_eq_mod)
  moreover have "sint w < 2 ^ 63" using sint_lt [of w] by simp
  ultimately show ?thesis using assms by (simp add: unat_eq_nat_uint)
qed

lemma unat_uminus_sint:
  assumes "sint (w :: u64) < 0"
  shows "unat (- w) = nat (- sint w)"
proof -
  have "- (2 ^ 63) \<le> sint w" using sint_ge [of w] by simp
  then have "- sint w mod 2 ^ 64 = - sint w" using assms by (intro mod_pos_pos_trivial) simp_all
  moreover have "uint w = sint w mod 2 ^ 64" by (simp add: uint_sint take_bit_eq_mod)
  then have "uint (- w) = - sint w mod 2 ^ 64" by (simp add: uint_word_ariths mod_minus_eq)
  ultimately show ?thesis by (simp add: unat_eq_nat_uint)
qed

section \<open>Properties\<close>

text \<open>
  Claim C40. Which numbers the kernel can print. Hexadecimal output always fits the buffer of \<open>printint\<close>; decimal
  output fits exactly below \<^verbatim>\<open>10^16\<close>, and for a signed number above \<^verbatim>\<open>-10^15\<close>. The 64-bit directives,
  and \<^verbatim>\<open>%u\<close> of a negative \<^verbatim>\<open>int\<close>, which is extended with its sign first, write behind the buffer.
\<close>

theorem kprintint_fits:
  "(\<exists>s. kprintint v 16 False = Inr s) \<and>
   ((\<exists>s. kprintint v 10 True = Inr s) = (- (10 ^ 15) < sint v \<and> sint v < 10 ^ 16)) \<and>
   ((\<exists>s. kprintint v 10 False = Inr s) = (unat v < 10 ^ 16)) \<and>
   (\<exists>s. kprintint (kint_arg 0 v) 10 True = Inr s) \<and>
   ((\<exists>s. kprintint (kint_arg 0 v) 10 False = Inr s) = (0 \<le> sint (ucast v :: u32)))"
proof -
  have len: "length (print_digits tbl b x) \<le> 16 \<longleftrightarrow> x < b ^ 16" if "2 \<le> b" for tbl b x
    using length_print_digits [OF that, of tbl x 15] by (simp del: power_Suc add: eval_nat_numeral(3) [symmetric])
  have len': "Suc (length (print_digits tbl 10 x)) \<le> 16 \<longleftrightarrow> x < 10 ^ 15" for tbl x
    using length_print_digits [of 10 tbl x 14] by simp
  have u: "(\<exists>s. kprintint w b False = Inr s) \<longleftrightarrow> unat w < b ^ 16" if "2 \<le> b" for w b
    using len [OF that, of kdigits "unat w"] by (auto simp: kprintint_def Let_def not_less)
  have s: "(\<exists>t. kprintint w 10 True = Inr t) \<longleftrightarrow> - (10 ^ 15) < sint w \<and> sint w < 10 ^ 16" for w
  proof (cases "sint w < 0")
    case True
    then show ?thesis using len' [of kdigits "unat (- w)"] unat_uminus_sint [OF True] by (auto simp: kprintint_def Let_def not_less nat_less_iff)
  next
    case False
    then show ?thesis using len [of 10 kdigits "unat w"] unat_sint [of w] by (auto simp: kprintint_def Let_def not_less nat_less_iff)
  qed
  have ext: "sint (kint_arg 0 v) = sint (ucast v :: u32)" by (simp add: kint_arg_def sint_up_scast is_up)
  have b: "- (2 ^ 31) \<le> sint (ucast v :: u32)" "sint (ucast v :: u32) < 2 ^ 31"
    using sint_ge [of "ucast v :: u32"] sint_lt [of "ucast v :: u32"] by simp_all
  have "unat (kint_arg 0 v) < 10 ^ 16 \<longleftrightarrow> 0 \<le> sint (ucast v :: u32)"
  proof (cases "0 \<le> sint (ucast v :: u32)")
    case True
    then show ?thesis using unat_sint [of "kint_arg 0 v"] ext b by (simp add: nat_less_iff)
  next
    case False
    have "uint (kint_arg 0 v) = sint (kint_arg 0 v) mod 2 ^ 64" by (simp add: uint_sint take_bit_eq_mod)
    also have "\<dots> = (sint (kint_arg 0 v) + 2 ^ 64) mod 2 ^ 64" by simp
    also have "\<dots> = sint (kint_arg 0 v) + 2 ^ 64" using False b ext by (intro mod_pos_pos_trivial) simp_all
    finally show ?thesis using False b ext by (simp add: unat_eq_nat_uint)
  qed
  moreover have "unat v < 16 ^ 16" using unsigned_less [of v, where 'a = nat] by simp
  ultimately show ?thesis using u [of 16 v] u [of 10 v] u [of 10 "kint_arg 0 v"] s [of v] s [of "kint_arg 0 v"] ext b by simp
qed

end
