(* ===== verification/Shell_Run.thy ===== *)
theory Shell_Run
  imports User_Shell
begin

text \<open>
  How the shell runs a parsed command (\<open>runcmd\<close> of \<^verbatim>\<open>user/sh.c\<close>): the programs it starts, each with the table of
  file descriptors it is started with. A table gives the object that a descriptor refers to; \<open>open\<close>,
  \<open>dup\<close> and \<open>pipe\<close> take the lowest free descriptors, as the kernel does. Whether a file can be opened
  is a parameter; \<open>fork\<close> succeeds. A pipe is named by a number, and \<open>runcmd\<close> returns the next free one.
\<close>

section \<open>Descriptors\<close>

datatype endpoint = Term | File string nat | PipeR nat | PipeW nat

type_synonym fdt = "nat \<Rightarrow> endpoint option"

definition FDS :: nat where "FDS = 16"

definition sh_close :: "nat \<Rightarrow> fdt \<Rightarrow> fdt" where
  "sh_close fd t = t(fd := None)"

definition sh_open :: "endpoint \<Rightarrow> fdt \<Rightarrow> (nat \<times> fdt) option" where
  "sh_open x t = (case scan (\<lambda>fd. t fd = None) 0 FDS of None \<Rightarrow> None | Some fd \<Rightarrow> Some (fd, t(fd \<mapsto> x)))"

text \<open>The result of \<open>dup\<close> is not looked at.\<close>

definition sh_dup :: "nat \<Rightarrow> fdt \<Rightarrow> fdt" where
  "sh_dup fd t = (case t fd of None \<Rightarrow> t | Some x \<Rightarrow> (case sh_open x t of None \<Rightarrow> t | Some (_, t) \<Rightarrow> t))"

section \<open>Running a command\<close>

text \<open>One side of a pipe: descriptor \<open>fd\<close> becomes the end \<open>p\<close>, and both ends \<open>p0\<close> and \<open>p1\<close> are closed.\<close>

definition pipe_side :: "nat \<Rightarrow> nat \<Rightarrow> nat \<Rightarrow> nat \<Rightarrow> fdt \<Rightarrow> fdt" where
  "pipe_side fd p p0 p1 t = sh_close p1 (sh_close p0 (sh_dup p (sh_close fd t)))"

fun runcmd :: "(string \<Rightarrow> nat \<Rightarrow> bool) \<Rightarrow> cmd \<Rightarrow> fdt \<Rightarrow> nat \<Rightarrow> (string list \<times> fdt) list \<times> nat" where
  "runcmd can (Exec argv) t n = (if argv = [] then [] else [(argv, t)], n)"
| "runcmd can (Redir c fname mode fd) t n =
     (case (if can fname mode then sh_open (File fname mode) (sh_close fd t) else None) of
        None \<Rightarrow> ([], n)
      | Some (_, t) \<Rightarrow> runcmd can c t n)"
| "runcmd can (ListC l r) t n =
     (case runcmd can l t n of (ps, n) \<Rightarrow>
      case runcmd can r t n of (qs, n) \<Rightarrow> (ps @ qs, n))"
| "runcmd can (Pipe l r) t n =
     (case sh_open (PipeR n) t of
        None \<Rightarrow> ([], Suc n)
      | Some (p0, t) \<Rightarrow>
          (case sh_open (PipeW n) t of
             None \<Rightarrow> ([], Suc n)
           | Some (p1, t) \<Rightarrow>
               (case runcmd can l (pipe_side 1 p1 p0 p1 t) (Suc n) of (ps, n) \<Rightarrow>
                case runcmd can r (pipe_side 0 p0 p0 p1 t) n of (qs, n) \<Rightarrow> (ps @ qs, n))))"
| "runcmd can (Back c) t n = runcmd can c t n"

text \<open>A line of input: the shell changes the directory itself, and runs all else in a child.\<close>

datatype line_act = Chdir string | Run "cmd res"

definition run_line :: "string \<Rightarrow> line_act" where
  "run_line buf = (if take 3 buf = ''cd '' then Chdir (drop 3 (butlast buf)) else Run (parsecmd buf))"

section \<open>Properties\<close>

text \<open>The redirections of a command are of the standard input and output, as the parser makes them.\<close>

fun redirs_std :: "cmd \<Rightarrow> bool" where
  "redirs_std (Exec argv) \<longleftrightarrow> True"
| "redirs_std (Redir c fname mode fd) \<longleftrightarrow> fd \<le> 1 \<and> redirs_std c"
| "redirs_std (ListC l r) \<longleftrightarrow> redirs_std l \<and> redirs_std r"
| "redirs_std (Pipe l r) \<longleftrightarrow> redirs_std l \<and> redirs_std r"
| "redirs_std (Back c) \<longleftrightarrow> redirs_std c"

definition std_open :: "fdt \<Rightarrow> bool" where
  "std_open t \<longleftrightarrow> (\<forall>fd \<le> 2. t fd \<noteq> None)"

text \<open>A table that differs from \<open>t\<close> at most in the standard input and output, which are open.\<close>

definition std_of :: "fdt \<Rightarrow> fdt \<Rightarrow> bool" where
  "std_of t t' \<longleftrightarrow> std_open t' \<and> (\<forall>fd \<ge> 2. t' fd = t fd)"

lemma std_of_trans: "std_of t t' \<Longrightarrow> std_of t' t'' \<Longrightarrow> std_of t t''"
  by (simp add: std_of_def)

lemma sh_open_Some: "sh_open x t = Some (fd, t') \<longleftrightarrow> fd < FDS \<and> t fd = None \<and> (\<forall>i < fd. t i \<noteq> None) \<and> t' = t(fd \<mapsto> x)"
proof -
  have "sh_open x t = Some (fd, t') \<longleftrightarrow> scan (\<lambda>fd. t fd = None) 0 FDS = Some fd \<and> t' = t(fd \<mapsto> x)"
    by (auto simp: sh_open_def split: option.splits)
  then show ?thesis unfolding scan_Some_iff by auto
qed

lemma open_closed:
  assumes "std_open t" "fd \<le> 1"
  shows "sh_open x (sh_close fd t) = Some (fd, t(fd \<mapsto> x))"
  unfolding sh_open_Some using assms by (auto simp: sh_close_def std_open_def FDS_def)

lemma pipe_side_std:
  assumes t: "std_open t" and o: "sh_open (PipeR n) t = Some (p0, t1)" "sh_open (PipeW n) t1 = Some (p1, t2)"
  shows "pipe_side 1 p1 p0 p1 t2 = t(1 \<mapsto> PipeW n)" "pipe_side 0 p0 p0 p1 t2 = t(0 \<mapsto> PipeR n)"
proof -
  have p0: "t p0 = None" "t1 = t(p0 \<mapsto> PipeR n)" using o(1) by (simp_all add: sh_open_Some)
  have p1: "t1 p1 = None" "t2 = t1(p1 \<mapsto> PipeW n)" using o(2) by (simp_all add: sh_open_Some)
  have gt: "2 < p0" "2 < p1" "p0 \<noteq> p1" using t p0 p1 by (auto simp: std_open_def not_le [symmetric] split: if_splits)
  have std: "std_open t2" using t gt p0 p1 by (auto simp: std_open_def)
  have d: "sh_dup p1 (sh_close 1 t2) = t2(1 \<mapsto> PipeW n)" "sh_dup p0 (sh_close 0 t2) = t2(0 \<mapsto> PipeR n)"
    using open_closed [OF std, of 1] open_closed [OF std, of 0] p0 p1 gt by (simp_all add: sh_dup_def sh_close_def)
  show "pipe_side 1 p1 p0 p1 t2 = t(1 \<mapsto> PipeW n)" "pipe_side 0 p0 p0 p1 t2 = t(0 \<mapsto> PipeR n)"
    unfolding pipe_side_def d using p0 p1 gt by (auto simp: sh_close_def fun_eq_iff)
qed

lemma std_upd: "std_open t \<Longrightarrow> fd \<le> 1 \<Longrightarrow> std_of t (t(fd \<mapsto> x))"
  by (auto simp: std_of_def std_open_def)

lemma runcmd_std:
  "std_open t \<Longrightarrow> redirs_std c \<Longrightarrow> (argv, t') \<in> set (fst (runcmd can c t n)) \<Longrightarrow> std_of t t'"
proof (induction can c t n rule: runcmd.induct)
  case (1 can argv t n)
  then show ?case by (auto simp: std_of_def split: if_splits)
next
  case (2 can c fname mode fd t n)
  define u where "u = t(fd \<mapsto> File fname mode)"
  have o: "sh_open (File fname mode) (sh_close fd t) = Some (fd, u)" using 2(2,3) by (simp add: open_closed u_def)
  have ok: "can fname mode" using 2(4) by (simp split: if_splits)
  have s: "std_of t u" using 2(2,3) by (simp add: std_upd u_def)
  have "(argv, t') \<in> set (fst (runcmd can c u n))" using 2(4) o ok by simp
  moreover have "std_open u" "redirs_std c" using s 2(3) by (simp_all add: std_of_def)
  ultimately have "std_of u t'" using 2(1) [of "(fd, u)" fd u] o ok by simp
  then show ?case using s by (rule std_of_trans [rotated])
next
  case (3 can l r t n)
  then show ?case by (auto split: prod.splits)
next
  case (4 can l r t n)
  show ?case
  proof (cases "\<exists>p0 t1 p1 t2. sh_open (PipeR n) t = Some (p0, t1) \<and> sh_open (PipeW n) t1 = Some (p1, t2)")
    case True
    then obtain p0 t1 p1 t2 where o: "sh_open (PipeR n) t = Some (p0, t1)" "sh_open (PipeW n) t1 = Some (p1, t2)" by blast
    note p = pipe_side_std [OF 4(3) o]
    define u w where "u = t(1 \<mapsto> PipeW n)" and "w = t(0 \<mapsto> PipeR n)"
    note p = p [folded u_def w_def]
    obtain ps n1 where l: "runcmd can l u (Suc n) = (ps, n1)" by fastforce
    obtain qs n2 where r: "runcmd can r w n1 = (qs, n2)" by fastforce
    have s: "std_of t u" "std_of t w" using 4(3) by (simp_all add: std_upd u_def w_def)
    have rs: "redirs_std l" "redirs_std r" "std_open u" "std_open w" using 4(4) s by (simp_all add: std_of_def)
    have "(argv, t') \<in> set ps \<or> (argv, t') \<in> set qs" using 4(5) o p l r by simp
    then show ?thesis
    proof
      assume "(argv, t') \<in> set ps"
      then have "std_of u t'" using 4(1) [OF o(1) refl o(2) refl] p(1) l rs by simp
      then show ?thesis using s(1) by (rule std_of_trans [rotated])
    next
      assume "(argv, t') \<in> set qs"
      then have "std_of w t'" using 4(2) [OF o(1) refl o(2) refl, of ps n1] p l r rs by simp
      then show ?thesis using s(2) by (rule std_of_trans [rotated])
    qed
  next
    case False
    then show ?thesis using 4(5) by (auto split: option.splits)
  qed
next
  case (5 can c t n)
  then show ?case by simp
qed

lemma pipeline:
  assumes t: "std_open t" and o: "sh_open (PipeR n) t = Some (p0, t1)" "sh_open (PipeW n) t1 = Some (p1, t2)" and "a \<noteq> []" "b \<noteq> []"
  shows "runcmd can (Pipe (Exec a) (Exec b)) t n = ([(a, t(1 \<mapsto> PipeW n)), (b, t(0 \<mapsto> PipeR n))], Suc n)"
  using assms pipe_side_std [OF t o] by simp

section \<open>Parsed commands redirect standard input and output only\<close>

definition std_result :: "(cmd \<times> string) res \<Rightarrow> bool" where
  "std_result m \<longleftrightarrow> (\<forall>c r. m = Inr (c, r) \<longrightarrow> redirs_std c)"

lemma std_result_simps [simp]: "std_result (Inl e)" "std_result (Inr (c, r)) \<longleftrightarrow> redirs_std c"
  by (auto simp: std_result_def)

lemma std_result_ebind: "std_result m \<Longrightarrow> (\<And>c r. redirs_std c \<Longrightarrow> std_result (f (c, r))) \<Longrightarrow> std_result (ebind m f)"
  by (cases m) (auto simp: split_paired_all)

lemma redirs_std_add_arg [simp]: "redirs_std (add_arg q c) = redirs_std c"
  by (induction q c rule: add_arg.induct) auto

lemma std_parseredirs: "redirs_std c \<Longrightarrow> std_result (parseredirs c s)"
proof (induction "length s" arbitrary: c s rule: less_induct)
  case less
  show ?case
  proof (cases "peek s ''<>''")
    case True
    have IH: "std_result (parseredirs (Redir c q mode fd) (after (after s)))" if "fd \<le> 1" for q mode fd
      using less.hyps [OF redir_shorter [OF True]] less.prems that by simp
    obtain t q s2 where "gettoken (after s) = (t, q, s2)" by (cases "gettoken (after s)")
    then show ?thesis using True IH by (simp add: parseredirs.simps [of c s] Let_def)
  qed (use less.prems in \<open>simp add: parseredirs.simps [of c s]\<close>)
qed

lemma std_parseargs: "redirs_std c \<Longrightarrow> std_result (parseargs argc c s)"
proof (induction argc c s rule: parseargs.induct)
  case (1 argc c s)
  let ?p = "parseredirs (add_arg (fst (snd (gettoken s))) c) (after s)"
  have "std_result ?p" using 1(2) by (simp add: std_parseredirs)
  then have "\<not> peek s ''|)&;'' \<Longrightarrow> skip_ws s \<noteq> [] \<Longrightarrow> fst (gettoken s) = CHR ''a'' \<Longrightarrow> argc + 1 < MAXARGS \<Longrightarrow>
      std_result (ebind ?p (\<lambda>(c, s). parseargs (argc + 1) c s))"
    using 1(1) by (cases ?p) auto
  then show ?case using 1(2) by (subst parseargs.simps) auto
qed

lemma std_backs: "redirs_std c \<Longrightarrow> redirs_std (fst (backs c s))"
proof (induction c s rule: backs.induct)
  case (1 c s)
  then show ?case by (subst backs.simps) simp
qed

lemma std_parse:
  "std_result (parseline n s) \<and> std_result (parsepipe n s) \<and> std_result (parseblock n s) \<and> std_result (parseexec n s)"
proof (induction n arbitrary: s)
  case (Suc n)
  have "std_result (parseline (Suc n) s)"
  proof -
    have "std_result (case backs c r of (c, r) \<Rightarrow>
        if peek r '';'' then ebind (parseline n (after r)) (\<lambda>(d, r). Inr (ListC c d, r)) else Inr (c, r))"
      if "redirs_std c" for c r
      using std_backs [OF that, of r] Suc by (cases "backs c r") (auto intro: std_result_ebind)
    then show ?thesis using Suc by (auto intro: std_result_ebind)
  qed
  moreover have "std_result (parsepipe (Suc n) s)"
    using Suc by (auto intro!: std_result_ebind)
  moreover have "std_result (parseblock (Suc n) s)"
    using Suc by (auto intro!: std_result_ebind std_parseredirs)
  moreover have "std_result (parseexec (Suc n) s)"
    using Suc by (auto intro!: std_result_ebind std_parseredirs std_parseargs)
  ultimately show ?case by blast
qed simp

lemma std_parsecmd: "parsecmd s = Inr c \<Longrightarrow> redirs_std c"
  using std_parse [of "4 * length s + 4" s] by (auto simp: parsecmd_def std_result_def res_simps split: if_splits)

section \<open>No leaked descriptors\<close>

text \<open>
  Claim C33. The shell leaks no descriptor. Every program that a command line starts, through any nesting of pipes,
  redirections, lists and background commands, has its standard descriptors open and, apart from standard
  input and output, exactly the descriptors of the shell: no end of a pipe stays open in a program
  that does not use it, so readers see the end of their input when the writer is done.
\<close>

theorem runcmd_descriptors:
  assumes "run_line buf = Run (Inr c)" "std_open t" "(argv, t') \<in> set (fst (runcmd can c t n))"
  shows "std_open t' \<and> (\<forall>fd. fd \<ge> 2 \<longrightarrow> t' fd = t fd)"
proof -
  have "redirs_std c" using assms(1) by (auto simp: run_line_def intro: std_parsecmd split: if_splits)
  then show ?thesis using runcmd_std [OF assms(2) _ assms(3)] by (simp add: std_of_def)
qed

definition term_fds :: fdt where
  "term_fds fd = (if fd \<le> 2 then Some Term else None)"

theorem runcmd_descriptors_witness:
  "\<exists>t'. ([''wc''], t') \<in> set (fst (runcmd (\<lambda>_ _. True) (Pipe (Exec [''cat'', ''f'']) (Exec [''wc''])) term_fds 0)) \<and>
     t' 0 = Some (PipeR 0) \<and> t' 2 = Some Term \<and> t' 3 = None"
proof -
  have t: "std_open term_fds" by (simp add: std_open_def term_fds_def)
  have o: "sh_open (PipeR 0) term_fds = Some (3, term_fds(3 \<mapsto> PipeR 0))"
    "sh_open (PipeW 0) (term_fds(3 \<mapsto> PipeR 0)) = Some (4, term_fds(3 \<mapsto> PipeR 0, 4 \<mapsto> PipeW 0))"
    unfolding sh_open_Some by (auto simp: term_fds_def FDS_def)
  let ?c = "Pipe (Exec [''cat'', ''f'']) (Exec [''wc''])" and ?t = "term_fds(0 \<mapsto> PipeR 0)"
  have p: "run_line ''cat f | wc'' = Run (Inr ?c)" by (code_simp)
  have m: "([''wc''], ?t) \<in> set (fst (runcmd (\<lambda>_ _. True) ?c term_fds 0))" using pipeline [OF t o] by simp
  have "?t 2 = Some Term" "?t 3 = None" using runcmd_descriptors [OF p t m] by (simp_all add: term_fds_def)
  then show ?thesis using m by (intro exI [of _ ?t]) simp
qed

end
