(* ===== verification/File_Refs.thy ===== *)
theory File_Refs
  imports Sys_File
begin

text \<open>
  Descriptors and open files. The reference count of an open file is the number of descriptors, of all
  processes, that refer to it. The invariant counts with a correction \<open>h\<close> for the references that a
  running system call holds in its local variables, or has promised and not yet counted.
\<close>

section \<open>What paging leaves alone\<close>

lemma kalloc_more: "kalloc s = (p, s') \<Longrightarrow> kmem.more s' = kmem.more s"
  by (auto simp: kalloc_def Let_def)

lemma kfree_more: "kfree kend p s = Inr s' \<Longrightarrow> kmem.more s' = kmem.more s"
  by (auto simp: kfree_def Let_def split: if_splits)

lemma store_more [simp]: "kmem.more (store_pte p v s) = kmem.more s" "kmem.more (fill_page p c s) = kmem.more s"
  by (simp_all add: store_pte_def fill_page_def)

lemma walk_from_more: "walk_from l pt va alc s = (r, s') \<Longrightarrow> kmem.more s' = kmem.more s"
  by (induction l arbitrary: pt s) (auto simp: Let_def kalloc_more dest: kalloc_more split: if_splits prod.splits)

lemma walk_more: "walk pt va alc s = Inr (r, s') \<Longrightarrow> kmem.more s' = kmem.more s"
  by (auto simp: walk_def dest: walk_from_more split: if_splits)

lemma mappages_from_more: "mappages_from pt a lst pa perm s = Inr (r, s') \<Longrightarrow> kmem.more s' = kmem.more s"
proof (induction pt a lst pa perm s rule: mappages_from.induct)
  case (1 pt a lst pa perm s)
  obtain w s1 where w: "walk pt a True s = Inr (w, s1)"
    using "1.prems" by (subst (asm) mappages_from.simps) (auto simp: ebind_eq_Inr)
  show ?case
  proof (cases w)
    case None
    then show ?thesis using "1.prems" w walk_more [OF w] by (subst (asm) mappages_from.simps) simp
  next
    case (Some p)
    let ?s2 = "store_pte p (PA2PTE pa OR perm OR PTE_V) s1"
    have nv: "\<not> pte_has (load_pte p s1) PTE_V" using "1.prems" w Some by (subst (asm) mappages_from.simps) (auto split: if_splits)
    show ?thesis
    proof (cases "unat (lst - a) < PGSIZE")
      case True
      then show ?thesis using "1.prems" w Some nv walk_more [OF w] by (subst (asm) mappages_from.simps) (auto simp: Let_def)
    next
      case False
      then have "mappages_from pt (a + of_nat PGSIZE) lst (pa + of_nat PGSIZE) perm ?s2 = Inr (r, s')"
        using "1.prems" w Some nv by (subst (asm) mappages_from.simps) (simp add: Let_def)
      from "1.IH" [OF w refl Some nv refl False this] walk_more [OF w] show ?thesis by simp
    qed
  qed
qed

lemma mappages_more: "mappages pt va sz pa perm s = Inr (r, s') \<Longrightarrow> kmem.more s' = kmem.more s"
  by (auto simp: mappages_def dest: mappages_from_more split: if_splits)

lemma uvmunmap_from_more: "uvmunmap_from kend pt a e df s = Inr s' \<Longrightarrow> kmem.more s' = kmem.more s"
proof (induction kend pt a e df s rule: uvmunmap_from.induct)
  case (1 kend pt a e df s)
  show ?case
  proof (cases "a < e")
    case True
    from "1.prems" True obtain p s1 s2 where w: "walk pt a False s = Inr (Some p, s1)"
        "pte_has (load_pte p s1) PTE_V" "PTE_FLAGS (load_pte p s1) \<noteq> PTE_V"
        "(if df then kfree kend (PTE2PA (load_pte p s1)) s1 else Inr s1) = Inr s2"
        "uvmunmap_from kend pt (a + of_nat PGSIZE) e df (store_pte p 0 s2) = Inr s'"
      by (subst (asm) uvmunmap_from.simps) (fastforce simp: ebind_eq_Inr split: option.splits if_split_asm)
    have "kmem.more s2 = kmem.more s1" using w(4) by (auto dest: kfree_more split: if_splits)
    then show ?thesis using "1.IH" [OF True w(1) refl refl _ _ w(4,5)] w(2,3) walk_more [OF w(1)] by simp
  next
    case False
    then show ?thesis using "1.prems" by (subst (asm) uvmunmap_from.simps) simp
  qed
qed

lemma uvmunmap_more: "uvmunmap kend pt va n df s = Inr s' \<Longrightarrow> kmem.more s' = kmem.more s"
  by (auto simp: uvmunmap_def dest: uvmunmap_from_more split: if_splits)

lemma efold_keeps:
  "efold f xs s = Inr s' \<Longrightarrow> (\<And>x s s'. f x s = Inr s' \<Longrightarrow> g s' = g s) \<Longrightarrow> g s' = g s"
  by (induction xs arbitrary: s) (auto simp: ebind_eq_Inr)

lemma freewalk_more: "freewalk n kend pt s = Inr s' \<Longrightarrow> kmem.more s' = kmem.more s"
proof (induction n arbitrary: pt s s')
  case (Suc n)
  from Suc.prems obtain t where t: "efold (\<lambda>i s.
         let pte = load_pte (pt + 8 * of_nat i) s in
         if pte_has pte PTE_V \<and> pte AND (PTE_R OR PTE_W OR PTE_X) = 0 then
           ebind (freewalk n kend (PTE2PA pte) s) (\<lambda>s. Inr (store_pte (pt + 8 * of_nat i) 0 s))
         else if pte_has pte PTE_V then Inl (Panic ''freewalk: leaf'')
         else Inr s) [0..<512] s = Inr t" "kfree kend pt t = Inr s'"
    by (auto simp: ebind_eq_Inr)
  from t(1) have "kmem.more t = kmem.more s"
    by (rule efold_keeps [where g = kmem.more]) (auto simp: Let_def ebind_eq_Inr dest: Suc.IH split: if_splits)
  then show ?case using kfree_more [OF t(2)] by simp
qed simp

lemma uvmfree_more: "uvmfree n kend pt sz s = Inr s' \<Longrightarrow> kmem.more s' = kmem.more s"
  by (auto simp: uvmfree_def ebind_eq_Inr dest!: uvmunmap_more freewalk_more split: if_splits)

lemma uvmcreate_more: "uvmcreate s = (pt, s') \<Longrightarrow> kmem.more s' = kmem.more s"
  by (auto simp: uvmcreate_def dest!: kalloc_more split: prod.splits if_splits)

lemma uvmcopy_from_more: "uvmcopy_from kend old new i sz s = Inr (r, s') \<Longrightarrow> kmem.more s' = kmem.more s"
proof (induction kend old new i sz s rule: uvmcopy_from.induct)
  case (1 kend old new i sz s)
  show ?case
  proof (cases "i < sz")
    case True
    from "1.prems" True obtain p s1 where w: "walk old i False s = Inr (Some p, s1)" "pte_has (load_pte p s1) PTE_V"
      by (subst (asm) uvmcopy_from.simps) (fastforce simp: ebind_eq_Inr split: option.splits if_split_asm)
    obtain pg s2 where k: "kalloc s1 = (pg, s2)" by (cases "kalloc s1")
    have m2: "kmem.more s2 = kmem.more s" using walk_more [OF w(1)] kalloc_more [OF k] by simp
    show ?thesis
    proof (cases "pg = 0")
      case True
      then show ?thesis using "1.prems" \<open>i < sz\<close> w k m2
        by (subst (asm) uvmcopy_from.simps) (auto simp: ebind_eq_Inr Let_def dest!: uvmunmap_more)
    next
      case False
      let ?s3 = "s2\<lparr>kmemory := memmove (unat pg) (unat (PTE2PA (load_pte p s1))) PGSIZE (kmemory s2)\<rparr>"
      from "1.prems" \<open>i < sz\<close> w k False obtain q s4 where
        mp: "mappages new i (of_nat PGSIZE) pg (PTE_FLAGS (load_pte p s1)) ?s3 = Inr (q, s4)"
        by (subst (asm) uvmcopy_from.simps) (auto simp: ebind_eq_Inr Let_def)
      have m4: "kmem.more s4 = kmem.more s" using mappages_more [OF mp] m2 by simp
      show ?thesis
      proof (cases "q = 0")
        case True
        then have "uvmcopy_from kend old new (i + of_nat PGSIZE) sz s4 = Inr (r, s')"
          using "1.prems" \<open>i < sz\<close> w k False mp by (subst (asm) uvmcopy_from.simps) (simp add: Let_def)
        with "1.IH" [OF \<open>i < sz\<close> w(1) refl refl _ refl refl k [symmetric] False mp refl] w(2) True m4 show ?thesis by simp
      next
        case qz: False
        then show ?thesis using "1.prems" \<open>i < sz\<close> w k False mp m4
          by (subst (asm) uvmcopy_from.simps) (auto simp: ebind_eq_Inr Let_def dest!: uvmunmap_more kfree_more)
      qed
    qed
  next
    case False
    then show ?thesis using "1.prems" by (subst (asm) uvmcopy_from.simps) simp
  qed
qed

lemma copyout_more: "kmem.more (snd (copyout pt va src s)) = kmem.more s"
proof (induction pt va src s rule: copyout.induct)
  case (1 pt va src s)
  show ?case
    by (subst copyout.simps) (auto simp: Let_def "1.IH" split: option.splits)
qed

section \<open>What other operations leave alone\<close>

text \<open>Descriptors, reference counts and the running process are the same.\<close>

definition same_fds :: "kernel \<Rightarrow> kernel \<Rightarrow> bool" where
  "same_fds k k' \<longleftrightarrow> (\<forall>p. p_ofile (kprocs k' p) = p_ofile (kprocs k p)) \<and>
     (\<forall>f. f_ref (ftable k' f) = f_ref (ftable k f)) \<and> me k' = me k"

lemma same_fds_refl [simp]: "same_fds k k"
  by (simp add: same_fds_def)

lemma same_fds_trans: "same_fds a b \<Longrightarrow> same_fds b c \<Longrightarrow> same_fds a c"
  by (simp add: same_fds_def)

lemma more_kernel: "kmem.more k' = kmem.more k \<Longrightarrow> kprocs k' = kprocs k \<and> ftable k' = ftable k \<and> me k' = me k"
  for k k' :: kernel
  by (cases k, cases k') simp

lemma same_fds_more: "kmem.more k' = kmem.more k \<Longrightarrow> same_fds k k'"
  by (drule more_kernel) (simp add: same_fds_def)

lemma same_fds_fsdo: "fsdo f k = Inr k' \<Longrightarrow> same_fds k k'"
  by (auto simp: fsdo_def ebind_eq_Inr same_fds_def)

lemma same_fds_fsget: "fsget f k = Inr (v, k') \<Longrightarrow> same_fds k k'"
  by (auto simp: fsget_def ebind_eq_Inr same_fds_def)

lemma same_fds_op [simp]: "same_fds k (op_begin k)" "same_fds k (op_end k)"
  by (simp_all add: op_begin_def op_end_def same_fds_def Let_def)

lemma same_fds_upd: "(\<And>x. p_ofile (g x) = p_ofile x) \<Longrightarrow> same_fds k (upd_proc p g k)"
  by (simp add: same_fds_def)

lemma fold_same_fds: "(\<And>x k. same_fds k (g x k)) \<Longrightarrow> same_fds k (fold g xs k)"
  by (induction xs arbitrary: k) (auto intro: same_fds_trans)

lemma same_fds_wakeup [simp]: "same_fds k (wakeup ch k)"
  unfolding wakeup_def by (rule fold_same_fds) (auto intro: same_fds_upd)

lemma same_fds_reparent [simp]: "same_fds k (reparent p k)"
  unfolding reparent_def
  by (rule fold_same_fds) (auto intro: same_fds_upd same_fds_trans [OF same_fds_upd same_fds_wakeup] split: option.splits)

lemma same_fds_copyout: "copyout pt va src k = (b, k') \<Longrightarrow> same_fds k k'"
  using copyout_more [of pt va src k] by (intro same_fds_more) simp

section \<open>The invariant\<close>

definition slots :: "kernel \<Rightarrow> nat \<Rightarrow> (nat \<times> nat) set" where
  "slots k f = {(p, fd). p < NPROC \<and> fd < NOFILE \<and> p_ofile (kprocs k p) fd = Some f}"

definition fd_inv :: "(nat \<Rightarrow> int) \<Rightarrow> kernel \<Rightarrow> bool" where
  "fd_inv h k \<longleftrightarrow> me k < NPROC \<and> (\<forall>f<NFILE. f_ref (ftable k f) = int (card (slots k f)) + h f) \<and>
     (\<forall>p<NPROC. \<forall>fd<NOFILE. \<forall>f. p_ofile (kprocs k p) fd = Some f \<longrightarrow> f < NFILE)"

abbreviation fd_ok :: "kernel \<Rightarrow> bool" where "fd_ok \<equiv> fd_inv (\<lambda>_. 0)"

lemma finite_slots [simp]: "finite (slots k f)"
proof -
  have "slots k f \<subseteq> {..<NPROC} \<times> {..<NOFILE}" by (auto simp: slots_def)
  then show ?thesis by (rule finite_subset) simp
qed

lemma fd_inv_same: "same_fds k k' \<Longrightarrow> fd_inv h k \<Longrightarrow> fd_inv h k'"
  by (simp add: fd_inv_def same_fds_def slots_def)

definition adj :: "nat \<Rightarrow> int \<Rightarrow> (nat \<Rightarrow> int) \<Rightarrow> nat \<Rightarrow> int" where
  "adj f d h = (\<lambda>g. h g + (if g = f then d else 0))"

lemma adj_simps [simp]: "adj f 0 h = h" "adj f d (adj f e h) = adj f (d + e) h"
  by (auto simp: adj_def fun_eq_iff)

lemma adj_commute: "adj f d (adj g e h) = adj g e (adj f d h)"
  by (auto simp: adj_def fun_eq_iff)

text \<open>Setting and clearing a descriptor, and changing a count, change the correction.\<close>

definition set_fd :: "nat \<Rightarrow> nat \<Rightarrow> nat option \<Rightarrow> kernel \<Rightarrow> kernel" where
  "set_fd p fd v k = upd_proc p (\<lambda>x. x\<lparr>p_ofile := (p_ofile x)(fd := v)\<rparr>) k"

lemma fd_inv_set:
  assumes inv: "fd_inv h k" and p: "p < NPROC" "fd < NOFILE" and none: "p_ofile (kprocs k p) fd = None" and f: "f < NFILE"
  shows "fd_inv (adj f (- 1) h) (set_fd p fd (Some f) k)"
proof -
  have "slots (set_fd p fd (Some f) k) g = (if g = f then insert (p, fd) (slots k g) else slots k g)" for g
    using p none by (auto simp: slots_def set_fd_def split: if_splits)
  moreover have "(p, fd) \<notin> slots k f" using none by (simp add: slots_def)
  ultimately show ?thesis using inv f by (auto simp: fd_inv_def set_fd_def adj_def)
qed

lemma fd_inv_clear:
  assumes inv: "fd_inv h k" and p: "p < NPROC" "fd < NOFILE" and some: "p_ofile (kprocs k p) fd = Some f"
  shows "fd_inv (adj f 1 h) (set_fd p fd None k)" "f < NFILE"
proof -
  show f: "f < NFILE" using assms unfolding fd_inv_def by blast
  have s: "slots (set_fd p fd None k) g = (if g = f then slots k g - {(p, fd)} else slots k g)" for g
    using p some by (auto simp: slots_def set_fd_def split: if_splits)
  have "(p, fd) \<in> slots k f" using p some by (simp add: slots_def)
  moreover from this have "0 < card (slots k f)" by (auto simp: card_gt_0_iff)
  ultimately have "int (card (slots k f - {(p, fd)})) = int (card (slots k f)) - 1" by (simp add: card_Diff_singleton)
  then show "fd_inv (adj f 1 h) (set_fd p fd None k)" using inv f s by (auto simp: fd_inv_def set_fd_def adj_def)
qed

lemma fd_inv_ref:
  assumes "fd_inv h k" "f_ref (g (ftable k f)) = f_ref (ftable k f) + d"
  shows "fd_inv (adj f d h) (upd_file f g k)"
  using assms by (auto simp: fd_inv_def slots_def adj_def)

lemma open_file_pos:
  assumes "fd_inv h k" "p < NPROC" "fd < NOFILE" "p_ofile (kprocs k p) fd = Some f" "0 \<le> h f"
  shows "1 \<le> f_ref (ftable k f)" "f < NFILE"
proof -
  show f: "f < NFILE" using assms unfolding fd_inv_def by blast
  have "(p, fd) \<in> slots k f" using assms by (simp add: slots_def)
  then have "0 < card (slots k f)" by (auto simp: card_gt_0_iff)
  moreover have "f_ref (ftable k f) = int (card (slots k f)) + h f" using assms(1) f unfolding fd_inv_def by blast
  ultimately show "1 \<le> f_ref (ftable k f)" using assms(5) by linarith
qed

section \<open>Files\<close>

lemma filealloc_inv:
  assumes "fd_inv h k" "filealloc k = (Some f, k')"
  shows "fd_inv (adj f 1 h) k'" "f < NFILE" "me k' = me k"
proof -
  have s: "scan (\<lambda>f. f_ref (ftable k f) = 0) 0 NFILE = Some f" "k' = upd_file f (\<lambda>x. x\<lparr>f_ref := 1\<rparr>) k"
    using assms(2) by (auto simp: filealloc_def split: option.splits)
  show "f < NFILE" "me k' = me k" using scan_SomeD [OF s(1)] s(2) by simp_all
  show "fd_inv (adj f 1 h) k'" unfolding s(2) by (rule fd_inv_ref [OF assms(1)]) (use scan_SomeD(3) [OF s(1)] in simp)
qed

lemma filealloc_none: "filealloc k = (None, k') \<Longrightarrow> k' = k"
  by (auto simp: filealloc_def split: option.splits)

lemma filedup_inv:
  assumes "fd_inv h k" "filedup f k = Inr k'"
  shows "fd_inv (adj f 1 h) k'" "kprocs k' = kprocs k" "me k' = me k"
proof -
  have k': "k' = upd_file f (\<lambda>x. x\<lparr>f_ref := f_ref x + 1\<rparr>) k" using assms(2) by (auto simp: filedup_def split: if_splits)
  show "fd_inv (adj f 1 h) k'" unfolding k' by (rule fd_inv_ref [OF assms(1)]) simp
  show "kprocs k' = kprocs k" "me k' = me k" by (simp_all add: k')
qed

lemma close_pipe_same:
  assumes "close_pipe kend pi w k = Inr k'"
  shows "same_fds k k'"
proof -
  obtain x b where x: "pipeclose w (kpipes k pi) = (x, b)" by (cases "pipeclose w (kpipes k pi)")
  let ?k1 = "wakeup (if w then ChPipeRead pi else ChPipeWrite pi) (k\<lparr>kpipes := (kpipes k)(pi := x)\<rparr>)"
  have "(if b then kfree kend pi ?k1 else Inr ?k1) = Inr k'" using assms x by (simp add: close_pipe_def Let_def)
  then have "same_fds ?k1 k'" by (auto intro: same_fds_more dest: kfree_more split: if_splits)
  moreover have "same_fds k (k\<lparr>kpipes := (kpipes k)(pi := x)\<rparr>)" by (simp add: same_fds_def)
  ultimately show ?thesis by (blast intro: same_fds_trans same_fds_wakeup)
qed

lemma fileclose_split:
  "fileclose kend f k =
     (let k1 = upd_file f (\<lambda>x. x\<lparr>f_ref := f_ref x - 1\<rparr>) k;
          k2 = upd_file f (\<lambda>x. x\<lparr>f_ref := 0, f_type := FD_NONE\<rparr>) k1 in
      if f_ref (ftable k f) < 1 then Inl (Panic ''fileclose'')
      else if f_ref (ftable k f) - 1 > 0 then Inr k1
      else if f_type (ftable k f) = FD_PIPE then close_pipe kend (f_pipe (ftable k f)) (f_writable (ftable k f)) k2
      else if f_type (ftable k f) = FD_INODE \<or> f_type (ftable k f) = FD_DEVICE then
        ebind (fsdo (iput (mypid k) (f_ip (ftable k f))) (op_begin k2)) (\<lambda>k. Inr (op_end k))
      else Inr k2)"
  by (simp add: fileclose_def Let_def)

lemma same_fds_op_fsdo:
  assumes "ebind (fsdo g (op_begin k)) (\<lambda>k. Inr (op_end k)) = Inr k'"
  shows "same_fds k k'"
proof -
  obtain k1 where k1: "fsdo g (op_begin k) = Inr k1" "k' = op_end k1" using assms by (auto simp: ebind_eq_Inr)
  have "same_fds k k1" by (rule same_fds_trans [OF same_fds_op(1) same_fds_fsdo [OF k1(1)]])
  then show ?thesis unfolding k1(2) by (rule same_fds_trans) simp
qed

lemma fileclose_inv:
  assumes "fd_inv h k" "fileclose kend f k = Inr k'"
  shows "fd_inv (adj f (- 1) h) k'" "p_ofile (kprocs k' p) = p_ofile (kprocs k p)" "me k' = me k"
proof -
  have pos: "1 \<le> f_ref (ftable k f)" using assms(2) by (auto simp: fileclose_def split: if_splits)
  let ?k1 = "upd_file f (\<lambda>x. x\<lparr>f_ref := f_ref x - 1\<rparr>) k"
  let ?k2 = "upd_file f (\<lambda>x. x\<lparr>f_ref := 0, f_type := FD_NONE\<rparr>) ?k1"
  have i1: "fd_inv (adj f (- 1) h) ?k1" by (rule fd_inv_ref [OF assms(1)]) simp
  have "\<exists>k0. fd_inv (adj f (- 1) h) k0 \<and> kprocs k0 = kprocs k \<and> me k0 = me k \<and> same_fds k0 k'"
  proof (cases "f_ref (ftable k f) - 1 > 0")
    case True
    then have "k' = ?k1" using assms(2) pos by (simp add: fileclose_def Let_def)
    then show ?thesis using i1 by (intro exI [of _ ?k1]) simp
  next
    case False
    then have r: "f_ref (ftable k f) = 1" using pos by simp
    have i2: "fd_inv (adj f (- 1) h) ?k2" using fd_inv_ref [OF i1, of _ f 0] r by simp
    have "same_fds ?k2 k'"
    proof -
      let ?ff = "ftable k f"
      note e = assms(2) [unfolded fileclose_split]
      show ?thesis
      proof (cases "f_type ?ff")
        case FD_PIPE
        then have "close_pipe kend (f_pipe ?ff) (f_writable ?ff) ?k2 = Inr k'" using e r by simp
        then show ?thesis by (rule close_pipe_same)
      next
        case FD_NONE
        then have "k' = ?k2" using e r by simp
        then show ?thesis by simp
      next
        case FD_INODE
        then have "ebind (fsdo (iput (mypid k) (f_ip ?ff)) (op_begin ?k2)) (\<lambda>k. Inr (op_end k)) = Inr k'" using e r by simp
        then show ?thesis by (rule same_fds_op_fsdo)
      next
        case FD_DEVICE
        then have "ebind (fsdo (iput (mypid k) (f_ip ?ff)) (op_begin ?k2)) (\<lambda>k. Inr (op_end k)) = Inr k'" using e r by simp
        then show ?thesis by (rule same_fds_op_fsdo)
      qed
    qed
    then show ?thesis using i2 by (intro exI [of _ ?k2]) simp
  qed
  then obtain k0 where k0: "fd_inv (adj f (- 1) h) k0" "kprocs k0 = kprocs k" "me k0 = me k" "same_fds k0 k'" by blast
  show "fd_inv (adj f (- 1) h) k'" by (rule fd_inv_same [OF k0(4,1)])
  show "p_ofile (kprocs k' p) = p_ofile (kprocs k p)" "me k' = me k" using k0 by (simp_all add: same_fds_def)
qed

lemma fdalloc_inv:
  assumes "fd_inv h k" "fdalloc f k = (Some fd, k')" "f < NFILE"
  shows "fd_inv (adj f (- 1) h) k'" "fd < NOFILE" "me k' = me k" "ftable k' = ftable k"
    "p_ofile (kprocs k' (me k)) = (p_ofile (kprocs k (me k)))(fd := Some f)" "p_ofile (kprocs k (me k)) fd = None"
proof -
  have s: "scan (\<lambda>fd. p_ofile (myproc k) fd = None) 0 NOFILE = Some fd" "k' = set_fd (me k) fd (Some f) k"
    using assms(2) by (auto simp: fdalloc_def set_fd_def split: option.splits)
  note d = scan_SomeD [OF s(1)]
  show "fd_inv (adj f (- 1) h) k'" unfolding s(2)
    by (rule fd_inv_set [OF assms(1) _ d(2,3) assms(3)]) (use assms(1) in \<open>simp add: fd_inv_def\<close>)
  show "fd < NOFILE" "me k' = me k" "ftable k' = ftable k" "p_ofile (kprocs k (me k)) fd = None"
    "p_ofile (kprocs k' (me k)) = (p_ofile (kprocs k (me k)))(fd := Some f)"
    using d by (simp_all add: s(2) set_fd_def)
qed

lemma fdalloc_none: "fdalloc f k = (None, k') \<Longrightarrow> k' = k"
  by (auto simp: fdalloc_def split: option.splits)

lemma clear_fd_inv:
  assumes "fd_inv h k" "fd < NOFILE" "p_ofile (kprocs k (me k)) fd = Some f"
  shows "fd_inv (adj f 1 h) (clear_fd fd k)"
  using fd_inv_clear(1) [OF assms(1) _ assms(2,3)] assms(1) by (simp add: clear_fd_def set_fd_def fd_inv_def)

lemma argfd_file:
  assumes "argfd n k = Inr (Some (fd, f))"
  shows "fd < NOFILE \<and> p_ofile (kprocs k (me k)) fd = Some f"
  using assms by (auto simp: argfd_def ebind_eq_Inr split: if_splits option.splits)

section \<open>System calls\<close>

lemma sys_dup_inv:
  assumes "fd_ok k" "sys_dup k = Inr (r, k')"
  shows "fd_ok k'"
proof -
  from assms(2) obtain a where a: "argfd 0 k = Inr a" by (auto simp: sys_dup_def ebind_eq_Inr)
  show ?thesis
  proof (cases a)
    case None
    then show ?thesis using assms a by (simp add: sys_dup_def)
  next
    case (Some q)
    obtain fd f where q: "q = (fd, f)" by (cases q)
    have o: "fd < NOFILE" "p_ofile (kprocs k (me k)) fd = Some f" using argfd_file a Some q by auto
    have f: "f < NFILE" using open_file_pos(2) [OF assms(1) _ o] assms(1) by (simp add: fd_inv_def)
    show ?thesis
    proof (cases "fst (fdalloc f k)")
      case None
      then show ?thesis using assms a Some q fdalloc_none [of f k "snd (fdalloc f k)"]
        by (cases "fdalloc f k") (auto simp: sys_dup_def)
    next
      case n: (Some fd')
      then obtain k1 where k1: "fdalloc f k = (Some fd', k1)" by (cases "fdalloc f k") auto
      then have "filedup f k1 = Inr k'" using assms(2) a Some q by (auto simp: sys_dup_def ebind_eq_Inr)
      from filedup_inv(1) [OF fdalloc_inv(1) [OF assms(1) k1 f] this] show ?thesis by simp
    qed
  qed
qed

lemma sys_close_inv:
  assumes "fd_ok k" "sys_close kend k = Inr (r, k')"
  shows "fd_ok k'"
proof -
  from assms(2) obtain a where a: "argfd 0 k = Inr a" by (auto simp: sys_close_def ebind_eq_Inr)
  show ?thesis
  proof (cases a)
    case None
    then show ?thesis using assms a by (simp add: sys_close_def)
  next
    case (Some q)
    obtain fd f where q: "q = (fd, f)" by (cases q)
    have o: "fd < NOFILE" "p_ofile (kprocs k (me k)) fd = Some f" using argfd_file a Some q by auto
    have "fileclose kend f (clear_fd fd k) = Inr k'" using assms(2) a Some q by (auto simp: sys_close_def ebind_eq_Inr)
    from fileclose_inv(1) [OF clear_fd_inv [OF assms(1) o] this] show ?thesis by simp
  qed
qed

lemma upd_file_inv: "fd_inv h k \<Longrightarrow> (\<And>x. f_ref (g x) = f_ref x) \<Longrightarrow> fd_inv h (upd_file f g k)"
  using fd_inv_ref [of h k g f 0] by simp

lemma close_opt_inv:
  assumes "fd_inv h k" "close_opt kend f k = Inr k'"
  shows "fd_inv (case f of Some f \<Rightarrow> adj f (- 1) h | None \<Rightarrow> h) k'"
  using assms by (auto simp: close_opt_def dest: fileclose_inv(1) split: option.splits)

lemma pipealloc_inv:
  assumes inv: "fd_inv h k" and p: "pipealloc kend k = Inr (r, k')"
  shows "case r of None \<Rightarrow> fd_inv h k' | Some (a, b) \<Rightarrow> fd_inv (adj a 1 (adj b 1 h)) k' \<and> a < NFILE \<and> b < NFILE"
proof -
  obtain f0 k0 where f0: "filealloc k = (f0, k0)" by (cases "filealloc k")
  obtain f1 k1 where f1: "(if f0 = None then (None, k0) else filealloc k0) = (f1, k1)"
    by (cases "if f0 = None then (None, k0) else filealloc k0")
  obtain pi k2 where pi: "(if f0 = None \<or> f1 = None then (0, k1) else kalloc k1) = (pi, k2)"
    by (cases "if f0 = None \<or> f1 = None then (0, k1) else kalloc k1")
  have s2: "same_fds k1 k2" using pi by (auto intro: same_fds_more dest: kalloc_more split: if_splits)
  have close: "\<exists>k3. close_opt kend f0 k2 = Inr k3 \<and> close_opt kend f1 k3 = Inr k' \<and> r = None"
    if "f0 = None \<or> f1 = None \<or> pi = 0"
    using p f0 f1 pi that by (auto simp: pipealloc_def ebind_eq_Inr split: option.splits)
  show ?thesis
  proof (cases f0)
    case None
    then have "k0 = k" "f1 = None" "k1 = k0" using filealloc_none f0 f1 by auto
    then have "fd_inv h k2" using inv s2 fd_inv_same by blast
    then show ?thesis using close None \<open>f1 = None\<close> by (auto simp: close_opt_def)
  next
    case (Some a)
    have i0: "fd_inv (adj a 1 h) k0" and a: "a < NFILE" using filealloc_inv [OF inv] f0 Some by auto
    have f1': "filealloc k0 = (f1, k1)" using f1 Some by simp
    show ?thesis
    proof (cases f1)
      case None
      then have "k1 = k0" using filealloc_none f1' by simp
      then have "fd_inv (adj a 1 h) k2" using i0 s2 fd_inv_same by blast
      moreover obtain k3 where "fileclose kend a k2 = Inr k3" "k' = k3" "r = None" using close None Some by (auto simp: close_opt_def)
      ultimately show ?thesis using fileclose_inv(1) [of "adj a 1 h" k2 kend a k3] by simp
    next
      case f: (Some b)
      have i1: "fd_inv (adj b 1 (adj a 1 h)) k1" and b: "b < NFILE" using filealloc_inv [OF i0] f1' f by auto
      have i2: "fd_inv (adj b 1 (adj a 1 h)) k2" by (rule fd_inv_same [OF s2 i1])
      show ?thesis
      proof (cases "pi = 0")
        case True
        then obtain k3 where k3: "fileclose kend a k2 = Inr k3" "fileclose kend b k3 = Inr k'" "r = None"
          using close Some f by (auto simp: close_opt_def)
        have "fd_inv (adj b (- 1) (adj a (- 1) (adj b 1 (adj a 1 h)))) k'"
          by (rule fileclose_inv(1) [OF fileclose_inv(1) [OF i2 k3(1)] k3(2)])
        then show ?thesis using k3(3) by (simp add: adj_commute [of b])
      next
        case False
        let ?k3 = "k2\<lparr>kpipes := (kpipes k2)(pi := (kpipes k2 pi)\<lparr>readopen := True, writeopen := True, nwrite := 0, nread := 0\<rparr>)\<rparr>"
        let ?k4 = "upd_file a (\<lambda>x. x\<lparr>f_type := FD_PIPE, f_readable := True, f_writable := False, f_pipe := pi\<rparr>) ?k3"
        let ?k5 = "upd_file b (\<lambda>x. x\<lparr>f_type := FD_PIPE, f_readable := False, f_writable := True, f_pipe := pi\<rparr>) ?k4"
        have r: "r = Some (a, b)" "k' = ?k5"
          using p f0 f1' pi Some f False by (auto simp: pipealloc_def Let_def)
        have "same_fds k2 ?k3" by (simp add: same_fds_def)
        then have "fd_inv (adj b 1 (adj a 1 h)) ?k5" by (intro upd_file_inv fd_inv_same [OF _ i2]) simp_all
        then show ?thesis using r a b by (simp add: adj_commute [of b])
      qed
    qed
  qed
qed

lemma close_two:
  assumes "fd_inv (adj a 1 (adj b 1 h)) k" "ebind (fileclose kend a k) (\<lambda>k. ebind (fileclose kend b k) (\<lambda>k. Inr (v, k))) = Inr (r, k')"
  shows "fd_inv h k'"
proof -
  obtain k1 where k1: "fileclose kend a k = Inr k1" "fileclose kend b k1 = Inr k'" using assms(2) by (auto simp: ebind_eq_Inr)
  have "fd_inv (adj b (- 1) (adj a (- 1) (adj a 1 (adj b 1 h)))) k'"
    by (rule fileclose_inv(1) [OF fileclose_inv(1) [OF assms(1) k1(1)] k1(2)])
  then show ?thesis by simp
qed

lemma sys_pipe_inv:
  assumes ok: "fd_ok k" and s: "sys_pipe kend k = Inr (r, k')"
  shows "fd_ok k'"
proof -
  from s obtain fda q k1 where 1: "argaddr 0 k = Inr fda" "pipealloc kend k = Inr (q, k1)"
    by (auto simp: sys_pipe_def ebind_eq_Inr)
  note pa = pipealloc_inv [OF ok 1(2)]
  show ?thesis
  proof (cases q)
    case None
    then show ?thesis using pa s 1 by (simp add: sys_pipe_def)
  next
    case (Some ab)
    then obtain a b where q: "q = Some (a, b)" by (cases ab) auto
    then have i1: "fd_inv (adj a 1 (adj b 1 (\<lambda>_. 0))) k1" and f: "a < NFILE" "b < NFILE" using pa by auto
    obtain fd0 k2 where fd0: "fdalloc a k1 = (fd0, k2)" by (cases "fdalloc a k1")
    show ?thesis
    proof (cases fd0)
      case None
      then have "k2 = k1" using fdalloc_none fd0 by simp
      then have "ebind (fileclose kend a k1) (\<lambda>k. ebind (fileclose kend b k) (\<lambda>k. Inr (- 1, k))) = Inr (r, k')"
        using s 1 q fd0 None by (simp add: sys_pipe_def)
      then show ?thesis by (rule close_two [OF i1])
    next
      case f0: (Some x)
      note d0 = fdalloc_inv [OF i1 fd0 [unfolded f0] f(1)]
      have i2: "fd_inv (adj b 1 (\<lambda>_. 0)) k2" using d0(1) by simp
      obtain fd1 k3 where fd1: "fdalloc b k2 = (fd1, k3)" by (cases "fdalloc b k2")
      show ?thesis
      proof (cases fd1)
        case None
        then have "k3 = k2" using fdalloc_none fd1 by simp
        then have e: "ebind (fileclose kend a (clear_fd x k2)) (\<lambda>k. ebind (fileclose kend b k) (\<lambda>k. Inr (- 1, k))) = Inr (r, k')"
          using s 1 q fd0 fd1 f0 None by (simp add: sys_pipe_def)
        have "fd_inv (adj a 1 (adj b 1 (\<lambda>_. 0))) (clear_fd x k2)"
          by (rule clear_fd_inv [OF i2 d0(2)]) (use d0(3,5) in simp)
        then show ?thesis by (rule close_two) (rule e)
      next
        case f1: (Some y)
        note d1 = fdalloc_inv [OF i2 fd1 [unfolded f1] f(2)]
        have i3: "fd_ok k3" using d1(1) by simp
        obtain ok0 k4 where c0: "copyout (p_pagetable (myproc k3)) fda (int_bytes (int x)) k3 = (ok0, k4)"
          by (cases "copyout (p_pagetable (myproc k3)) fda (int_bytes (int x)) k3")
        obtain ok1 k5 where c1: "(if ok0 then copyout (p_pagetable (myproc k4)) (fda + 4) (int_bytes (int y)) k4 else (False, k4)) = (ok1, k5)"
          by (cases "if ok0 then copyout (p_pagetable (myproc k4)) (fda + 4) (int_bytes (int y)) k4 else (False, k4)")
        have same: "same_fds k3 k5"
          using same_fds_copyout [OF c0] c1 by (auto dest: same_fds_copyout intro: same_fds_trans split: if_splits)
        have i5: "fd_ok k5" by (rule fd_inv_same [OF same i3])
        show ?thesis
        proof (cases "ok0 \<and> ok1")
          case True
          then show ?thesis using s 1 q fd0 fd1 f0 f1 c0 c1 i5 by (simp add: sys_pipe_def)
        next
          case False
          then have e: "ebind (fileclose kend a (clear_fd y (clear_fd x k5))) (\<lambda>k. ebind (fileclose kend b k) (\<lambda>k. Inr (- 1, k))) = Inr (r, k')"
            using s 1 q fd0 fd1 f0 f1 c0 c1 by (auto simp: sys_pipe_def)
          have of: "p_ofile (kprocs k5 (me k5)) = (p_ofile (kprocs k1 (me k1)))(x := Some a, y := Some b)" "x \<noteq> y"
            using same d0(3,5) d1(3,5,6) by (auto simp: same_fds_def)
          have "fd_inv (adj a 1 (\<lambda>_. 0)) (clear_fd x k5)"
            by (rule clear_fd_inv [OF i5 d0(2)]) (use of in simp)
          then have "fd_inv (adj b 1 (adj a 1 (\<lambda>_. 0))) (clear_fd y (clear_fd x k5))"
            by (rule clear_fd_inv [OF _ d1(2)]) (use of in \<open>simp add: clear_fd_def\<close>)
          then show ?thesis by (intro close_two [OF _ e]) (simp add: adj_commute [of b])
        qed
      qed
    qed
  qed
qed

lemma open_file_inv: "fd_inv h k \<Longrightarrow> fd_inv h (open_file f ip om k)"
  unfolding open_file_def Let_def by (auto intro!: upd_file_inv)

lemma sys_open_inv:
  assumes ok: "fd_ok k" and s: "sys_open junk kend k = Inr (r, k')"
  shows "fd_ok k'"
proof -
  from s obtain om path where 1: "argint 1 k = Inr om" "argstr 0 MAXPATH k = Inr path" by (auto simp: sys_open_def ebind_eq_Inr)
  show ?thesis
  proof (cases path)
    case None
    then show ?thesis using s 1 ok by (simp add: sys_open_def)
  next
    case (Some nm)
    from s 1 Some obtain q k1 where 2: "fsget (open_inode junk (mypid k) (mycwd k) nm (of_int om)) (op_begin k) = Inr (q, k1)"
      by (auto simp: sys_open_def ebind_eq_Inr Let_def)
    have i1: "fd_ok k1" using fd_inv_same [OF same_fds_trans [OF same_fds_op(1) same_fds_fsget [OF 2]] ok] .
    show ?thesis
    proof (cases q)
      case None
      then have "k' = op_end k1" using s 1 Some 2 by (simp add: sys_open_def)
      then show ?thesis using fd_inv_same [OF same_fds_op(2) i1] by simp
    next
      case ip: (Some ip)
      obtain f k2 where f: "filealloc k1 = (f, k2)" by (cases "filealloc k1")
      obtain fd k3 where fd: "(case f of None \<Rightarrow> (None, k2) | Some f \<Rightarrow> fdalloc f k2) = (fd, k3)"
        by (cases "case f of None \<Rightarrow> (None, k2) | Some f \<Rightarrow> fdalloc f k2")
      have bad: "fd_ok k'" if b: "fd_inv (case f of None \<Rightarrow> (\<lambda>_. 0) | Some f \<Rightarrow> adj f 1 (\<lambda>_. 0)) k3" "f = None \<or> fd = None"
      proof -
        from s 1 Some 2 ip f fd b(2) obtain k4 k5 where 3: "close_opt kend f k3 = Inr k4"
            "fsdo (iunlockput (mypid k4) ip) k4 = Inr k5" "k' = op_end k5"
          by (auto simp: sys_open_def ebind_eq_Inr split: option.splits)
        have "fd_ok k4" using close_opt_inv [OF b(1) 3(1)] by (simp split: option.splits)
        then show ?thesis unfolding 3(3) using fd_inv_same [OF same_fds_trans [OF same_fds_fsdo [OF 3(2)] same_fds_op(2)]] by blast
      qed
      show ?thesis
      proof (cases f)
        case None
        then have "k3 = k1" using filealloc_none [of k1 k2] f fd by auto
        then show ?thesis using bad i1 None by simp
      next
        case fs: (Some g)
        have i2: "fd_inv (adj g 1 (\<lambda>_. 0)) k2" and g: "g < NFILE" using filealloc_inv [OF i1] f fs by auto
        have fd': "fdalloc g k2 = (fd, k3)" using fd fs by simp
        show ?thesis
        proof (cases fd)
          case None
          then have "k3 = k2" using fdalloc_none [of g k2 k3] fd' by simp
          then show ?thesis using bad i2 fs None by simp
        next
          case d: (Some x)
          have i3: "fd_ok k3" using fdalloc_inv(1) [OF i2 fd' [unfolded d] g] by simp
          let ?k4 = "open_file g ip (of_int om) k3"
          from s 1 Some 2 ip f fd fs d obtain k5 k6 where 4:
            "(if of_int om AND O_TRUNC \<noteq> 0 \<and> i_type (itab (kfs ?k4) ip) = T_FILE then fsdo (itrunc ip) ?k4 else Inr ?k4) = Inr k5"
            "fsdo (iunlock (mypid k5) (Some ip)) k5 = Inr k6" "k' = op_end k6"
            by (auto simp: sys_open_def ebind_eq_Inr Let_def)
          have "same_fds ?k4 k5" using 4(1) by (auto dest: same_fds_fsdo split: if_splits)
          then have "same_fds ?k4 k'" unfolding 4(3) using same_fds_fsdo [OF 4(2)] same_fds_op(2) same_fds_trans by blast
          then show ?thesis using fd_inv_same open_file_inv [OF i3] by blast
        qed
      qed
    qed
  qed
qed

end
