(* ===== verification/Proc_Refs.thy ===== *)
theory Proc_Refs
  imports File_Refs
begin

text \<open>
  Descriptors of processes: \<open>fork\<close> gives the child a counted reference to each open file, and \<open>exit\<close>
  gives back those of the process, so that every count remains the number of descriptors.
\<close>

section \<open>Processes\<close>

lemma efold_upt:
  assumes "efold f [0..<n] s = Inr s'" "P 0 s" "\<And>i s s'. i < n \<Longrightarrow> f i s = Inr s' \<Longrightarrow> P i s \<Longrightarrow> P (Suc i) s'"
  shows "P n s'"
proof -
  have "m \<le> n \<Longrightarrow> efold f [0..<m] s = Inr t \<Longrightarrow> P m t" for m t
  proof (induction m arbitrary: t)
    case (Suc m)
    from Suc.prems(2) obtain u where "efold f [0..<m] s = Inr u" "f m u = Inr t"
      unfolding efold_Suc by (auto simp: ebind_eq_Inr)
    then show ?case using Suc assms(3) [of m u t] by simp
  qed (use assms(2) in simp)
  then show ?thesis using assms(1) by simp
qed

lemma close_files_inv:
  assumes ok: "fd_ok k" and p: "p < NPROC" and c: "close_files kend p k = Inr k'"
  shows "fd_ok k' \<and> me k' = me k \<and> (\<forall>fd<NOFILE. p_ofile (kprocs k' p) fd = None)"
proof -
  have "fd_ok k' \<and> me k' = me k \<and> (\<forall>fd<NOFILE. fd < NOFILE \<longrightarrow> p_ofile (kprocs k' p) fd = None)"
    using c [unfolded close_files_def]
  proof (rule efold_upt [where P = "\<lambda>n t. fd_ok t \<and> me t = me k \<and> (\<forall>fd<n. fd < NOFILE \<longrightarrow> p_ofile (kprocs t p) fd = None)"])
    show "fd_ok k \<and> me k = me k \<and> (\<forall>fd<0. fd < NOFILE \<longrightarrow> p_ofile (kprocs k p) fd = None)" using ok by simp
    fix i t t'
    assume i: "i < NOFILE" and st: "(case p_ofile (kprocs t p) i of
         Some f \<Rightarrow> ebind (fileclose kend f t) (\<lambda>k. Inr (upd_proc p (\<lambda>x. x\<lparr>p_ofile := (p_ofile x)(i := None)\<rparr>) k))
       | None \<Rightarrow> Inr t) = Inr t'"
      and P: "fd_ok t \<and> me t = me k \<and> (\<forall>fd<i. fd < NOFILE \<longrightarrow> p_ofile (kprocs t p) fd = None)"
    show "fd_ok t' \<and> me t' = me k \<and> (\<forall>fd<Suc i. fd < NOFILE \<longrightarrow> p_ofile (kprocs t' p) fd = None)"
    proof (cases "p_ofile (kprocs t p) i")
      case None
      then show ?thesis using st P by (auto simp: less_Suc_eq)
    next
      case (Some f)
      then obtain u where u: "fileclose kend f t = Inr u" "t' = set_fd p i None u"
        using st by (auto simp: ebind_eq_Inr set_fd_def)
      have fi: "fd_inv (adj f (- 1) (\<lambda>_. 0)) u" "\<And>q. p_ofile (kprocs u q) = p_ofile (kprocs t q)" "me u = me t"
        using fileclose_inv [OF _ u(1)] P by blast+
      have "fd_inv (adj f 1 (adj f (- 1) (\<lambda>_. 0))) t'"
        unfolding u(2) by (rule fd_inv_clear(1) [OF fi(1) p i]) (use fi(2) Some in simp)
      then show ?thesis using P fi(2,3) by (auto simp: u(2) set_fd_def less_Suc_eq)
    qed
  qed
  then show ?thesis by blast
qed

lemma exit_inv:
  assumes ok: "fd_ok k" and e: "exit kend st k = Inr k'"
  shows "fd_ok k' \<and> (\<forall>fd<NOFILE. p_ofile (kprocs k' (me k)) fd = None)"
proof -
  have m: "me k < NPROC" using ok by (simp add: fd_inv_def)
  have ni: "initproc k \<noteq> Some (me k)" using e by (auto simp: exit_def Let_def)
  from e ni obtain k1 where 0: "close_files kend (me k) k = Inr k1" by (auto simp: exit_def Let_def ebind_eq_Inr)
  from e ni 0 obtain cwd where c: "p_cwd (kprocs k1 (me k)) = Some cwd"
    by (cases "p_cwd (kprocs k1 (me k))") (auto simp: exit_def Let_def)
  from e ni 0 c obtain k2 where "fsdo (iput (p_pid (kprocs k1 (me k))) cwd) (op_begin k1) = Inr k2"
    by (auto simp: exit_def Let_def ebind_eq_Inr)
  note 1 = 0 c this
  let ?k3 = "reparent (me k) (upd_proc (me k) (\<lambda>x. x\<lparr>p_cwd := None\<rparr>) (op_end k2))"
  let ?k4 = "case p_parent (kprocs ?k3 (me k)) of Some q \<Rightarrow> wakeup (ChProc q) ?k3 | None \<Rightarrow> ?k3"
  have k': "k' = upd_proc (me k) (\<lambda>x. x\<lparr>p_xstate := st, p_state := ZOMBIE\<rparr>) ?k4"
    using e ni 1 by (simp add: exit_def Let_def)
  let ?k25 = "upd_proc (me k) (\<lambda>x. x\<lparr>p_cwd := None\<rparr>) (op_end k2)"
  have a: "same_fds k1 k2" by (rule same_fds_trans [OF same_fds_op(1) same_fds_fsdo [OF 1(3)]])
  have b: "same_fds k2 ?k25" by (rule same_fds_trans [OF same_fds_op(2) same_fds_upd]) simp
  have c: "same_fds ?k25 ?k3" by (rule same_fds_reparent)
  have d: "same_fds ?k3 ?k4" by (cases "p_parent (kprocs ?k3 (me k))") simp_all
  have e: "same_fds ?k4 k'" unfolding k' by (rule same_fds_upd) simp
  have "same_fds k1 k'"
    by (rule same_fds_trans [OF a same_fds_trans [OF b same_fds_trans [OF c same_fds_trans [OF d e]]]])
  then have "fd_inv h k' = fd_inv h k1" "p_ofile (kprocs k' p) = p_ofile (kprocs k1 p)" for h p
    by (auto simp: same_fds_def fd_inv_def slots_def)
  then show ?thesis using close_files_inv [OF ok m 1(1)] by simp
qed

lemma proc_pagetable_more:
  assumes "proc_pagetable kend tr p k = Inr (pt, k')"
  shows "kmem.more k' = kmem.more k"
proof -
  obtain pt0 k0 where 0: "uvmcreate k = (pt0, k0)" by (cases "uvmcreate k")
  then show ?thesis
    using assms uvmcreate_more [OF 0]
    by (auto simp: proc_pagetable_def ebind_eq_Inr dest!: mappages_more uvmfree_more uvmunmap_more split: if_splits)
qed

lemma proc_freepagetable_more: "proc_freepagetable kend pt sz k = Inr k' \<Longrightarrow> kmem.more k' = kmem.more k"
  by (auto simp: proc_freepagetable_def ebind_eq_Inr dest!: uvmunmap_more uvmfree_more)

lemma freeproc_same:
  assumes "freeproc kend p k = Inr k'"
  shows "same_fds k k'"
proof -
  from assms obtain k1 k3 where 1: "(if p_trapframe (kprocs k p) \<noteq> 0 then kfree kend (p_trapframe (kprocs k p)) k else Inr k) = Inr k1"
    and 3: "(let k = upd_proc p (\<lambda>x. x\<lparr>p_trapframe := 0\<rparr>) k1 in
        if p_pagetable (kprocs k p) \<noteq> 0
            then proc_freepagetable kend (p_pagetable (kprocs k p)) (p_sz (kprocs k p)) k else Inr k) = Inr k3"
    and k': "k' = upd_proc p (\<lambda>x. x\<lparr>p_pagetable := 0, p_sz := 0, p_pid := 0, p_parent := None, p_name := [],
            p_chan := None, p_killed := False, p_xstate := 0, p_state := UNUSED\<rparr>) k3"
    by (auto simp: freeproc_def ebind_eq_Inr Let_def)
  let ?k2 = "upd_proc p (\<lambda>x. x\<lparr>p_trapframe := 0\<rparr>) k1"
  have a: "same_fds k k1" using 1 by (auto intro: same_fds_more dest: kfree_more split: if_splits)
  have b: "same_fds k1 ?k2" by (rule same_fds_upd) simp
  have c: "same_fds ?k2 k3" using 3 by (auto simp: Let_def intro: same_fds_more dest: proc_freepagetable_more split: if_splits)
  have d: "same_fds k3 k'" unfolding k' by (rule same_fds_upd) simp
  show ?thesis by (rule same_fds_trans [OF a same_fds_trans [OF b same_fds_trans [OF c d]]])
qed

lemma allocproc_same:
  assumes "allocproc kend tr fret k = Inr (r, k')"
  shows "same_fds k k'" "r = Some np \<Longrightarrow> np < NPROC \<and> p_state (kprocs k np) = UNUSED"
proof -
  have "same_fds k k' \<and> (\<forall>np. r = Some np \<longrightarrow> np < NPROC \<and> p_state (kprocs k np) = UNUSED)"
  proof (cases "scan (\<lambda>p. p_state (kprocs k p) = UNUSED) 0 NPROC")
    case None
    then show ?thesis using assms by (simp add: allocproc_def)
  next
    case (Some p)
    have p: "p < NPROC" "p_state (kprocs k p) = UNUSED" using scan_SomeD [OF Some] by auto
    let ?k1 = "upd_proc p (\<lambda>x. x\<lparr>p_pid := nextpid k, p_state := USED\<rparr>) (k\<lparr>nextpid := nextpid k + 1\<rparr>)"
    obtain tf k2 where tf: "kalloc ?k1 = (tf, k2)" by (cases "kalloc ?k1")
    let ?k3 = "upd_proc p (\<lambda>x. x\<lparr>p_trapframe := tf\<rparr>) k2"
    have a: "same_fds k (k\<lparr>nextpid := nextpid k + 1\<rparr>)" by (simp add: same_fds_def)
    have b: "same_fds (k\<lparr>nextpid := nextpid k + 1\<rparr>) ?k1" by (rule same_fds_upd) simp
    have c: "same_fds ?k1 k2" by (rule same_fds_more [OF kalloc_more [OF tf]])
    have d: "same_fds k2 ?k3" by (rule same_fds_upd) simp
    have s3: "same_fds k ?k3" by (rule same_fds_trans [OF a same_fds_trans [OF b same_fds_trans [OF c d]]])
    have e: "(if tf = 0 then ebind (freeproc kend p ?k3) (\<lambda>k. Inr (None, k))
        else ebind (proc_pagetable kend tr p ?k3) (\<lambda>(pt, k).
               let k = upd_proc p (\<lambda>x. x\<lparr>p_pagetable := pt\<rparr>) k in
               if pt = 0 then ebind (freeproc kend p k) (\<lambda>k. Inr (None, k))
               else Inr (Some p, upd_proc p (\<lambda>x. x\<lparr>p_context :=
                   \<lparr>c_ra = fret, c_sp = p_kstack x + of_nat PGSIZE, c_saved = (\<lambda>_. 0)\<rparr>\<rparr>) k))) = Inr (r, k')"
      using assms by (simp only: allocproc_def Some option.case allocpid_def prod.case tf Let_def)
    show ?thesis
    proof (cases "tf = 0")
      case True
      then have "freeproc kend p ?k3 = Inr k'" "r = None" using e by (auto simp: ebind_eq_Inr)
      then show ?thesis using same_fds_trans [OF s3 freeproc_same] by simp
    next
      case False
      then obtain pt k4 where 4: "proc_pagetable kend tr p ?k3 = Inr (pt, k4)" using e by (auto simp: ebind_eq_Inr)
      let ?k5 = "upd_proc p (\<lambda>x. x\<lparr>p_pagetable := pt\<rparr>) k4"
      have "same_fds k4 ?k5" by (rule same_fds_upd) simp
      then have s5: "same_fds k ?k5"
        by (intro same_fds_trans [OF s3 same_fds_trans [OF same_fds_more [OF proc_pagetable_more [OF 4]]]])
      show ?thesis
      proof (cases "pt = 0")
        case True
        then have "freeproc kend p ?k5 = Inr k'" "r = None" using e False 4 by (auto simp: ebind_eq_Inr Let_def)
        then show ?thesis using same_fds_trans [OF s5 freeproc_same] by simp
      next
        case nz: False
        have "r = Some p" and k': "k' = upd_proc p (\<lambda>x. x\<lparr>p_context :=
                   \<lparr>c_ra = fret, c_sp = p_kstack x + of_nat PGSIZE, c_saved = (\<lambda>_. 0)\<rparr>\<rparr>) ?k5"
          using e False 4 nz by (auto simp: Let_def)
        have "same_fds ?k5 k'" unfolding k' by (rule same_fds_upd) simp
        then show ?thesis using same_fds_trans [OF s5] p \<open>r = Some p\<close> by simp
      qed
    qed
  qed
  then show "same_fds k k'" "r = Some np \<Longrightarrow> np < NPROC \<and> p_state (kprocs k np) = UNUSED" by auto
qed

lemma dup_files_inv:
  assumes ok: "fd_ok k" and np: "np < NPROC" and none: "\<forall>fd<NOFILE. p_ofile (kprocs k np) fd = None" and p: "p < NPROC"
    and d: "dup_files p np k = Inr k'"
  shows "fd_ok k'"
proof -
  have "fd_ok k' \<and> (\<forall>fd<NOFILE. NOFILE \<le> fd \<longrightarrow> p_ofile (kprocs k' np) fd = None)"
    using d [unfolded dup_files_def]
  proof (rule efold_upt [where P = "\<lambda>n t. fd_ok t \<and> (\<forall>fd<NOFILE. n \<le> fd \<longrightarrow> p_ofile (kprocs t np) fd = None)"])
    show "fd_ok k \<and> (\<forall>fd<NOFILE. 0 \<le> fd \<longrightarrow> p_ofile (kprocs k np) fd = None)" using ok none by simp
    fix i t t'
    assume i: "i < NOFILE" and st: "(case p_ofile (kprocs t p) i of
         Some f \<Rightarrow> ebind (filedup f t) (\<lambda>k. Inr (upd_proc np (\<lambda>x. x\<lparr>p_ofile := (p_ofile x)(i := Some f)\<rparr>) k))
       | None \<Rightarrow> Inr t) = Inr t'"
      and P: "fd_ok t \<and> (\<forall>fd<NOFILE. i \<le> fd \<longrightarrow> p_ofile (kprocs t np) fd = None)"
    show "fd_ok t' \<and> (\<forall>fd<NOFILE. Suc i \<le> fd \<longrightarrow> p_ofile (kprocs t' np) fd = None)"
    proof (cases "p_ofile (kprocs t p) i")
      case None
      then show ?thesis using st P by simp
    next
      case (Some f)
      then obtain u where u: "filedup f t = Inr u" "t' = set_fd np i (Some f) u"
        using st by (auto simp: ebind_eq_Inr set_fd_def)
      have fi: "fd_inv (adj f 1 (\<lambda>_. 0)) u" "kprocs u = kprocs t" using filedup_inv [OF _ u(1)] P by blast+
      have f: "f < NFILE" using open_file_pos(2) [OF _ p i Some] P by auto
      have "fd_inv (adj f (- 1) (adj f 1 (\<lambda>_. 0))) t'"
        unfolding u(2) by (rule fd_inv_set [OF fi(1) np i _ f]) (use fi(2) P i in simp)
      then show ?thesis using P fi(2) by (auto simp: u(2) set_fd_def)
    qed
  qed
  then show ?thesis by blast
qed

lemma fork_inv:
  assumes ok: "fd_ok k" and f: "fork kend tr fret k = Inr (r, k')"
    and idle: "\<forall>p<NPROC. p_state (kprocs k p) = UNUSED \<longrightarrow> (\<forall>fd<NOFILE. p_ofile (kprocs k p) fd = None)"
  shows "fd_ok k'"
proof -
  have m: "me k < NPROC" using ok by (simp add: fd_inv_def)
  from f obtain q k1 where 1: "allocproc kend tr fret k = Inr (q, k1)" by (auto simp: fork_def Let_def ebind_eq_Inr)
  note s1 = allocproc_same(1) [OF 1]
  show ?thesis
  proof (cases q)
    case None
    then have "k' = k1" using f 1 by (simp add: fork_def Let_def)
    then show ?thesis using fd_inv_same [OF s1 ok] by simp
  next
    case (Some np)
    have np: "np < NPROC" "\<forall>fd<NOFILE. p_ofile (kprocs k np) fd = None" using allocproc_same(2) [OF 1 Some] idle by auto
    let ?pt = "\<lambda>p. p_pagetable (kprocs k1 p)"
    from f 1 Some obtain v k2 where 2: "uvmcopy kend (?pt (me k)) (?pt np) (p_sz (kprocs k1 (me k))) k1 = Inr (v, k2)"
      by (auto simp: fork_def Let_def ebind_eq_Inr)
    have s2: "same_fds k k2"
      by (rule same_fds_trans [OF s1 same_fds_more]) (rule uvmcopy_from_more [OF 2 [unfolded uvmcopy_def]])
    show ?thesis
    proof (cases "v < 0")
      case True
      then have "freeproc kend np k2 = Inr k'" using f 1 Some 2 by (auto simp: fork_def Let_def ebind_eq_Inr)
      then show ?thesis using fd_inv_same [OF same_fds_trans [OF s2 freeproc_same] ok] by blast
    next
      case False
      let ?k3 = "upd_proc np (\<lambda>x. x\<lparr>p_sz := p_sz (kprocs k2 (me k))\<rparr>) k2"
      let ?k4 = "?k3\<lparr>kmemory := memmove (unat (p_trapframe (kprocs ?k3 np))) (unat (p_trapframe (kprocs ?k3 (me k)))) TF_SIZE (kmemory ?k3)\<rparr>"
      let ?k5 = "put_tf np TF_A0 0 ?k4"
      have a: "same_fds k2 ?k3" by (rule same_fds_upd) simp
      have b: "same_fds ?k3 ?k5" by (simp add: same_fds_def put_tf_def)
      have s5: "same_fds k ?k5" by (rule same_fds_trans [OF s2 same_fds_trans [OF a b]])
      from f 1 Some 2 False obtain k6 where 6: "dup_files (me k) np ?k5 = Inr k6"
        by (auto simp: fork_def Let_def ebind_eq_Inr)
      have i6: "fd_ok k6"
        by (rule dup_files_inv [OF fd_inv_same [OF s5 ok] np(1) _ m 6]) (use s5 np(2) in \<open>simp add: same_fds_def\<close>)
      from f 1 Some 2 False 6 obtain cwd where cwd: "p_cwd (kprocs k6 (me k)) = Some cwd"
        by (cases "p_cwd (kprocs k6 (me k))") (auto simp: fork_def Let_def)
      let ?k7 = "k6\<lparr>kfs := snd (idup cwd (kfs k6))\<rparr>"
      have "k' = upd_proc np (\<lambda>x. x\<lparr>p_state := RUNNABLE\<rparr>) (upd_proc np (\<lambda>x. x\<lparr>p_parent := Some (me k)\<rparr>)
          (upd_proc np (\<lambda>x. x\<lparr>p_cwd := Some cwd, p_name := p_name (kprocs ?k7 (me k))\<rparr>) ?k7))"
        using f 1 Some 2 False 6 cwd by (auto simp: fork_def Let_def)
      then have "same_fds k6 k'" by (simp add: same_fds_def)
      then show ?thesis by (rule fd_inv_same [OF _ i6])
    qed
  qed
qed

section \<open>Every count is the number of descriptors\<close>

lemma sys_dup_returns:
  assumes ok: "fd_ok k"
  shows "\<exists>r k'. sys_dup k = Inr (r, k')"
proof -
  obtain a where a: "argfd 0 k = Inr a" by (auto simp: argfd_def argint_def argraw_def)
  show ?thesis
  proof (cases a)
    case None
    then show ?thesis using a by (simp add: sys_dup_def)
  next
    case (Some q)
    obtain fd f where q: "q = (fd, f)" by (cases q)
    have o: "fd < NOFILE" "p_ofile (kprocs k (me k)) fd = Some f" using argfd_file a Some q by auto
    have m: "me k < NPROC" using ok by (simp add: fd_inv_def)
    have f: "1 \<le> f_ref (ftable k f)" "f < NFILE" using open_file_pos [OF ok m o] by auto
    obtain z k1 where z: "fdalloc f k = (z, k1)" by (cases "fdalloc f k")
    show ?thesis
    proof (cases z)
      case None
      then show ?thesis using a Some q z by (simp add: sys_dup_def)
    next
      case n: (Some fd')
      have "ftable k1 = ftable k" using fdalloc_inv(4) [OF ok _ f(2)] z n by simp
      then show ?thesis using a Some q z n f(1) by (simp add: sys_dup_def filedup_def)
    qed
  qed
qed

text \<open>
  Claim C14. The reference count of every open file is the number of descriptors, over all processes, that
  refer to it, and the calls that change descriptors keep it so. \<open>dup\<close> never panics; \<open>close\<close>, \<open>pipe\<close> and
  \<open>open\<close> keep the counts on every path on which they return, the error paths included; \<open>fork\<close> does when unused
  process slots have no descriptors; \<open>exit\<close> does, and leaves the process without descriptors. So a file is
  released exactly when its last descriptor goes.
\<close>

theorem descriptors_counted:
  assumes "fd_ok k"
  shows "(\<exists>r k'. sys_dup k = Inr (r, k') \<and> fd_ok k') \<and>
    (\<forall>r k'. sys_close kend k = Inr (r, k') \<or> sys_pipe kend k = Inr (r, k') \<or> sys_open junk kend k = Inr (r, k') \<longrightarrow> fd_ok k') \<and>
    (\<forall>r k'. (\<forall>p<NPROC. p_state (kprocs k p) = UNUSED \<longrightarrow> (\<forall>fd<NOFILE. p_ofile (kprocs k p) fd = None)) \<longrightarrow>
       fork kend trampoline forkret k = Inr (r, k') \<longrightarrow> fd_ok k') \<and>
    (\<forall>k'. exit kend status k = Inr k' \<longrightarrow> fd_ok k' \<and> (\<forall>fd<NOFILE. p_ofile (kprocs k' (me k)) fd = None))"
proof (intro conjI)
  show "\<exists>r k'. sys_dup k = Inr (r, k') \<and> fd_ok k'" using sys_dup_returns [OF assms] sys_dup_inv [OF assms] by blast
  show "\<forall>r k'. sys_close kend k = Inr (r, k') \<or> sys_pipe kend k = Inr (r, k') \<or> sys_open junk kend k = Inr (r, k') \<longrightarrow> fd_ok k'"
    using sys_close_inv [OF assms] sys_pipe_inv [OF assms] sys_open_inv [OF assms] by blast
  show "\<forall>r k'. (\<forall>p<NPROC. p_state (kprocs k p) = UNUSED \<longrightarrow> (\<forall>fd<NOFILE. p_ofile (kprocs k p) fd = None)) \<longrightarrow>
       fork kend trampoline forkret k = Inr (r, k') \<longrightarrow> fd_ok k'"
    using fork_inv [OF assms] by blast
  show "\<forall>k'. exit kend status k = Inr k' \<longrightarrow> fd_ok k' \<and> (\<forall>fd<NOFILE. p_ofile (kprocs k' (me k)) fd = None)"
    using exit_inv [OF assms] by blast
qed

theorem descriptors_counted_witness:
  "\<exists>k r k'. p_ofile (kprocs k 0) 0 = Some 3 \<and> f_ref (ftable k 3) = 1 \<and> sys_dup k = Inr (r, k') \<and> fd_ok k'"
proof -
  define k :: kernel where "k = undefined\<lparr>me := 0,
    kprocs := (\<lambda>p. undefined\<lparr>p_ofile := (if p = 0 then [0 \<mapsto> 3] else Map.empty)\<rparr>),
    ftable := (\<lambda>f. undefined\<lparr>f_ref := (if f = 3 then 1 else 0)\<rparr>)\<rparr>"
  have "slots k f = (if f = 3 then {(0, 0)} else {})" for f
    by (auto simp: slots_def k_def NPROC_def NOFILE_def split: if_splits)
  then have "fd_ok k" by (auto simp: fd_inv_def k_def NPROC_def NFILE_def split: if_splits)
  from descriptors_counted [OF this] obtain r k' where "sys_dup k = Inr (r, k')" "fd_ok k'" by blast
  moreover have "p_ofile (kprocs k 0) 0 = Some 3" "f_ref (ftable k 3) = 1" by (simp_all add: k_def)
  ultimately show ?thesis by blast
qed

end
