(* ===== verification/Machine_Start.thy ===== *)
theory Machine_Start
  imports Trap_Handler
begin

text \<open>
  Machine start-up: \<^verbatim>\<open>kernel/start.c\<close> on the control registers of a hart, the interrupt controller
  (\<^verbatim>\<open>kernel/plic.c\<close>) as its memory-mapped registers, \<open>kvminit\<close> and \<open>kvminithart\<close> of \<^verbatim>\<open>kernel/vm.c\<close>, and \<open>main\<close>
  (\<^verbatim>\<open>kernel/main.c\<close>) as the sequence of the initialisations of the other theories. The messages of \<open>main\<close>
  and the initialisation of the locks are left out.
\<close>

section \<open>Machine mode\<close>

definition NCPU :: nat where [layout_simps]: "NCPU = 8"
definition MSTATUS_MPP_MASK :: u64 where "MSTATUS_MPP_MASK = push_bit 11 3"
definition MSTATUS_MPP_S :: u64 where "MSTATUS_MPP_S = push_bit 11 1"
definition SIE_SEIE :: u64 where "SIE_SEIE = push_bit 9 1"
definition SIE_STIE :: u64 where "SIE_STIE = push_bit 5 1"
definition SIE_SSIE :: u64 where "SIE_SSIE = push_bit 1 1"
definition MIE_STIE :: u64 where "MIE_STIE = push_bit 5 1"

record mregs = csr +
  mstatus :: u64
  mepc :: u64
  medeleg :: u64
  mideleg :: u64
  sie_reg :: u64
  pmpaddr0 :: u64
  pmpcfg0 :: u64
  mie :: u64
  menvcfg :: u64
  mcounteren :: u64
  mhartid :: u64

definition timerinit :: "u64 \<Rightarrow> mregs \<Rightarrow> mregs" where
  "timerinit now c =
     (let c = c\<lparr>mie := mie c OR MIE_STIE\<rparr>;
          c = c\<lparr>menvcfg := menvcfg c OR push_bit 63 1\<rparr>;
          c = c\<lparr>mcounteren := mcounteren c OR 2\<rparr>
      in c\<lparr>stimecmp := now + 1000000\<rparr>)"

text \<open>The registers when \<open>start\<close> executes \<^verbatim>\<open>mret\<close>; \<open>entry\<close> is the address of \<open>main\<close>, \<open>now\<close> the clock.\<close>

definition start_hart :: "u64 \<Rightarrow> u64 \<Rightarrow> mregs \<Rightarrow> mregs" where
  "start_hart entry now c =
     (let x = mstatus c;
          x = x AND NOT MSTATUS_MPP_MASK;
          x = x OR MSTATUS_MPP_S;
          c = c\<lparr>mstatus := x\<rparr>;
          c = c\<lparr>mepc := entry\<rparr>;
          c = c\<lparr>satp := 0\<rparr>;
          c = c\<lparr>medeleg := 0xffff\<rparr>;
          c = c\<lparr>mideleg := 0xffff\<rparr>;
          c = c\<lparr>sie_reg := sie_reg c OR SIE_SEIE OR SIE_STIE OR SIE_SSIE\<rparr>;
          c = c\<lparr>pmpaddr0 := 0x3fffffffffffff\<rparr>;
          c = c\<lparr>pmpcfg0 := 0xf\<rparr>;
          c = timerinit now c;
          id = ucast (mhartid c) :: u32
      in c\<lparr>tp := scast id\<rparr>)"

text \<open>\<^verbatim>\<open>proc.c\<close>: the hart that runs is the number in \<^verbatim>\<open>tp\<close>.\<close>

definition cpuid :: "'a csr_scheme \<Rightarrow> int" where
  "cpuid c = sint (ucast (tp c) :: u32)"

section \<open>Interrupt controller\<close>

definition PLIC_SENABLE :: "int \<Rightarrow> u64" where "PLIC_SENABLE hart = PLIC + 0x2080 + of_int hart * 0x100"
definition PLIC_SPRIORITY :: "int \<Rightarrow> u64" where "PLIC_SPRIORITY hart = PLIC + 0x201000 + of_int hart * 0x2000"
definition PLIC_SCLAIM :: "int \<Rightarrow> u64" where "PLIC_SCLAIM hart = PLIC + 0x201004 + of_int hart * 0x2000"

type_synonym plic = "u64 \<Rightarrow> u32"

definition plicinit :: "plic \<Rightarrow> plic" where
  "plicinit p = p(PLIC + of_nat UART0_IRQ * 4 := 1, PLIC + of_nat VIRTIO0_IRQ * 4 := 1)"

definition plicinithart :: "int \<Rightarrow> plic \<Rightarrow> plic" where
  "plicinithart hart p =
     p(PLIC_SENABLE hart := push_bit UART0_IRQ 1 OR push_bit VIRTIO0_IRQ 1, PLIC_SPRIORITY hart := 0)"

definition plic_claim :: "int \<Rightarrow> plic \<Rightarrow> int" where
  "plic_claim hart p = sint (p (PLIC_SCLAIM hart))"

definition plic_complete :: "int \<Rightarrow> int \<Rightarrow> plic \<Rightarrow> plic" where
  "plic_complete hart irq p = p(PLIC_SCLAIM hart := of_int irq)"

section \<open>Supervisor mode\<close>

record boot = machine +
  b_plic :: plic
  b_kpgtbl :: u64
  b_cache :: bio
  b_started :: bool

text \<open>What the linker and the devices give.\<close>

record bootenv =
  e_kend :: nat
  e_etext :: u64
  e_trampoline :: u64
  e_forkret :: u64
  e_initcode :: "byte list"
  e_initname :: "byte list"
  e_vectors :: vectors
  e_reg :: "nat \<Rightarrow> u32"
  e_status :: u32

definition kvminit :: "u64 \<Rightarrow> u64 \<Rightarrow> boot \<Rightarrow> boot res" where
  "kvminit etext trampoline b =
     ebind (kvmmake etext trampoline (m_k b)) (\<lambda>(kpgtbl, k). Inr (b\<lparr>m_k := k, b_kpgtbl := kpgtbl\<rparr>))"

text \<open>The fences before and after the write order it with the accesses to the page table.\<close>

definition kvminithart :: "u64 \<Rightarrow> csr \<Rightarrow> csr" where
  "kvminithart kpgtbl c = c\<lparr>satp := MAKE_SATP kpgtbl\<rparr>"

text \<open>\<open>main\<close> on the first hart, up to the call of \<open>scheduler\<close>.\<close>

definition main_first :: "bootenv \<Rightarrow> boot \<Rightarrow> boot res" where
  "main_first e b =
     ebind (kinit (e_kend e) (m_k b)) (\<lambda>k.
     ebind (kvminit (e_etext e) (e_trampoline e) (b\<lparr>m_k := k\<rparr>)) (\<lambda>b.
     let b = b\<lparr>m_csr := kvminithart (b_kpgtbl b) (m_csr b)\<rparr>;
         b = b\<lparr>m_k := procinit (m_k b)\<rparr>;
         b = b\<lparr>m_csr := trapinithart (e_vectors e) (m_csr b)\<rparr>;
         b = b\<lparr>b_plic := plicinit (b_plic b)\<rparr>;
         b = b\<lparr>b_plic := plicinithart (cpuid (m_csr b)) (b_plic b)\<rparr>;
         b = b\<lparr>b_cache := binit (b_cache b)\<rparr>;
         b = b\<lparr>m_k := (m_k b)\<lparr>kfs := iinit (kfs (m_k b))\<rparr>\<rparr> in
     ebind (virtio_disk_init (e_reg e) (e_status e) (m_k b)) (\<lambda>(_, free, k).
     let b = b\<lparr>m_k := k, m_disk := (m_disk b)\<lparr>d_free := free\<rparr>\<rparr> in
     ebind (userinit (e_kend e) (e_trampoline e) (e_forkret e) (e_initcode e) (e_initname e) (m_k b)) (\<lambda>k.
     Inr (b\<lparr>m_k := k, b_started := True\<rparr>)))))"

text \<open>\<open>main\<close> on another hart, after its wait for \<open>started\<close>.\<close>

definition main_other :: "bootenv \<Rightarrow> u64 \<Rightarrow> csr \<Rightarrow> plic \<Rightarrow> csr \<times> plic" where
  "main_other e kpgtbl c p =
     (let c = kvminithart kpgtbl c;
          c = trapinithart (e_vectors e) c
      in (c, plicinithart (cpuid c) p))"

section \<open>What start-up leaves\<close>

text \<open>
  \<open>start\<close> arranges that \<^verbatim>\<open>mret\<close> enters \<open>main\<close> in supervisor mode without paging and with every trap
  delegated; the other bits of \<^verbatim>\<open>mstatus\<close> are as before, and \<open>cpuid\<close> is the number of the hart.
\<close>

lemma bit_three: "bit (3 :: 'w::len word) n \<longleftrightarrow> n < 2 \<and> n < LENGTH('w)"
proof -
  have "(3 :: 'w word) = mask 2" by (simp add: mask_eq_exp_minus_1)
  then show ?thesis by (simp only: bit_mask_iff) auto
qed

theorem start_enters_main:
  fixes entry now :: u64
  assumes "mhartid c < of_nat NCPU"
  defines "c' \<equiv> start_hart entry now c"
  shows "take_bit 2 (drop_bit 11 (mstatus c')) = 1" "n \<noteq> 11 \<Longrightarrow> n \<noteq> 12 \<Longrightarrow> bit (mstatus c') n = bit (mstatus c) n"
    "mepc c' = entry" "satp c' = 0" "medeleg c' = 0xffff" "mideleg c' = 0xffff"
    "cpuid c' = uint (mhartid c)"
proof -
  have m: "mstatus c' = (mstatus c AND NOT (push_bit 11 3)) OR push_bit 11 1"
    by (simp add: c'_def start_hart_def timerinit_def Let_def MSTATUS_MPP_MASK_def MSTATUS_MPP_S_def)
  have b: "bit (mstatus c') k \<longleftrightarrow> k = 11 \<or> k \<noteq> 12 \<and> bit (mstatus c) k" for k
  proof -
    have 3: "bit (push_bit 11 (3 :: u64)) k \<longleftrightarrow> k = 11 \<or> k = 12"
      unfolding bit_push_bit_iff bit_three by auto
    have 1: "bit (push_bit 11 (1 :: u64)) k \<longleftrightarrow> k = 11" unfolding bit_push_bit_iff bit_1_iff by auto
    have "bit (mstatus c) k \<Longrightarrow> k < 64" using bit_imp_le_length [of "mstatus c" k] by simp
    then show ?thesis unfolding m bit_or_iff bit_and_iff bit_not_iff 3 1 by auto
  qed
  show "take_bit 2 (drop_bit 11 (mstatus c')) = 1"
  proof (rule bit_word_eqI)
    fix k :: nat
    have "k = 0 \<or> k = 1 \<or> \<not> k < 2" by arith
    then show "bit (take_bit 2 (drop_bit 11 (mstatus c'))) k = bit (1 :: u64) k"
      unfolding bit_take_bit_iff bit_drop_bit_eq comp_def b bit_1_iff by auto
  qed
  show "n \<noteq> 11 \<Longrightarrow> n \<noteq> 12 \<Longrightarrow> bit (mstatus c') n = bit (mstatus c) n" by (simp add: b)
  show "mepc c' = entry" "satp c' = 0" "medeleg c' = 0xffff" "mideleg c' = 0xffff"
    by (simp_all add: c'_def start_hart_def timerinit_def Let_def)
  have rt: "ucast (scast x :: u64) = x" for x :: u32
    by (rule bit_word_eqI) (auto simp: bit_unsigned_iff bit_signed_iff)
  have "cpuid c' = sint (ucast (scast (ucast (mhartid c) :: u32) :: u64) :: u32)"
    by (simp add: c'_def start_hart_def timerinit_def Let_def cpuid_def)
  also have "\<dots> = sint (ucast (mhartid c) :: u32)" unfolding rt ..
  also have "\<dots> = uint (mhartid c)"
  proof -
    have u: "uint (mhartid c) < 8" using assms(1) by (simp add: word_less_def NCPU_def)
    then have "uint (ucast (mhartid c) :: u32) = uint (mhartid c)" by (simp add: uint_up_ucast unsigned_ucast_eq take_bit_int_eq_self)
    moreover have "signed_take_bit 31 (uint (mhartid c)) = uint (mhartid c)"
    proof (rule signed_take_bit_int_eq_self)
      show "- (2 ^ 31) \<le> uint (mhartid c)" by (rule order_trans [of _ 0]) simp_all
      show "uint (mhartid c) < 2 ^ 31" using u by simp
    qed
    ultimately show ?thesis by (simp add: sint_uint)
  qed
  finally show "cpuid c' = uint (mhartid c)" .
qed

text \<open>The registers of the controller that belong to different harts are different.\<close>

lemma plic_apart:
  assumes "h < NCPU" "g < NCPU"
  shows "PLIC_SENABLE (int h) = PLIC_SENABLE (int g) \<longleftrightarrow> h = g" "PLIC_SPRIORITY (int h) = PLIC_SPRIORITY (int g) \<longleftrightarrow> h = g"
    "PLIC_SENABLE (int h) \<noteq> PLIC_SPRIORITY (int g)" "PLIC_SENABLE (int h) \<noteq> PLIC + 40" "PLIC_SENABLE (int h) \<noteq> PLIC + 4"
    "PLIC_SPRIORITY (int h) \<noteq> PLIC + 40" "PLIC_SPRIORITY (int h) \<noteq> PLIC + 4"
proof -
  have h: "h \<in> {0, 1, 2, 3, 4, 5, 6, 7}" "g \<in> {0, 1, 2, 3, 4, 5, 6, 7}" using assms by (auto simp: NCPU_def)
  show "PLIC_SENABLE (int h) = PLIC_SENABLE (int g) \<longleftrightarrow> h = g" using h by (auto simp: PLIC_SENABLE_def PLIC_def)
  show "PLIC_SPRIORITY (int h) = PLIC_SPRIORITY (int g) \<longleftrightarrow> h = g" using h by (auto simp: PLIC_SPRIORITY_def PLIC_def)
  show "PLIC_SENABLE (int h) \<noteq> PLIC_SPRIORITY (int g)" using h by (auto simp: PLIC_SENABLE_def PLIC_SPRIORITY_def PLIC_def)
  show "PLIC_SENABLE (int h) \<noteq> PLIC + 40" "PLIC_SENABLE (int h) \<noteq> PLIC + 4" using h by (auto simp: PLIC_SENABLE_def PLIC_def)
  show "PLIC_SPRIORITY (int h) \<noteq> PLIC + 40" "PLIC_SPRIORITY (int h) \<noteq> PLIC + 4" using h by (auto simp: PLIC_SPRIORITY_def PLIC_def)
qed

lemma plicinithart_at:
  "plicinithart h p a = (if a = PLIC_SPRIORITY h then 0
     else if a = PLIC_SENABLE h then push_bit UART0_IRQ 1 OR push_bit VIRTIO0_IRQ 1 else p a)"
  by (simp add: plicinithart_def)

text \<open>
  Whatever the order in which the harts come up, the serial port and the disk have a priority above the
  threshold and are enabled on every one of them.
\<close>

theorem plic_all_harts:
  fixes p0 :: plic
  assumes "\<forall>h \<in> set hs. h < NCPU"
  defines "p \<equiv> fold (\<lambda>h. plicinithart (int h)) hs (plicinit p0)"
  shows "p (PLIC + of_nat UART0_IRQ * 4) = 1 \<and> p (PLIC + of_nat VIRTIO0_IRQ * 4) = 1 \<and>
    (\<forall>h \<in> set hs. p (PLIC_SPRIORITY (int h)) = 0 \<and> bit (p (PLIC_SENABLE (int h))) UART0_IRQ \<and> bit (p (PLIC_SENABLE (int h))) VIRTIO0_IRQ)"
  using assms(1) unfolding p_def
proof (induction hs rule: rev_induct)
  case Nil
  then show ?case by (simp add: plicinit_def UART0_IRQ_def VIRTIO0_IRQ_def PLIC_def)
next
  case (snoc g hs)
  define q where "q = fold (\<lambda>h. plicinithart (int h)) hs (plicinit p0)"
  have g: "g < NCPU" and hs: "\<forall>h \<in> set hs. h < NCPU" using snoc.prems by auto
  note IH = snoc.IH [OF hs, folded q_def]
  have en: "bit (push_bit UART0_IRQ 1 OR push_bit VIRTIO0_IRQ 1 :: u32) UART0_IRQ" "bit (push_bit UART0_IRQ 1 OR push_bit VIRTIO0_IRQ 1 :: u32) VIRTIO0_IRQ"
    by (simp_all add: bit_simps UART0_IRQ_def VIRTIO0_IRQ_def)
  have "p (PLIC_SPRIORITY (int h)) = 0 \<and> bit (p (PLIC_SENABLE (int h))) UART0_IRQ \<and> bit (p (PLIC_SENABLE (int h))) VIRTIO0_IRQ"
    if h: "h \<in> set (hs @ [g])" and p: "p = plicinithart (int g) q" for h p
  proof (cases "h = g")
    case True
    then show ?thesis using plic_apart(3) [OF g g] en by (simp add: p plicinithart_at)
  next
    case False
    then have "h \<in> set hs" "h < NCPU" using h hs by auto
    then show ?thesis using plic_apart [OF _ g, of h] plic_apart(3) [OF g, of h] False IH
      by (simp add: p plicinithart_at)
  qed
  moreover have "plicinithart (int g) q (PLIC + of_nat UART0_IRQ * 4) = 1 \<and> plicinithart (int g) q (PLIC + of_nat VIRTIO0_IRQ * 4) = 1"
    using plic_apart(4-7) [OF g g] IH by (simp add: plicinithart_at UART0_IRQ_def VIRTIO0_IRQ_def)
  ultimately show ?case by (simp add: q_def)
qed

end
