(* ===== verification/Spec2Isabelle.thy ===== *)
theory Spec2Isabelle
  imports Block_Store Pipe_Buffer Page_Alloc User_Grep Fs_Data Vm_Paging Sleep_Wakeup Sys_Proc Fs_Content User_Lib User_Shell Vm_Copy
    Trap_Handler Process_Schedule User_Malloc User_Tools Kernel_Printf Shell_Run Proc_Refs Machine_Start
begin

text \<open>
  A verification library for the xv6 kernel and user programs under
  \<^verbatim>\<open>src/operating systems project 2\<close> (\<^verbatim>\<open>kernel/\<close> and \<^verbatim>\<open>user/\<close> below) and for the process runner
  \<^verbatim>\<open>ergasia1.c\<close> under \<^verbatim>\<open>src/operating systems project 1\<close>.

  \<^bold>\<open>The program.\<close> xv6 is a small Unix kernel for RISC-V. From the bottom: spin locks and sleep locks
  protect the shared structures; the buffer cache keeps disk blocks in memory; the log makes the
  writes of a system call reach the disk all or none; the file system keeps inodes, directories and
  paths in logged blocks; the page allocator hands out physical pages, from which the page tables
  of the processes are built; processes are created, scheduled, put to sleep and woken; open files
  connect descriptors to inodes, devices and pipes; system calls check their arguments and call all
  of these. The process runner is a user program for a Unix system: a parent that starts and terminates
  children at the steps of a configuration file and hands them lines of a text, with one semaphore
  per child and shared memory between them.

  \<^bold>\<open>Conventions.\<close> A C function is a HOL function on the state it uses, with the state returned
  updated. \<open>Kernel_Prelude\<close> has the result type: \<open>Inr v\<close> for a return, \<open>Inl\<close> of \<open>Panic\<close> for
  \<^verbatim>\<open>panic()\<close>, \<open>Asleep\<close> where the caller gives up the processor, \<open>NoFuel\<close> where a recursion is bounded by
  fuel, and \<open>Undef\<close> for an access that C leaves undefined. Fixed-width integers are words; \<^verbatim>\<open>int\<close>
  counters that cannot overflow, and indices that the code checks, are \<open>int\<close> or \<open>nat\<close>. A pointer into
  a table is an index; a pointer that the code compares with 0 is an \<open>option\<close> or a word. Code is
  atomic between the points at which it can lose the processor, except where the interleaving is
  the point of the theorem (\<open>Kernel_Locks\<close>, \<open>Log_Txn\<close>, \<open>Page_Alloc\<close>, \<open>Sleep_Wakeup\<close>, \<open>Virtio_Disk\<close>), which are step
  relations with invariants over \<open>reach\<close> and the locale \<open>invariant_system\<close>.

  \<^bold>\<open>The theories.\<close>

    \<^item> \<open>Kernel_Prelude\<close>: machine types, results, counted loops, little-endian fields.
    \<^item> \<open>Kernel_Locks\<close> (\<^verbatim>\<open>spinlock.c\<close>, \<^verbatim>\<open>sleeplock.c\<close>): \<open>push_off\<close>, \<open>acquire\<close>, \<open>release\<close> and the sleep locks;
      mutual exclusion for any number of processors.
    \<^item> \<open>Buffer_Cache\<close>, \<open>Cache_Contract\<close> (\<^verbatim>\<open>bio.c\<close>): the buffers, the doubly linked ring with its pointers, and
      the contract of the cache as the locale \<open>block_cache\<close>: a read returns the current contents.
    \<^item> \<open>Write_Log\<close>, \<open>Log_Txn\<close>, \<open>Log_Crash\<close> (\<^verbatim>\<open>log.c\<close>): the log over the cache; a commit that is cut
      off after any disk write is, after recovery, all or nothing; the reservation of \<open>begin_op\<close>
      is enough for every interleaving of system calls.
    \<^item> \<open>Block_Store\<close>: the abstract store of blocks that the file system uses, and the proof that the
      cache and the log implement it inside a transaction.
    \<^item> \<open>Fs_Layout\<close>, \<open>Fs_Alloc\<close>, \<open>Fs_Inode\<close>, \<open>Fs_Data\<close> (\<^verbatim>\<open>fs.c\<close>): on-disk layout, block allocator, inode
      table and block map, file contents, directories and paths, on the abstract store.
    \<^item> \<open>Fs_Content\<close>: the block map as a function, and what \<open>readi\<close> and \<open>writei\<close> do to the contents of a file.
    \<^item> \<open>Kernel_String\<close> (\<^verbatim>\<open>string.c\<close>), \<open>Page_Alloc\<close> (\<^verbatim>\<open>kalloc.c\<close>), \<open>Vm_Paging\<close>
      (\<^verbatim>\<open>vm.c\<close>), \<open>Pipe_Buffer\<close> (\<^verbatim>\<open>pipe.c\<close>, with the locale \<open>ring_buffer\<close> for rings with free-running
      counters, which the next two interpret as well).
    \<^item> \<open>Page_Table\<close>, \<open>Page_Map\<close>, \<open>Vm_Copy\<close>: a page table of \<open>Vm_Paging\<close> as a tree of pages, \<open>walk\<close> with its
      allocations, and the abstraction to a map from page numbers to entries; mapping, unmapping, freeing and the copies
      to and from user memory over that map.
    \<^item> \<open>Console_Uart\<close> (\<^verbatim>\<open>console.c\<close>, \<^verbatim>\<open>uart.c\<close>): the transmit ring and the line buffer; the console implements an
      abstract line editor, and output is in order.
    \<^item> \<open>Virtio_Disk\<close> (\<^verbatim>\<open>virtio_disk.c\<close>): descriptors, requests and the completion interrupt, with the device as a step.
    \<^item> \<open>Kernel_State\<close>, \<open>File_Table\<close> (\<^verbatim>\<open>file.c\<close>), \<open>Proc_Table\<close> (\<^verbatim>\<open>proc.c\<close>), \<open>Sleep_Wakeup\<close> (\<open>sleep\<close> and \<open>wakeup\<close>
      of \<^verbatim>\<open>proc.c\<close>), \<open>Sys_File\<close> (\<^verbatim>\<open>sysfile.c\<close>, the arguments of \<^verbatim>\<open>syscall.c\<close>), \<open>Sys_Proc\<close> (\<^verbatim>\<open>exec.c\<close>,
      \<^verbatim>\<open>sysproc.c\<close>, the dispatch of \<^verbatim>\<open>syscall.c\<close>): the kernel state and the layers above the file system.
    \<^item> \<open>File_Refs\<close>, \<open>Proc_Refs\<close>: the reference counts of open files against the descriptors of all processes, through the
      calls of \<open>Sys_File\<close> and through \<open>fork\<close> and \<open>exit\<close>.
    \<^item> \<open>Trap_Handler\<close> (\<^verbatim>\<open>trap.c\<close>): the way into the kernel and back, and the dispatch of interrupts to the drivers
      above; a clock interrupt is transparent to the process.
    \<^item> \<open>Machine_Start\<close> (\<^verbatim>\<open>start.c\<close>, \<^verbatim>\<open>plic.c\<close>, \<^verbatim>\<open>main.c\<close>): the control registers of a hart, the interrupt controller,
      and the order of the initialisations; every hart enters \<open>main\<close> in supervisor mode with its number, and takes the interrupts of
      both devices.
    \<^item> \<open>Kernel_Printf\<close> (\<^verbatim>\<open>kernel/printf.c\<close>): messages, and which numbers fit the conversion buffer.
    \<^item> \<open>User_Malloc\<close> (\<^verbatim>\<open>user/umalloc.c\<close>): the allocator on its pointer ring, with the free memory as a set of units.
    \<^item> \<open>User_Tools\<close> (\<^verbatim>\<open>user/wc.c\<close>, \<^verbatim>\<open>user/cat.c\<close>, \<^verbatim>\<open>user/echo.c\<close>, the names of \<^verbatim>\<open>user/ls.c\<close>).
    \<^item> \<open>User_Lib\<close> (\<^verbatim>\<open>user/ulib.c\<close>, \<^verbatim>\<open>user/printf.c\<close>): strings, numbers, formatted output.
    \<^item> \<open>User_Shell\<close>, \<open>Shell_Run\<close> (\<^verbatim>\<open>user/sh.c\<close>): the command parser of the shell, and that it always returns; the
      programs that a command starts, with their descriptors.
    \<^item> \<open>User_Grep\<close> (\<^verbatim>\<open>user/grep.c\<close>): the regular expression matcher and the line loop.
    \<^item> \<open>Process_Runner\<close>, \<open>Process_Schedule\<close> (\<^verbatim>\<open>ergasia1.c\<close>): the configuration file, the choice of a child, and the
      protocol of parent and children with the invariant that lets every sound schedule complete.

  \<^bold>\<open>What the theorems show.\<close> The properties are in the last section of each theory, each after a
  paragraph that states it. They are about: mutual exclusion; the cache always returning current
  data, its replacement and recency; crash atomicity and functional correctness of a commit, log
  absorption and reservation; the cache and log refining the block store; block allocation and
  freeing; one table slot per inode; page allocation being exclusive;
  page tables being maps that mapping extends and freeing returns without a leak, and copies to user
  memory being read back; every open file being counted once per descriptor;
  reads and writes of file contents; pipes being FIFO; the string functions; no lost wakeup; printing and
  reading numbers; the meaning of grep's patterns; the console as a line editor; the disk driver's
  descriptors being neither lost nor shared; and the process runner completing every sound schedule,
  though no configuration file is read without leaving the bounds of an array; the clock interrupt;
  memory allocation of user programs; the counts of wc; and the descriptors of the shell's programs.

  \<^bold>\<open>Bounds and fuel.\<close> The parser of the shell has fuel linear in its input, which is
  proved to be enough. Walks around the ring of buffers have fuel \<^verbatim>\<open>NBUF + 1\<close>, which the ring lemmas show
  to be enough. \<open>freewalk\<close> has the depth of a page table, 3. The other loops terminate by a measure.
  \<open>strlen\<close> may run for ever on memory without a zero byte, and the loops of \<open>malloc\<close> and \<open>free\<close> on a
  broken ring; they are partial functions, and proved to return on well-formed memory.

  \<^bold>\<open>Assumptions.\<close> The hypotheses of the theorems are the resources that the code reserves (\<open>buf_room\<close>,
  \<open>log_room\<close>) and well-formedness of what is on the disk (\<open>bmap_ok\<close>). Disk, devices, linker symbols
  and uninitialised memory are parameters.

  \<^bold>\<open>Not modelled.\<close> Assembly (\<^verbatim>\<open>entry.S\<close>, \<^verbatim>\<open>swtch.S\<close>, \<^verbatim>\<open>trampoline.S\<close>, \<^verbatim>\<open>kernelvec.S\<close>), which moves registers that the C code
  does not name, and the register accesses of \<^verbatim>\<open>riscv.h\<close>, which are single instructions; the control registers that C code reads
  and writes are fields of the state. The devices are inputs of the drivers. The test programs of \<^verbatim>\<open>user/\<close>
  (\<^verbatim>\<open>usertests.c\<close>, \<^verbatim>\<open>grind.c\<close>, \<^verbatim>\<open>symlinktest.c\<close> and others) and the main functions of its small programs only call
  the system and print what it returned; what they would check is what the theorems above state. The earlier version
  \<^verbatim>\<open>ergasia1test.c\<close> of the process runner is left out.
\<close>

end
